(* ===== verification/Prelude.thy ===== *)
theory Prelude
  imports Main "HOL-Library.Word"
begin

text \<open>
  Shared vocabulary of the development: the faults a C++ operation can end in, the result
  type that carries them, the machine types of the Win32 build, and generic lemmas on lists
  that several components use.
\<close>

unbundle bit_operations_syntax

section \<open>Machine types\<close>

text \<open>
  The solution only has Win32 configurations (\<open>boring.sln\<close>), so \<open>size_t\<close>, \<open>int\<close> and
  \<open>unsigned long\<close> are 32 bits wide.
\<close>

type_synonym byte = "8 word"
type_synonym uint16 = "16 word"
type_synonym uint32 = "32 word"
type_synonym uint64 = "64 word"
type_synonym size_t = "32 word"

definition byte_of_char :: "char \<Rightarrow> byte" where
  "byte_of_char c = of_nat (of_char c)"

definition char_of_byte :: "byte \<Rightarrow> char" where
  "char_of_byte b = char_of (unat b)"

text \<open>A plain \<open>char\<close> is signed under the compiler of the project; this is its promotion to int.\<close>

definition schar :: "char \<Rightarrow> int" where
  "schar c = (let n = (of_char c :: int) in if n < 128 then n else n - 256)"

text \<open>The conversion of an int back to \<open>char\<close>, which keeps the low eight bits.\<close>

definition char_of_int :: "int \<Rightarrow> char" where
  "char_of_int i = char_of (i mod 256)"

section \<open>Faults and results\<close>

text \<open>
  An operation whose C++ original has no defined result (or whose debug build stops at a
  failed assertion) returns \<open>Inl\<close> of the reason. A loop of the original that never ends is
  \<open>Never_returns\<close>. \<open>Out_of_fuel\<close> stands for nothing in the code: a recursion on fuel ends in it
  when the fuel does not suffice, and the theorems on such a recursion exclude it.
\<close>

datatype fault =
    Assert_failed
  | Out_of_bounds
  | Null_deref
  | Use_after_free
  | Double_free
  | Undefined_shift
  | Uninitialised
  | Int_overflow
  | Never_returns
  | Out_of_fuel

type_synonym 'a res = "fault + 'a"

definition bindr :: "'a res \<Rightarrow> ('a \<Rightarrow> 'b res) \<Rightarrow> 'b res" where
  "bindr m f = (case m of Inl e \<Rightarrow> Inl e | Inr a \<Rightarrow> f a)"

text \<open>The same for code that may not return.\<close>

abbreviation bindo :: "'a res option \<Rightarrow> ('a \<Rightarrow> 'b res option) \<Rightarrow> 'b res option" where
  "bindo m f \<equiv> Option.bind m (\<lambda>r. case r of Inl e \<Rightarrow> Some (Inl e) | Inr x \<Rightarrow> f x)"

lemma bindr_Inl [simp]: "bindr (Inl e) f = Inl e"
  by (simp add: bindr_def)

lemma bindr_Inr [simp]: "bindr (Inr a) f = f a"
  by (simp add: bindr_def)

lemma bindr_eq_Inr: "bindr m f = Inr b \<longleftrightarrow> (\<exists>a. m = Inr a \<and> f a = Inr b)"
  by (cases m) auto

lemma bindr_assoc: "bindr (bindr m f) g = bindr m (\<lambda>a. bindr (f a) g)"
  by (cases m) auto

lemma bindr_ext: "(\<And>a. f a = g a) \<Longrightarrow> bindr m f = bindr m g"
  by (cases m) auto

text \<open>
  \<open>yields F P r\<close>: the result is a value with the property \<open>P\<close> or one of the faults in \<open>F\<close>.
\<close>

definition yields :: "fault set \<Rightarrow> ('a \<Rightarrow> bool) \<Rightarrow> 'a res \<Rightarrow> bool" where
  "yields F P r = (case r of Inl f \<Rightarrow> f \<in> F | Inr a \<Rightarrow> P a)"

lemma yields_simps [simp]: "yields F P (Inl f) \<longleftrightarrow> f \<in> F" "yields F P (Inr a) \<longleftrightarrow> P a"
  by (simp_all add: yields_def)

lemma yields_bindr:
  "yields F P m \<Longrightarrow> (\<And>a. P a \<Longrightarrow> yields F Q (f a)) \<Longrightarrow> yields F Q (bindr m f)"
  by (cases m) auto

lemma yields_mono: "yields F P r \<Longrightarrow> F \<subseteq> G \<Longrightarrow> (\<And>a. P a \<Longrightarrow> Q a) \<Longrightarrow> yields G Q r"
  by (cases r) auto

text \<open>Run a stateful operation over the elements of a list, stopping at the first fault.\<close>

fun foldr_res :: "('a \<Rightarrow> 's \<Rightarrow> 's res) \<Rightarrow> 'a list \<Rightarrow> 's \<Rightarrow> 's res" where
  "foldr_res f [] s = Inr s"
| "foldr_res f (x # xs) s = bindr (f x s) (foldr_res f xs)"

lemma foldr_res_append: "foldr_res f (xs @ ys) s = bindr (foldr_res f xs s) (foldr_res f ys)"
  by (induction xs arbitrary: s) (auto simp: bindr_assoc intro: bindr_ext)

lemma foldr_res_concat: "foldr_res f (concat xss) s = foldr_res (foldr_res f) xss s"
  by (induction xss arbitrary: s) (auto simp: foldr_res_append intro: bindr_ext)

lemma foldr_res_map: "foldr_res f (map g xs) s = foldr_res (\<lambda>x. f (g x)) xs s"
  by (induction xs arbitrary: s) (auto intro: bindr_ext)

text \<open>If an operation can only end in one fault, an element that always causes it makes the run end in it.\<close>

lemma foldr_res_fault:
  assumes "\<And>x s. x \<in> set xs \<Longrightarrow> f x s = Inl e \<or> (\<exists>t. f x s = Inr t)"
    and "y \<in> set xs" "\<And>s. f y s = Inl e"
  shows "foldr_res f xs s = Inl e"
  using assms
proof (induction xs arbitrary: s)
  case (Cons x xs)
  show ?case
  proof (cases "x = y")
    case False
    with Cons.prems have "y \<in> set xs" by simp
    then have "foldr_res f xs t = Inl e" for t using Cons by simp
    then show ?thesis using Cons.prems(1) [of x s] by auto
  qed (simp add: Cons.prems(3))
qed simp

section \<open>Collections\<close>

text \<open>Facts the component proofs pass to the simplifier as a group.\<close>

named_theorems wire_simps \<open>byte order and stream codecs\<close>
named_theorems cstring_simps \<open>C and std::string primitives\<close>
named_theorems heap_simps \<open>linked structures on an explicit heap\<close>

section \<open>C strings\<close>

abbreviation NUL :: char where "NUL \<equiv> CHR 0x00"

text \<open>What a \<open>const char*\<close> denotes: the characters before the first NUL.\<close>

definition cstr :: "string \<Rightarrow> string" where
  "cstr s = takeWhile (\<lambda>c. c \<noteq> NUL) s"

lemma cstr_id [cstring_simps]: "NUL \<notin> set s \<Longrightarrow> cstr s = s"
  by (auto simp: cstr_def takeWhile_eq_all_conv)

lemma NUL_notin_cstr [simp]: "NUL \<notin> set (cstr s)"
  by (auto simp: cstr_def dest: set_takeWhileD)

lemma cstr_idem [simp]: "cstr (cstr s) = cstr s"
  by (simp add: cstr_id)

lemma cstr_append_NUL [simp]: "cstr (s @ NUL # r) = cstr s"
  by (induction s) (auto simp: cstr_def)

text \<open>What \<open>printf\<close> writes for a number that is not negative.\<close>

fun decimal :: "nat \<Rightarrow> string" where
  "decimal n = (if n < 10 then [char_of (48 + n)] else decimal (n div 10) @ [char_of (48 + n mod 10)])"

declare decimal.simps [simp del]

section \<open>Characters and bytes\<close>

lemma char_of_byte_of_char [simp]: "char_of_byte (byte_of_char c) = c"
  by (simp add: char_of_byte_def byte_of_char_def unat_of_nat)

lemma byte_of_char_of_byte [simp]: "byte_of_char (char_of_byte b) = b"
proof -
  have "unat b < 256" using unsigned_less [of b, where 'a = nat] by simp
  then show ?thesis by (simp add: char_of_byte_def byte_of_char_def)
qed

lemma of_char_int_bounds: "0 \<le> (of_char c :: int)" "(of_char c :: int) < 256"
proof -
  have e: "(of_char c :: int) = int (of_char c)" by (metis of_nat_of_char)
  show "0 \<le> (of_char c :: int)" unfolding e by (rule of_nat_0_le_iff)
  show "(of_char c :: int) < 256"
    unfolding e using nat_of_char_less_256 [of c] by linarith
qed

lemma schar_range: "-128 \<le> schar c \<and> schar c \<le> 127"
  using of_char_int_bounds [of c] by (auto simp: schar_def Let_def)

lemma schar_mod: "schar c mod 256 = (of_char c :: int)"
proof (cases "(of_char c :: int) < 128")
  case True
  then show ?thesis using of_char_int_bounds [of c] by (simp add: schar_def)
next
  case False
  then have "schar c = of_char c - 256" by (simp add: schar_def Let_def)
  then show ?thesis using of_char_int_bounds [of c] by (simp add: mod_diff_right_eq)
qed

lemma char_of_int_schar [simp]: "char_of_int (schar c) = c"
  by (simp add: char_of_int_def schar_mod)

lemma schar_eq_iff [simp]: "schar c = schar d \<longleftrightarrow> c = d"
  by (metis char_of_int_schar)

end
