(* ===== verification/ByteOrder.thy ===== *)
theory ByteOrder
  imports Prelude
begin

text \<open>
  \<open>CUtil\<close> (\<open>base/util.cpp\<close>) and the \<open>BSWAP\<close> macros (\<open>base/boring.h\<close>): conversion between
  host and network byte order. The byte order of the host is the parameter \<open>be\<close>; it decides
  only how an integer lies in memory (\<open>mem16\<close>, \<open>mem32\<close>, \<open>mem64\<close>).
\<close>

section \<open>Memory images\<close>

definition be16 :: "uint16 \<Rightarrow> byte list" where
  "be16 w = [ucast (drop_bit 8 w), ucast w]"

definition be32 :: "uint32 \<Rightarrow> byte list" where
  "be32 w = [ucast (drop_bit 24 w), ucast (drop_bit 16 w), ucast (drop_bit 8 w), ucast w]"

definition be64 :: "uint64 \<Rightarrow> byte list" where
  "be64 w = [ucast (drop_bit 56 w), ucast (drop_bit 48 w), ucast (drop_bit 40 w),
     ucast (drop_bit 32 w), ucast (drop_bit 24 w), ucast (drop_bit 16 w),
     ucast (drop_bit 8 w), ucast w]"

definition mem16 :: "bool \<Rightarrow> uint16 \<Rightarrow> byte list" where
  "mem16 be w = (if be then be16 w else rev (be16 w))"

definition mem32 :: "bool \<Rightarrow> uint32 \<Rightarrow> byte list" where
  "mem32 be w = (if be then be32 w else rev (be32 w))"

definition mem64 :: "bool \<Rightarrow> uint64 \<Rightarrow> byte list" where
  "mem64 be w = (if be then be64 w else rev (be64 w))"

text \<open>Reading an integer object back from its bytes (\<open>memcpy\<close> into a local variable).\<close>

fun of_be16 :: "byte list \<Rightarrow> uint16" where
  "of_be16 [h, l] = push_bit 8 (ucast h) OR ucast l"
| "of_be16 _ = 0"

fun of_be32 :: "byte list \<Rightarrow> uint32" where
  "of_be32 [a, b, c, d] =
     push_bit 24 (ucast a) OR push_bit 16 (ucast b) OR push_bit 8 (ucast c) OR ucast d"
| "of_be32 _ = 0"

definition load16 :: "bool \<Rightarrow> byte list \<Rightarrow> uint16" where
  "load16 be bs = of_be16 (if be then bs else rev bs)"

definition load32 :: "bool \<Rightarrow> byte list \<Rightarrow> uint32" where
  "load32 be bs = of_be32 (if be then bs else rev bs)"

section \<open>CUtil\<close>

text \<open>\<open>*(int8*)&p\<close> reads the first byte in memory of the 16-bit constant 1.\<close>

definition isBigEndian :: "bool \<Rightarrow> bool" where
  "isBigEndian be = (let p = 0x0001 :: uint16 in if hd (mem16 be p) \<noteq> 0 then False else True)"

text \<open>The 16-bit operand is promoted to a 32-bit int before the shifts and cut back on return.\<close>

definition hton16 :: "bool \<Rightarrow> uint16 \<Rightarrow> uint16" where
  "hton16 be host16 =
     (if isBigEndian be then host16
      else let h = ucast host16 :: 32 word
           in ucast (push_bit 8 (0xff AND h) OR (drop_bit 8 h AND 0xff)))"

definition hton32 :: "bool \<Rightarrow> uint32 \<Rightarrow> uint32" where
  "hton32 be host32 =
     (if isBigEndian be then host32
      else push_bit 24 (0x000000ff AND host32) OR
           push_bit 8 (0x0000ff00 AND host32) OR
           drop_bit 8 (0x00ff0000 AND host32) OR
           drop_bit 24 (0xff000000 AND host32))"

definition hton64 :: "bool \<Rightarrow> uint64 \<Rightarrow> uint64" where
  "hton64 be host64 =
     (if isBigEndian be then host64
      else push_bit 56 (0x00000000000000ff AND host64) OR
           push_bit 40 (0x000000000000ff00 AND host64) OR
           push_bit 24 (0x0000000000ff0000 AND host64) OR
           push_bit 8 (0x00000000ff000000 AND host64) OR
           drop_bit 8 (0x000000ff00000000 AND host64) OR
           drop_bit 24 (0x0000ff0000000000 AND host64) OR
           drop_bit 40 (0x00ff000000000000 AND host64) OR
           drop_bit 56 (0xff00000000000000 AND host64))"

section \<open>The BSWAP macros\<close>

text \<open>The macros expand on the type of their argument; \<open>'a\<close> is that (unsigned) type.\<close>

definition BSWAP_8 :: "'a::len word \<Rightarrow> 'a word" where
  "BSWAP_8 x = x AND 0xff"

definition BSWAP_16 :: "'a::len word \<Rightarrow> 'a word" where
  "BSWAP_16 x = push_bit 8 (BSWAP_8 x) OR BSWAP_8 (drop_bit 8 x)"

definition BSWAP_32 :: "'a::len word \<Rightarrow> 'a word" where
  "BSWAP_32 x = push_bit 16 (BSWAP_16 x) OR BSWAP_16 (drop_bit 16 x)"

definition BSWAP_64 :: "'a::len word \<Rightarrow> 'a word" where
  "BSWAP_64 x = push_bit 32 (BSWAP_32 x) OR BSWAP_32 (drop_bit 32 x)"

section \<open>Lemmas\<close>

lemma isBigEndian_host [simp, wire_simps]: "isBigEndian be = be"
  by (simp add: isBigEndian_def mem16_def be16_def)

lemma length_be [simp]: "length (be16 w) = 2" "length (be32 x) = 4" "length (be64 y) = 8"
  by (simp_all add: be16_def be32_def be64_def)

lemma length_mem [simp]:
  "length (mem16 be w) = 2" "length (mem32 be x) = 4" "length (mem64 be y) = 8"
  by (simp_all add: mem16_def mem32_def mem64_def)

text \<open>The constants of the byte masks, bit by bit.\<close>

lemma bit_field:
  fixes w :: int
  assumes "w = push_bit k (mask m)"
  shows "bit w n \<longleftrightarrow> k \<le> n \<and> n < k + m"
  unfolding assms by (auto simp: bit_push_bit_iff bit_mask_iff)

lemma byte_masks:
  "bit (0xff :: int) n \<longleftrightarrow> n < 8"
  "bit (0xff00 :: int) n \<longleftrightarrow> 8 \<le> n \<and> n < 16"
  "bit (0xff0000 :: int) n \<longleftrightarrow> 16 \<le> n \<and> n < 24"
  "bit (0xff000000 :: int) n \<longleftrightarrow> 24 \<le> n \<and> n < 32"
  "bit (0xff00000000 :: int) n \<longleftrightarrow> 32 \<le> n \<and> n < 40"
  "bit (0xff0000000000 :: int) n \<longleftrightarrow> 40 \<le> n \<and> n < 48"
  "bit (0xff000000000000 :: int) n \<longleftrightarrow> 48 \<le> n \<and> n < 56"
  "bit (0xff00000000000000 :: int) n \<longleftrightarrow> 56 \<le> n \<and> n < 64"
  by (simp_all add: bit_field [of _ 0 8] bit_field [of _ 8 8] bit_field [of _ 16 8]
    bit_field [of _ 24 8] bit_field [of _ 32 8] bit_field [of _ 40 8] bit_field [of _ 48 8]
    bit_field [of _ 56 8] mask_eq_exp_minus_1 push_bit_eq_mult)

lemma mem16_hton16 [wire_simps]: "mem16 be (hton16 be w) = be16 w"
  unfolding hton16_def Let_def mem16_def be16_def isBigEndian_host
  by (cases be; simp; intro conjI; rule bit_word_eqI) (auto simp: bit_simps byte_masks)

lemma mem32_hton32 [wire_simps]: "mem32 be (hton32 be w) = be32 w"
  unfolding hton32_def mem32_def be32_def isBigEndian_host
  by (cases be; simp; intro conjI; rule bit_word_eqI) (auto simp: bit_simps byte_masks)

lemma mem64_hton64 [wire_simps]: "mem64 be (hton64 be w) = be64 w"
  unfolding hton64_def mem64_def be64_def isBigEndian_host
  by (cases be; simp; intro conjI; rule bit_word_eqI) (auto simp: bit_simps byte_masks)

lemma of_be16_be16 [simp, wire_simps]: "of_be16 (be16 w) = w"
  unfolding be16_def of_be16.simps by (rule bit_word_eqI) (auto simp: bit_simps)

lemma of_be32_be32 [simp, wire_simps]: "of_be32 (be32 w) = w"
proof (rule bit_word_eqI)
  fix n assume "n < LENGTH(32)"
  then consider "n < 8" | "8 \<le> n" "n < 16" | "16 \<le> n" "n < 24" | "24 \<le> n" "n < 32"
    by fastforce
  then show "bit (of_be32 (be32 w)) n = bit w n"
    by cases (auto simp: be32_def bit_simps)
qed

lemma be16_inj: "be16 v = be16 w \<Longrightarrow> v = w"
  by (metis of_be16_be16)

lemma be32_inj: "be32 v = be32 w \<Longrightarrow> v = w"
  by (metis of_be32_be32)

lemma be64_inj:
  assumes "be64 v = be64 w"
  shows "v = w"
proof (rule bit_word_eqI)
  fix n assume "n < LENGTH(64)"
  then have n: "n < 64" by simp
  let ?k = "n div 8 * 8"
  have "ucast (drop_bit ?k v) = (ucast (drop_bit ?k w) :: byte)"
  proof -
    have "n div 8 < 8" using n by simp
    then consider "n div 8 = 0" | "n div 8 = 1" | "n div 8 = 2" | "n div 8 = 3" |
      "n div 8 = 4" | "n div 8 = 5" | "n div 8 = 6" | "n div 8 = 7"
      by linarith
    then show ?thesis using assms by cases (simp_all add: be64_def)
  qed
  then have "bit (ucast (drop_bit ?k v) :: byte) (n mod 8) = bit (ucast (drop_bit ?k w) :: byte) (n mod 8)"
    by simp
  then show "bit v n = bit w n"
    by (simp add: bit_simps)
qed

lemma load16_mem16 [simp, wire_simps]: "load16 be (mem16 be w) = w"
  by (simp add: load16_def mem16_def)

lemma load32_mem32 [simp, wire_simps]: "load32 be (mem32 be w) = w"
  by (simp add: load32_def mem32_def)

lemma be_hton:
  "be16 (hton16 be w) = (if be then be16 w else rev (be16 w))"
  "be32 (hton32 be x) = (if be then be32 x else rev (be32 x))"
  "be64 (hton64 be y) = (if be then be64 y else rev (be64 y))"
  using mem16_hton16 [of be w] mem32_hton32 [of be x] mem64_hton64 [of be y]
  by (auto simp: mem16_def mem32_def mem64_def rev_swap split: if_splits)

lemma hton16_hton16 [simp, wire_simps]: "hton16 be (hton16 be w) = w"
  by (rule be16_inj) (simp add: be_hton)

lemma hton32_hton32 [simp, wire_simps]: "hton32 be (hton32 be w) = w"
  by (rule be32_inj) (simp add: be_hton)

lemma hton64_hton64 [simp]: "hton64 be (hton64 be w) = w"
  by (rule be64_inj) (simp add: be_hton)

text \<open>A field in network order, copied into an integer object and converted, is the value.\<close>

lemma hton16_load16 [simp, wire_simps]: "hton16 be (load16 be (be16 w)) = w"
  by (metis hton16_hton16 load16_mem16 mem16_hton16)

lemma hton32_load32 [simp, wire_simps]: "hton32 be (load32 be (be32 w)) = w"
  by (metis hton32_hton32 load32_mem32 mem32_hton32)

lemma bit_BSWAP_8: "bit (BSWAP_8 x) n \<longleftrightarrow> n < 8 \<and> bit x n"
  by (auto simp: BSWAP_8_def bit_simps byte_masks bit_imp_le_length)

lemma bit_BSWAP_16: "bit (BSWAP_16 (x :: 'a::len word)) n \<longleftrightarrow>
    n < LENGTH('a) \<and> (if n < 8 then bit x (8 + n) else n < 16 \<and> bit x (n - 8))"
  by (auto simp: BSWAP_16_def bit_simps bit_BSWAP_8 dest: bit_imp_le_length)

lemma bit_BSWAP_32: "bit (BSWAP_32 (x :: 'a::len word)) n \<longleftrightarrow>
    n < LENGTH('a) \<and>
    (if n < 8 then bit x (24 + n) else if n < 16 then bit x (8 + n)
     else if n < 24 then bit x (n - 8) else n < 32 \<and> bit x (n - 24))"
  by (auto simp: BSWAP_32_def bit_simps bit_BSWAP_16 dest: bit_imp_le_length)

lemma be32_BSWAP: "be32 (BSWAP_32 w) = rev (be32 w)"
  unfolding be32_def
  by (simp; intro conjI; rule bit_word_eqI) (auto simp: bit_simps bit_BSWAP_32)

lemma be64_BSWAP: "be64 (BSWAP_64 w) = rev (be64 w)"
  unfolding be64_def
  by (simp; intro conjI; rule bit_word_eqI) (auto simp: bit_simps BSWAP_64_def bit_BSWAP_32)

lemma be16_BSWAP: "be16 (BSWAP_16 w) = rev (be16 w)"
  unfolding be16_def
  by (simp; intro conjI; rule bit_word_eqI) (auto simp: bit_simps bit_BSWAP_16)

section \<open>Properties\<close>

text \<open>
  On a host of either byte order, the value \<open>hton16\<close>, \<open>hton32\<close> or \<open>hton64\<close> returns lies
  in memory with its most significant byte first, which is network order.
\<close>

theorem hton_memory_is_network_order:
  "mem16 be (hton16 be w) = be16 w \<and> mem32 be (hton32 be x) = be32 x \<and>
   mem64 be (hton64 be y) = be64 y"
  by (simp add: mem16_hton16 mem32_hton32 mem64_hton64)

text \<open>
  The conversions are their own inverses, so the code uses the same function to read a
  network value as to write one.
\<close>

theorem hton_involution:
  "hton16 be (hton16 be w) = w \<and> hton32 be (hton32 be x) = x \<and> hton64 be (hton64 be y) = y"
  by simp

text \<open>
  The \<open>BSWAP\<close> macros compute what the \<open>hton\<close> functions compute on a little-endian host.
\<close>

theorem BSWAP_is_hton_little_endian:
  "BSWAP_16 w = hton16 False w \<and> BSWAP_32 x = hton32 False x \<and> BSWAP_64 y = hton64 False y"
proof (intro conjI)
  show "BSWAP_16 w = hton16 False w"
    by (rule be16_inj) (simp add: be16_BSWAP be_hton)
  show "BSWAP_32 x = hton32 False x"
    by (rule be32_inj) (simp add: be32_BSWAP be_hton)
  show "BSWAP_64 y = hton64 False y"
    by (rule be64_inj) (simp add: be64_BSWAP be_hton)
qed

end
