(* ===== verification/Streams.thy ===== *)
theory Streams
  imports ByteOrder
begin

text \<open>
  \<open>COutStream\<close> (\<open>base/OutStream.cpp\<close>) and \<open>CInStream\<close> (\<open>base/InStream.cpp\<close>): a growing write
  buffer and a read cursor over a received block. \<open>size_t\<close> arithmetic wraps at 32 bits. An
  access outside the vector, which the C++ leaves undefined, is the fault \<open>Out_of_bounds\<close>, and
  a failed \<open>assert\<close> is \<open>Assert_failed\<close>. The parameter \<open>be\<close> is the byte order of the host.
\<close>

section \<open>COutStream\<close>

record out_stream =
  o_buffer :: "byte list"
  o_index :: size_t

definition sInitalSize :: size_t where
  "sInitalSize = 1024"

text \<open>\<open>std::vector<char>::resize\<close>: cut, or extended with zero bytes.\<close>

definition resize :: "size_t \<Rightarrow> byte list \<Rightarrow> byte list" where
  "resize n xs = take (unat n) xs @ replicate (unat n - length xs) 0"

definition vec_size :: "byte list \<Rightarrow> size_t" where
  "vec_size xs = of_nat (length xs)"

text \<open>\<open>std::copy\<close> to the iterator \<open>begin() + i\<close>.\<close>

definition copy_to :: "byte list \<Rightarrow> nat \<Rightarrow> byte list \<Rightarrow> byte list res" where
  "copy_to xs i bs =
     (if i + length xs \<le> length bs then Inr (take i bs @ xs @ drop (i + length xs) bs)
      else Inl Out_of_bounds)"

definition COutStream :: out_stream where
  "COutStream = \<lparr>o_buffer = replicate (unat sInitalSize) 0, o_index = 0\<rparr>"

definition WriteableBytes :: "out_stream \<Rightarrow> size_t" where
  "WriteableBytes s = vec_size (o_buffer s) - o_index s"

definition EnsureWriteableBytes :: "size_t \<Rightarrow> out_stream \<Rightarrow> out_stream" where
  "EnsureWriteableBytes len s =
     (if WriteableBytes s < len then s\<lparr>o_buffer := resize (o_index s + len) (o_buffer s)\<rparr> else s)"

definition Append :: "byte list \<Rightarrow> out_stream \<Rightarrow> out_stream res" where
  "Append bs s =
     (let len = vec_size bs; s1 = EnsureWriteableBytes len s
      in bindr (copy_to bs (unat (o_index s1)) (o_buffer s1))
           (\<lambda>buf. Inr (s1\<lparr>o_buffer := buf, o_index := o_index s1 + len\<rparr>)))"

definition WriteBytes :: "byte list \<Rightarrow> out_stream \<Rightarrow> out_stream res" where
  "WriteBytes bs s = Append bs s"

definition put_u8 :: "byte \<Rightarrow> out_stream \<Rightarrow> out_stream res" where
  "put_u8 v s = Append [v] s"

definition put_u16 :: "bool \<Rightarrow> uint16 \<Rightarrow> out_stream \<Rightarrow> out_stream res" where
  "put_u16 be v s = (let byte16 = hton16 be v in Append (mem16 be byte16) s)"

definition put_u32 :: "bool \<Rightarrow> uint32 \<Rightarrow> out_stream \<Rightarrow> out_stream res" where
  "put_u32 be v s = (let byte32 = hton32 be v in Append (mem32 be byte32) s)"

text \<open>
  The signed overloads have the same bodies: the conversions to and from the unsigned parameter
  of \<open>hton16\<close> and \<open>hton32\<close> keep the bits, and a word holds a signed value as its bits.
\<close>

definition put_i8 :: "byte \<Rightarrow> out_stream \<Rightarrow> out_stream res" where
  "put_i8 v s = Append [v] s"

definition put_i16 :: "bool \<Rightarrow> uint16 \<Rightarrow> out_stream \<Rightarrow> out_stream res" where
  "put_i16 be v s = (let byte16 = hton16 be v in Append (mem16 be byte16) s)"

definition put_i32 :: "bool \<Rightarrow> uint32 \<Rightarrow> out_stream \<Rightarrow> out_stream res" where
  "put_i32 be v s = (let byte32 = hton32 be v in Append (mem32 be byte32) s)"

text \<open>The length prefix of a string is its length cut to 16 bits, and only that many bytes follow.\<close>

definition put_string :: "bool \<Rightarrow> byte list \<Rightarrow> out_stream \<Rightarrow> out_stream res" where
  "put_string be str s =
     (let len = of_nat (length str) :: uint16
      in bindr (put_u16 be len s) (Append (take (unat len) str)))"

definition o_Reposition :: "size_t \<Rightarrow> out_stream \<Rightarrow> out_stream" where
  "o_Reposition pos s = s\<lparr>o_index := pos\<rparr>"

definition o_Skip :: "size_t \<Rightarrow> out_stream \<Rightarrow> out_stream" where
  "o_Skip len s = (let s1 = EnsureWriteableBytes len s in s1\<lparr>o_index := o_index s1 + len\<rparr>)"

definition o_Clear :: "out_stream \<Rightarrow> out_stream" where
  "o_Clear s = s\<lparr>o_buffer := [], o_index := 0\<rparr>"

text \<open>\<open>&*begin()\<close> needs an element to point to.\<close>

definition o_Data :: "out_stream \<Rightarrow> byte list res" where
  "o_Data s = (if o_buffer s = [] then Inl Out_of_bounds else Inr (o_buffer s))"

definition o_Length :: "out_stream \<Rightarrow> size_t" where
  "o_Length s = o_index s"

section \<open>CInStream\<close>

record in_stream =
  i_buffer :: "byte list"
  i_index :: size_t

definition CInStream0 :: in_stream where
  "CInStream0 = \<lparr>i_buffer = [], i_index = 0\<rparr>"

definition SetData :: "byte list \<Rightarrow> in_stream \<Rightarrow> in_stream" where
  "SetData data s = s\<lparr>i_index := 0, i_buffer := data\<rparr>"

definition CInStream :: "byte list \<Rightarrow> in_stream" where
  "CInStream data = SetData data \<lparr>i_buffer = [], i_index = 0\<rparr>"

definition ReadableBytes :: "in_stream \<Rightarrow> size_t" where
  "ReadableBytes s = vec_size (i_buffer s) - i_index s"

text \<open>The \<open>n\<close> bytes a \<open>memcpy\<close> or \<open>std::copy\<close> from the cursor reads.\<close>

definition Peek :: "nat \<Rightarrow> in_stream \<Rightarrow> byte list res" where
  "Peek n s =
     (if unat (i_index s) + n \<le> length (i_buffer s)
      then Inr (take n (drop (unat (i_index s)) (i_buffer s))) else Inl Out_of_bounds)"

definition get_u8 :: "in_stream \<Rightarrow> (byte \<times> in_stream) res" where
  "get_u8 s =
     (if ReadableBytes s \<ge> 1
      then bindr (Peek 1 s) (\<lambda>bs. Inr (hd bs, s\<lparr>i_index := i_index s + 1\<rparr>))
      else Inl Assert_failed)"

definition get_u16 :: "bool \<Rightarrow> in_stream \<Rightarrow> (uint16 \<times> in_stream) res" where
  "get_u16 be s =
     (if ReadableBytes s \<ge> 2
      then bindr (Peek 2 s)
             (\<lambda>bs. Inr (hton16 be (load16 be bs), s\<lparr>i_index := i_index s + 2\<rparr>))
      else Inl Assert_failed)"

definition get_u32 :: "bool \<Rightarrow> in_stream \<Rightarrow> (uint32 \<times> in_stream) res" where
  "get_u32 be s =
     (if ReadableBytes s \<ge> 4
      then bindr (Peek 4 s)
             (\<lambda>bs. Inr (hton32 be (load32 be bs), s\<lparr>i_index := i_index s + 4\<rparr>))
      else Inl Assert_failed)"

definition get_i8 :: "in_stream \<Rightarrow> (byte \<times> in_stream) res" where
  "get_i8 s =
     (if ReadableBytes s \<ge> 1
      then bindr (Peek 1 s) (\<lambda>bs. Inr (hd bs, s\<lparr>i_index := i_index s + 1\<rparr>))
      else Inl Assert_failed)"

definition get_i16 :: "bool \<Rightarrow> in_stream \<Rightarrow> (uint16 \<times> in_stream) res" where
  "get_i16 be s =
     (if ReadableBytes s \<ge> 2
      then bindr (Peek 2 s)
             (\<lambda>bs. Inr (hton16 be (load16 be bs), s\<lparr>i_index := i_index s + 2\<rparr>))
      else Inl Assert_failed)"

definition get_i32 :: "bool \<Rightarrow> in_stream \<Rightarrow> (uint32 \<times> in_stream) res" where
  "get_i32 be s =
     (if ReadableBytes s \<ge> 4
      then bindr (Peek 4 s)
             (\<lambda>bs. Inr (hton32 be (load32 be bs), s\<lparr>i_index := i_index s + 4\<rparr>))
      else Inl Assert_failed)"

definition i_Reposition :: "size_t \<Rightarrow> in_stream \<Rightarrow> in_stream" where
  "i_Reposition pos s = s\<lparr>i_index := pos\<rparr>"

definition i_Skip :: "size_t \<Rightarrow> in_stream \<Rightarrow> in_stream res" where
  "i_Skip len s =
     (if ReadableBytes s > len then Inr (s\<lparr>i_index := i_index s + len\<rparr>) else Inl Assert_failed)"

definition ReadBytes :: "size_t \<Rightarrow> in_stream \<Rightarrow> (byte list \<times> in_stream) res" where
  "ReadBytes len s =
     (if ReadableBytes s \<ge> len
      then bindr (Peek (unat len) s) (\<lambda>bs. Inr (bs, s\<lparr>i_index := i_index s + len\<rparr>))
      else Inl Assert_failed)"

section \<open>Invariants\<close>

definition out_ok :: "out_stream \<Rightarrow> bool" where
  "out_ok s \<longleftrightarrow> length (o_buffer s) < 2 ^ 32 \<and> unat (o_index s) \<le> length (o_buffer s)"

definition in_ok :: "in_stream \<Rightarrow> bool" where
  "in_ok s \<longleftrightarrow> length (i_buffer s) < 2 ^ 32 \<and> unat (i_index s) \<le> length (i_buffer s)"

text \<open>What has been written so far, and what is left to read.\<close>

definition content :: "out_stream \<Rightarrow> byte list" where
  "content s = take (unat (o_index s)) (o_buffer s)"

definition ahead :: "in_stream \<Rightarrow> byte list" where
  "ahead s = drop (unat (i_index s)) (i_buffer s)"

lemma unat_vec_size: "length xs < 2 ^ 32 \<Longrightarrow> unat (vec_size xs) = length xs"
  by (simp add: vec_size_def unat_of_nat)

lemma unat_minus_le: "unat (b :: size_t) \<le> unat a \<Longrightarrow> unat (a - b) = unat a - unat b"
  by (simp add: unat_sub word_le_nat_alt)

lemma unat_plus_small:
  "unat (a :: size_t) + unat b < 2 ^ 32 \<Longrightarrow> unat (a + b) = unat a + unat b"
  by (simp add: unat_word_ariths)

lemma unat_WriteableBytes:
  "out_ok s \<Longrightarrow> unat (WriteableBytes s) = length (o_buffer s) - unat (o_index s)"
  by (simp add: out_ok_def WriteableBytes_def unat_minus_le unat_vec_size)

lemma unat_ReadableBytes: "in_ok s \<Longrightarrow> unat (ReadableBytes s) = length (ahead s)"
  by (simp add: in_ok_def ReadableBytes_def unat_minus_le unat_vec_size ahead_def)

lemma length_content: "out_ok s \<Longrightarrow> length (content s) = unat (o_index s)"
  by (simp add: content_def out_ok_def)

text \<open>
  Within 4 GiB an append never faults: it overwrites the bytes at the cursor and grows the
  buffer exactly as far as it has to.
\<close>

lemma Append_eq:
  assumes ok: "out_ok s" and fits: "unat (o_index s) + length bs < 2 ^ 32"
  shows "Append bs s = Inr (s\<lparr>o_buffer := take (unat (o_index s)) (o_buffer s) @ bs @
           drop (unat (o_index s) + length bs) (o_buffer s),
         o_index := o_index s + vec_size bs\<rparr>)"
proof -
  have len: "unat (vec_size bs) = length bs" using fits by (intro unat_vec_size) simp
  have sum: "unat (o_index s + vec_size bs) = unat (o_index s) + length bs"
    using fits len by (simp add: unat_plus_small)
  show ?thesis
  proof (cases "WriteableBytes s < vec_size bs")
    case True
    then have "length (o_buffer s) < unat (o_index s) + length bs"
      using ok by (simp add: word_less_nat_alt unat_WriteableBytes len out_ok_def)
    then show ?thesis using ok True sum
      by (simp add: Append_def EnsureWriteableBytes_def resize_def copy_to_def Let_def out_ok_def
          min_def)
  next
    case False
    then have "unat (o_index s) + length bs \<le> length (o_buffer s)"
      using ok by (auto simp: word_less_nat_alt unat_WriteableBytes len out_ok_def)
    then show ?thesis using False
      by (simp add: Append_def EnsureWriteableBytes_def copy_to_def Let_def)
  qed
qed

lemma Append_ok:
  assumes ok: "out_ok s" and fits: "length (content s) + length bs < 2 ^ 32"
  obtains s' where "Append bs s = Inr s'" "out_ok s'" "content s' = content s @ bs"
proof
  have i: "unat (o_index s) + length bs < 2 ^ 32" using assms by (simp add: length_content)
  let ?s = "s\<lparr>o_buffer := take (unat (o_index s)) (o_buffer s) @ bs @
     drop (unat (o_index s) + length bs) (o_buffer s), o_index := o_index s + vec_size bs\<rparr>"
  have u: "unat (o_index s + vec_size bs) = unat (o_index s) + length bs"
    using i by (subst unat_plus_small) (simp_all add: unat_vec_size)
  show "Append bs s = Inr ?s" using ok i by (rule Append_eq)
  show "out_ok ?s" using ok i u by (auto simp: out_ok_def)
  show "content ?s = content s @ bs" using ok u by (simp add: content_def out_ok_def)
qed

lemma out_ok_new [simp]: "out_ok COutStream" "content COutStream = []"
  by (simp_all add: out_ok_def content_def COutStream_def sInitalSize_def)

lemma ahead_bound:
  assumes "in_ok s" "ahead s = bs @ rest"
  shows "unat (i_index s) + length bs \<le> length (i_buffer s)"
proof -
  have "length (ahead s) = length bs + length rest" by (simp add: assms(2))
  then show ?thesis using assms(1) by (auto simp: ahead_def in_ok_def)
qed

lemma Peek_ahead:
  assumes "in_ok s" "ahead s = bs @ rest"
  shows "Peek (length bs) s = Inr bs" "length bs < 2 ^ 32"
proof -
  note le = ahead_bound [OF assms]
  moreover have "take (length bs) (drop (unat (i_index s)) (i_buffer s)) = bs"
    using assms(2) by (simp add: ahead_def)
  ultimately show "Peek (length bs) s = Inr bs" by (simp add: Peek_def)
  show "length bs < 2 ^ 32"
    using le assms(1) by (simp add: in_ok_def)
qed

lemma in_advance:
  assumes "in_ok s" "ahead s = bs @ rest"
  shows "in_ok (s\<lparr>i_index := i_index s + of_nat (length bs)\<rparr>)"
    and "ahead (s\<lparr>i_index := i_index s + of_nat (length bs)\<rparr>) = rest"
proof -
  note le = ahead_bound [OF assms]
  have u: "unat (i_index s + of_nat (length bs)) = unat (i_index s) + length bs"
  proof -
    have "unat (of_nat (length bs) :: size_t) = length bs"
      using Peek_ahead(2) [OF assms] by (simp add: unat_of_nat)
    then show ?thesis using le assms(1) by (subst unat_plus_small) (auto simp: in_ok_def)
  qed
  show "in_ok (s\<lparr>i_index := i_index s + of_nat (length bs)\<rparr>)"
    using le u assms(1) by (simp add: in_ok_def)
  show "ahead (s\<lparr>i_index := i_index s + of_nat (length bs)\<rparr>) = rest"
    using u assms(2) by (simp add: ahead_def drop_drop [symmetric] add.commute)
qed

lemma readable_ge:
  assumes "in_ok s" "ahead s = bs @ rest"
  shows "of_nat (length bs) \<le> ReadableBytes s"
  using Peek_ahead(2) [OF assms] unat_ReadableBytes [OF assms(1)] assms(2)
  by (simp add: word_le_nat_alt unat_of_nat)


section \<open>The contract of a codec\<close>

text \<open>
  One contract covers every pair of stream operators: a value has a wire encoding, \<open>put\<close>
  appends exactly that encoding, and \<open>get\<close>, told which kind of value to expect, consumes
  exactly that encoding and returns the value.
\<close>

locale wire_codec =
  fixes enc :: "'a \<Rightarrow> byte list"
    and put :: "'a \<Rightarrow> out_stream \<Rightarrow> out_stream res"
    and kind :: "'a \<Rightarrow> 'k"
    and get :: "'k \<Rightarrow> in_stream \<Rightarrow> ('a \<times> in_stream) res"
  assumes put_law: "put v s = Append (enc v) s"
    and get_law: "in_ok r \<Longrightarrow> ahead r = enc v @ rest \<Longrightarrow>
      get (kind v) r = Inr (v, r\<lparr>i_index := i_index r + of_nat (length (enc v))\<rparr>)"

fun get_list :: "('k \<Rightarrow> in_stream \<Rightarrow> ('a \<times> in_stream) res) \<Rightarrow> 'k list \<Rightarrow> in_stream
    \<Rightarrow> ('a list \<times> in_stream) res" where
  "get_list get [] s = Inr ([], s)"
| "get_list get (k # ks) s =
     bindr (get k s) (\<lambda>(v, s1). bindr (get_list get ks s1) (\<lambda>(vs, s2). Inr (v # vs, s2)))"

context wire_codec
begin

lemma put_list_content:
  assumes "out_ok s" and "length (content s) + length (concat (map enc vs)) < 2 ^ 32"
  shows "\<exists>s'. foldr_res put vs s = Inr s' \<and> out_ok s' \<and> content s' = content s @ concat (map enc vs)"
  using assms
proof (induction vs arbitrary: s)
  case Nil
  then show ?case by simp
next
  case (Cons v vs)
  from Cons.prems have "length (content s) + length (enc v) < 2 ^ 32" by simp
  then obtain s1 where s1: "Append (enc v) s = Inr s1" "out_ok s1" "content s1 = content s @ enc v"
    using Append_ok [OF Cons.prems(1)] by blast
  then show ?case using Cons.IH [of s1] Cons.prems(2) by (simp add: put_law add.assoc)
qed

lemma get_list_ahead:
  assumes "in_ok s" and "ahead s = concat (map enc vs) @ rest"
  shows "\<exists>s'. get_list get (map kind vs) s = Inr (vs, s') \<and> in_ok s' \<and> ahead s' = rest"
  using assms
proof (induction vs arbitrary: s)
  case Nil
  then show ?case by simp
next
  case (Cons v vs)
  let ?s = "s\<lparr>i_index := i_index s + of_nat (length (enc v))\<rparr>"
  from Cons.prems have a: "ahead s = enc v @ (concat (map enc vs) @ rest)" by simp
  have "get (kind v) s = Inr (v, ?s)" using Cons.prems(1) a by (rule get_law)
  moreover have "in_ok ?s" "ahead ?s = concat (map enc vs) @ rest"
    using in_advance [OF Cons.prems(1) a] by simp_all
  ultimately show ?case using Cons.IH [of ?s] by fastforce
qed

end

section \<open>Every operator meets the contract\<close>

datatype field = FU8 byte | FU16 uint16 | FU32 uint32 | FI8 byte | FI16 uint16 | FI32 uint32

datatype field_kind = KU8 | KU16 | KU32 | KI8 | KI16 | KI32

fun kind_of :: "field \<Rightarrow> field_kind" where
  "kind_of (FU8 _) = KU8"
| "kind_of (FU16 _) = KU16"
| "kind_of (FU32 _) = KU32"
| "kind_of (FI8 _) = KI8"
| "kind_of (FI16 _) = KI16"
| "kind_of (FI32 _) = KI32"

text \<open>The wire format: big-endian, no padding.\<close>

fun wire :: "field \<Rightarrow> byte list" where
  "wire (FU8 v) = [v]"
| "wire (FU16 v) = be16 v"
| "wire (FU32 v) = be32 v"
| "wire (FI8 v) = [v]"
| "wire (FI16 v) = be16 v"
| "wire (FI32 v) = be32 v"

fun put_field :: "bool \<Rightarrow> field \<Rightarrow> out_stream \<Rightarrow> out_stream res" where
  "put_field be (FU8 v) s = put_u8 v s"
| "put_field be (FU16 v) s = put_u16 be v s"
| "put_field be (FU32 v) s = put_u32 be v s"
| "put_field be (FI8 v) s = put_i8 v s"
| "put_field be (FI16 v) s = put_i16 be v s"
| "put_field be (FI32 v) s = put_i32 be v s"

fun get_field :: "bool \<Rightarrow> field_kind \<Rightarrow> in_stream \<Rightarrow> (field \<times> in_stream) res" where
  "get_field be KU8 s = bindr (get_u8 s) (\<lambda>(v, s'). Inr (FU8 v, s'))"
| "get_field be KU16 s = bindr (get_u16 be s) (\<lambda>(v, s'). Inr (FU16 v, s'))"
| "get_field be KU32 s = bindr (get_u32 be s) (\<lambda>(v, s'). Inr (FU32 v, s'))"
| "get_field be KI8 s = bindr (get_i8 s) (\<lambda>(v, s'). Inr (FI8 v, s'))"
| "get_field be KI16 s = bindr (get_i16 be s) (\<lambda>(v, s'). Inr (FI16 v, s'))"
| "get_field be KI32 s = bindr (get_i32 be s) (\<lambda>(v, s'). Inr (FI32 v, s'))"

lemmas put_defs = put_u8_def put_u16_def put_u32_def put_i8_def put_i16_def put_i32_def
lemmas get_defs = get_u8_def get_u16_def get_u32_def get_i8_def get_i16_def get_i32_def

lemma put_field_Append: "put_field be f s = Append (wire f) s"
  by (cases f) (simp_all add: put_defs wire_simps Let_def mem16_hton16 mem32_hton32)

lemma get_field_ahead:
  assumes "in_ok s" "ahead s = wire f @ rest"
  shows "get_field be (kind_of f) s =
    Inr (f, s\<lparr>i_index := i_index s + of_nat (length (wire f))\<rparr>)"
  using Peek_ahead(1) [OF assms] readable_ge [OF assms]
  by (cases f) (simp_all add: get_defs)

interpretation fields: wire_codec wire "put_field be1" kind_of "get_field be2"
  for be1 be2
  by unfold_locales (auto simp: put_field_Append get_field_ahead)

lemma unat_of_nat_size: "n < 2 ^ 32 \<Longrightarrow> unat (of_nat n :: size_t) = n"
  by (simp add: unat_of_nat)

lemma Peek_readable: "in_ok s \<Longrightarrow> n \<le> length (ahead s) \<Longrightarrow> Peek n s = Inr (take n (ahead s))"
  using Peek_ahead(1) [of s "take n (ahead s)" "drop n (ahead s)"] by simp

lemma in_advance_n:
  assumes "in_ok s" "n \<le> length (ahead s)"
  shows "in_ok (s\<lparr>i_index := i_index s + of_nat n\<rparr>)"
    and "ahead (s\<lparr>i_index := i_index s + of_nat n\<rparr>) = drop n (ahead s)"
  using in_advance [of s "take n (ahead s)" "drop n (ahead s)"] assms by simp_all

lemma get_field_cases:
  assumes "in_ok s"
  shows "(length (wire f) \<le> length (ahead s) \<and> (\<exists>g. kind_of g = kind_of f \<and>
      get_field be (kind_of f) s = Inr (g, s\<lparr>i_index := i_index s + of_nat (length (wire f))\<rparr>)))
    \<or> get_field be (kind_of f) s = Inl Assert_failed"
  using unat_ReadableBytes [OF assms] Peek_readable [OF assms]
  by (cases f) (auto simp: get_defs word_le_nat_alt)

section \<open>Properties\<close>

text \<open>
  C14: a record of integers of any kinds, written to a fresh \<open>COutStream\<close> on one host and the
  written bytes read with the matching operators of \<open>CInStream\<close> on another host, comes back
  unchanged whatever the byte orders of the two hosts are, and no byte is left over.
\<close>

theorem stream_roundtrip:
  assumes "length (concat (map wire fs)) < 2 ^ 32"
  shows "\<exists>s r. foldr_res (put_field be1) fs COutStream = Inr s \<and>
    unat (o_Length s) = length (concat (map wire fs)) \<and>
    get_list (get_field be2) (map kind_of fs) (CInStream (take (unat (o_Length s)) (o_buffer s)))
      = Inr (fs, r) \<and> ReadableBytes r = 0"
proof -
  have "length (content COutStream) + length (concat (map wire fs)) < 2 ^ 32"
    using assms by simp
  then obtain s where s: "foldr_res (put_field be1) fs COutStream = Inr s" "out_ok s"
    and c: "content s = concat (map wire fs)"
    using fields.put_list_content [OF out_ok_new(1), of fs be1] by auto
  have len: "unat (o_Length s) = length (concat (map wire fs))"
    using length_content [OF s(2)] c by (simp add: o_Length_def)
  let ?r = "CInStream (content s)"
  have r: "in_ok ?r" "ahead ?r = concat (map wire fs) @ []"
    using assms c by (simp_all add: CInStream_def SetData_def in_ok_def ahead_def)
  obtain r' where r': "get_list (get_field be2) (map kind_of fs) ?r = Inr (fs, r')" "in_ok r'"
      "ahead r' = []"
    using fields.get_list_ahead [OF r, of be2] by auto
  have "ReadableBytes r' = 0"
    using unat_ReadableBytes [OF r'(2)] r'(3) by (simp add: unat_eq_0)
  then show ?thesis using s(1) len r'(1) by (auto simp: content_def o_Length_def)
qed

theorem stream_roundtrip_witness:
  "length (concat (map wire [FU16 0x1234, FI8 0xFF, FU32 7])) < 2 ^ 32 \<and>
   (\<exists>s r. foldr_res (put_field False) [FU16 0x1234, FI8 0xFF, FU32 7] COutStream = Inr s \<and>
     unat (o_Length s) = length (concat (map wire [FU16 0x1234, FI8 0xFF, FU32 7])) \<and>
     get_list (get_field True) (map kind_of [FU16 0x1234, FI8 0xFF, FU32 7])
       (CInStream (take (unat (o_Length s)) (o_buffer s)))
      = Inr ([FU16 0x1234, FI8 0xFF, FU32 7], r) \<and> ReadableBytes r = 0)"
proof -
  have h: "length (concat (map wire [FU16 0x1234, FI8 0xFF, FU32 7])) < 2 ^ 32" by simp
  from h stream_roundtrip [OF h, of False True] show ?thesis by blast
qed

text \<open>
  C31: writing inside the buffer (after a \<open>Reposition\<close>) changes exactly the bytes at the cursor:
  the buffer keeps its size and every other byte its value, so a header can be patched.
\<close>

theorem Append_patches_in_place:
  assumes "out_ok s" and "unat pos + length bs \<le> length (o_buffer s)"
  shows "\<exists>s'. Append bs (o_Reposition pos s) = Inr s' \<and>
    length (o_buffer s') = length (o_buffer s) \<and> o_Length s' = pos + of_nat (length bs) \<and>
    (\<forall>i < length (o_buffer s). o_buffer s' ! i =
       (if unat pos \<le> i \<and> i < unat pos + length bs then bs ! (i - unat pos) else o_buffer s ! i))"
proof -
  have ok: "out_ok (o_Reposition pos s)" and fit: "unat pos + length bs < 2 ^ 32"
    using assms by (auto simp: out_ok_def o_Reposition_def)
  have "Append bs (o_Reposition pos s) = Inr (o_Reposition pos s\<lparr>o_buffer := take (unat pos) (o_buffer s) @ bs @
      drop (unat pos + length bs) (o_buffer s), o_index := pos + vec_size bs\<rparr>)"
    using Append_eq [OF ok, of bs] fit by (simp add: o_Reposition_def)
  then show ?thesis using assms(2)
    by (auto simp: o_Length_def vec_size_def nth_append)
qed

theorem Append_patches_in_place_witness:
  "\<exists>s'. Append [7] (o_Reposition 1 \<lparr>o_buffer = [1, 2, 3], o_index = 3\<rparr>) = Inr s' \<and>
     o_buffer s' = [1, 7, 3]"
proof -
  let ?s = "\<lparr>o_buffer = [1, 2, 3], o_index = 3\<rparr> :: out_stream"
  have "out_ok ?s" "unat (1 :: size_t) + length [7 :: byte] \<le> length (o_buffer ?s)"
    by (simp_all add: out_ok_def)
  from Append_patches_in_place [OF this] obtain s' where
    s': "Append [7] (o_Reposition 1 ?s) = Inr s'" "length (o_buffer s') = 3"
    "\<forall>i < 3. o_buffer s' ! i = (if 1 \<le> i \<and> i < 2 then [7] ! (i - 1) else [1, 2, 3] ! i)"
    by auto
  have "o_buffer s' = [1, 7, 3]"
    by (rule nth_equalityI) (use s'(2,3) in \<open>auto simp: less_Suc_eq numeral_3_eq_3\<close>)
  with s'(1) show ?thesis by blast
qed

text \<open>
  Nothing checks the argument of \<open>Reposition\<close>. With the cursor behind the end of the
  buffer, \<open>m_buffer.size() - m_currIndex\<close> wraps around, so the write sees room that is not
  there and leaves the buffer, and the read operators pass their assertion and read outside.
\<close>

theorem Reposition_past_end_unsafe:
  assumes "length (o_buffer s) < unat pos" and "unat pos + length bs < 2 ^ 32"
    and "length (i_buffer r) < unat pos"
  shows "Append bs (o_Reposition pos s) = Inl Out_of_bounds \<and>
    (unat pos + 4 \<le> 2 ^ 32 \<longrightarrow> get_u32 be (i_Reposition pos r) = Inl Out_of_bounds)"
proof -
  have wrap: "unat (vec_size xs - pos) = 2 ^ 32 + length xs - unat pos"
    if "length xs < unat pos" for xs :: "byte list"
  proof -
    have "unat pos < 2 ^ 32" using unsigned_less [of pos, where 'a = nat] by simp
    then have "unat (vec_size xs) = length xs" using that by (simp add: unat_vec_size)
    then show ?thesis using that by (simp add: unat_sub_if_size word_size)
  qed
  have "\<not> vec_size (o_buffer s) - pos < vec_size bs"
    using wrap [OF assms(1)] assms(2) by (simp add: word_less_nat_alt unat_vec_size)
  then have "Append bs (o_Reposition pos s) = Inl Out_of_bounds"
    using assms(1)
    by (simp add: Append_def EnsureWriteableBytes_def WriteableBytes_def o_Reposition_def
        copy_to_def Let_def)
  moreover have "get_u32 be (i_Reposition pos r) = Inl Out_of_bounds" if "unat pos + 4 \<le> 2 ^ 32"
  proof -
    have "4 \<le> vec_size (i_buffer r) - pos"
      using wrap [OF assms(3)] that by (simp add: word_le_nat_alt)
    then show ?thesis using assms(3)
      by (simp add: get_u32_def i_Reposition_def ReadableBytes_def Peek_def)
  qed
  ultimately show ?thesis by blast
qed

theorem Reposition_past_end_unsafe_witness:
  "Append [1] (o_Reposition 2000 COutStream) = Inl Out_of_bounds \<and>
   get_u32 True (i_Reposition 2000 (CInStream [1, 2, 3, 4])) = Inl Out_of_bounds"
proof -
  have a: "length (o_buffer COutStream) < unat (2000 :: size_t)"
    by (simp add: COutStream_def sInitalSize_def)
  have b: "unat (2000 :: size_t) + length [1 :: byte] < 2 ^ 32" by simp
  have c: "length (i_buffer (CInStream [1, 2, 3, 4])) < unat (2000 :: size_t)"
    by (simp add: CInStream_def SetData_def)
  from Reposition_past_end_unsafe [OF a b c, of True] show ?thesis by simp
qed

text \<open>
  C32: as long as the cursor is inside the block, no read operator leaves it: each returns a
  value of its kind with the cursor moved by the width of the field and still inside, or stops
  at its assertion.
\<close>

theorem reads_stay_inside:
  assumes "in_ok s"
  shows "(\<exists>g r. get_field be (kind_of f) s = Inr (g, r) \<and> kind_of g = kind_of f \<and> in_ok r \<and>
      ahead r = drop (length (wire f)) (ahead s) \<and> length (wire f) \<le> length (ahead s)) \<or>
    get_field be (kind_of f) s = Inl Assert_failed"
  using get_field_cases [OF assms, of f be] in_advance_n [OF assms, of "length (wire f)"] by blast

theorem reads_stay_inside_witness:
  "in_ok (CInStream [1, 2]) \<and>
   ((\<exists>g r. get_field True (kind_of (FU32 0)) (CInStream [1, 2]) = Inr (g, r) \<and>
      kind_of g = kind_of (FU32 0) \<and> in_ok r \<and>
      ahead r = drop (length (wire (FU32 0))) (ahead (CInStream [1, 2])) \<and>
      length (wire (FU32 0)) \<le> length (ahead (CInStream [1, 2]))) \<or>
    get_field True (kind_of (FU32 0)) (CInStream [1, 2]) = Inl Assert_failed)"
proof -
  have h: "in_ok (CInStream [1, 2])" by (simp add: in_ok_def CInStream_def SetData_def)
  from h reads_stay_inside [OF h, of True "FU32 0"] show ?thesis by blast
qed

text \<open>
  \<open>CInStream::Skip\<close> asserts that more bytes are readable than it skips, so the cursor
  cannot be moved past the last field, although reading the same bytes is accepted.
\<close>

theorem Skip_rejects_the_last_field:
  assumes "in_ok s"
  shows "i_Skip (ReadableBytes s) s = Inl Assert_failed \<and>
    (\<exists>r. ReadBytes (ReadableBytes s) s = Inr (ahead s, r) \<and> ahead r = [])"
proof
  show "i_Skip (ReadableBytes s) s = Inl Assert_failed" by (simp add: i_Skip_def)
  let ?r = "s\<lparr>i_index := i_index s + ReadableBytes s\<rparr>"
  have "ReadBytes (ReadableBytes s) s = Inr (ahead s, ?r)"
    using unat_ReadableBytes [OF assms] Peek_readable [OF assms, of "length (ahead s)"]
    by (simp add: ReadBytes_def)
  moreover have "ahead ?r = []"
    using in_advance_n(2) [OF assms, of "length (ahead s)"]
    by (simp flip: unat_ReadableBytes [OF assms])
  ultimately show "\<exists>r. ReadBytes (ReadableBytes s) s = Inr (ahead s, r) \<and> ahead r = []" by blast
qed

theorem Skip_rejects_the_last_field_witness:
  "i_Skip (ReadableBytes (CInStream [5])) (CInStream [5]) = Inl Assert_failed \<and>
   (\<exists>r. ReadBytes (ReadableBytes (CInStream [5])) (CInStream [5]) = Inr ([5], r) \<and> ahead r = [])"
proof -
  have h: "in_ok (CInStream [5])" "ahead (CInStream [5]) = [5]"
    by (simp_all add: in_ok_def CInStream_def SetData_def ahead_def)
  from Skip_rejects_the_last_field [OF h(1)] h(2) show ?thesis by simp
qed

text \<open>
  A string is written as its length modulo 65536 in network order followed by that many of
  its bytes: below 64 KiB that is the whole string, above it the rest is dropped silently.
\<close>

theorem put_string_wire_format:
  assumes "out_ok s" and "length (content s) + 2 + length str mod 65536 < 2 ^ 32"
  shows "\<exists>s'. put_string be str s = Inr s' \<and> out_ok s' \<and>
    content s' = content s @ be16 (of_nat (length str)) @ take (length str mod 65536) str"
proof -
  have len: "unat (of_nat (length str) :: uint16) = length str mod 65536"
    by (simp add: unat_of_nat)
  have "length (content s) + length (be16 (of_nat (length str))) < 2 ^ 32" using assms(2) by simp
  from Append_ok [OF assms(1) this]
  obtain s1 where s1: "put_u16 be (of_nat (length str)) s = Inr s1" "out_ok s1"
      "content s1 = content s @ be16 (of_nat (length str))"
    unfolding put_u16_def Let_def mem16_hton16 .
  have "length (content s1) + length (take (length str mod 65536) str) < 2 ^ 32"
    using assms(2) s1(3) by simp
  from Append_ok [OF s1(2) this]
  obtain s2 where "Append (take (length str mod 65536) str) s1 = Inr s2" "out_ok s2"
      "content s2 = content s1 @ take (length str mod 65536) str" .
  with s1 show ?thesis by (simp add: put_string_def Let_def len)
qed

theorem put_string_wire_format_witness:
  "\<exists>s'. put_string False [104, 105] COutStream = Inr s' \<and> content s' = [0, 2, 104, 105]"
proof -
  have h: "length (content COutStream) + 2 + length [104, 105 :: byte] mod 65536 < 2 ^ 32" by simp
  from put_string_wire_format [OF out_ok_new(1) h, of False] show ?thesis
    by (auto simp: be16_def)
qed

end
