(* ===== verification/StdString.thy ===== *)
theory StdString
  imports Prelude "HOL-Library.Char_ord" "HOL-Library.List_Lexorder"
begin

text \<open>
  The members of \<open>std::string\<close>, \<open>std::vector\<close> and \<open>std::map\<close> that the sources call, with the
  results the C++ standard gives them, and the contract of a finite map that the components
  built on \<open>std::map\<close> rely on (locale \<open>dict\<close>).

  A position is an \<open>nat option\<close> whose \<open>None\<close> is \<open>npos\<close>; the code's \<open>npos + 1\<close>, which wraps to 0,
  is \<open>pos_succ None\<close>.
\<close>

section \<open>std::string\<close>

definition pos_succ :: "nat option \<Rightarrow> nat" where
  "pos_succ p = (case p of None \<Rightarrow> 0 | Some i \<Rightarrow> Suc i)"

text \<open>The first position from \<open>i\<close> on whose character satisfies \<open>P\<close>.\<close>

fun index_from :: "(char \<Rightarrow> bool) \<Rightarrow> nat \<Rightarrow> string \<Rightarrow> nat option" where
  "index_from P i [] = None"
| "index_from P i (c # s) = (if P c then Some i else index_from P (Suc i) s)"

definition find_from :: "(char \<Rightarrow> bool) \<Rightarrow> string \<Rightarrow> nat \<Rightarrow> nat option" where
  "find_from P s i = index_from P i (List.drop i s)"

definition find_char :: "string \<Rightarrow> char \<Rightarrow> nat \<Rightarrow> nat option" where
  "find_char s c i = find_from (\<lambda>x. x = c) s i"

definition find_first_of :: "string \<Rightarrow> string \<Rightarrow> nat option" where
  "find_first_of s cs = find_from (\<lambda>x. x \<in> set cs) s 0"

definition find_first_not_of :: "string \<Rightarrow> string \<Rightarrow> nat option" where
  "find_first_not_of s cs = find_from (\<lambda>x. x \<notin> set cs) s 0"

definition find_last_not_of :: "string \<Rightarrow> string \<Rightarrow> nat option" where
  "find_last_not_of s cs =
     (case find_from (\<lambda>x. x \<notin> set cs) (rev s) 0 of
        None \<Rightarrow> None
      | Some i \<Rightarrow> Some (length s - 1 - i))"

text \<open>\<open>erase(i)\<close> removes everything from \<open>i\<close> on; \<open>erase(0, n)\<close> the first \<open>n\<close> characters, all of
  them for \<open>npos\<close>.\<close>

definition erase_from :: "string \<Rightarrow> nat \<Rightarrow> string" where
  "erase_from s i = take i s"

definition erase_prefix :: "string \<Rightarrow> nat option \<Rightarrow> string" where
  "erase_prefix s n = (case n of None \<Rightarrow> [] | Some i \<Rightarrow> List.drop i s)"

definition substr :: "string \<Rightarrow> nat \<Rightarrow> nat \<Rightarrow> string" where
  "substr s i n = take n (List.drop i s)"

text \<open>\<open>operator[]\<close> of a vector checks its index in the debug build and is undefined elsewhere.\<close>

definition vec_at :: "'a list \<Rightarrow> nat \<Rightarrow> 'a res" where
  "vec_at v i = (if i < length v then Inr (v ! i) else Inl Out_of_bounds)"

lemma index_from_eq_takeWhile:
  "index_from P i s =
     (if \<exists>c \<in> set s. P c then Some (i + length (takeWhile (\<lambda>c. \<not> P c) s)) else None)"
  by (induction s arbitrary: i) auto

lemma index_from_SomeD:
  assumes "index_from P i s = Some j"
  shows "\<exists>k < length s. j = i + k \<and> P (s ! k) \<and> (\<forall>l < k. \<not> P (s ! l))"
proof -
  let ?k = "length (takeWhile (\<lambda>c. \<not> P c) s)"
  from assms have j: "j = i + ?k" and ex: "\<exists>c \<in> set s. P c"
    by (auto simp: index_from_eq_takeWhile split: if_splits)
  from ex have "takeWhile (\<lambda>c. \<not> P c) s \<noteq> s" by (auto simp: takeWhile_eq_all_conv)
  then have k: "?k < length s"
    by (metis le_neq_implies_less length_takeWhile_le takeWhile_eq_take take_all_iff)
  moreover have "P (s ! ?k)" using nth_length_takeWhile [OF k] by simp
  moreover have "\<not> P (s ! l)" if "l < ?k" for l
    using that by (metis nth_mem set_takeWhileD takeWhile_nth)
  ultimately show ?thesis using j by blast
qed

lemma index_from_None: "index_from P i s = None \<longleftrightarrow> (\<forall>c \<in> set s. \<not> P c)"
  by (induction s arbitrary: i) auto

lemma find_from_None: "find_from P s i = None \<longleftrightarrow> (\<forall>c \<in> set (List.drop i s). \<not> P c)"
  by (simp add: find_from_def index_from_None)

lemma find_from_SomeD:
  assumes "find_from P s i = Some j"
  shows "i \<le> j" "j < length s" "P (s ! j)"
    "\<And>l. i \<le> l \<Longrightarrow> l < j \<Longrightarrow> \<not> P (s ! l)"
proof -
  from assms obtain k where k: "k < length s - i" "j = i + k" "P (List.drop i s ! k)"
    "\<forall>l < k. \<not> P (List.drop i s ! l)"
    by (auto simp: find_from_def dest!: index_from_SomeD)
  from k(1,2) show "i \<le> j" "j < length s" by auto
  from k show "P (s ! j)" by simp
  fix l assume "i \<le> l" "l < j"
  with k(1,2) k(4)[rule_format, of "l - i"] show "\<not> P (s ! l)" by simp
qed

lemma erase_prefix_find_first_not_of [cstring_simps]:
  "erase_prefix s (find_first_not_of s cs) = dropWhile (\<lambda>x. x \<in> set cs) s"
  by (auto simp: erase_prefix_def find_first_not_of_def find_from_def index_from_eq_takeWhile
      dropWhile_eq_drop dropWhile_eq_Nil_conv [symmetric])

lemma rev_dropWhile_rev: "rev (dropWhile P (rev s)) = take (length s - length (takeWhile P (rev s))) s"
  by (simp add: dropWhile_eq_drop rev_drop)

lemma erase_from_find_last_not_of [cstring_simps]:
  "erase_from s (pos_succ (find_last_not_of s cs)) = rev (dropWhile (\<lambda>x. x \<in> set cs) (rev s))"
proof (cases "\<exists>c \<in> set s. c \<notin> set cs")
  case True
  let ?t = "takeWhile (\<lambda>x. x \<in> set cs) (rev s)"
  have "length ?t < length s"
  proof -
    have "?t \<noteq> rev s" using True by (auto simp: takeWhile_eq_all_conv)
    then show ?thesis
      by (metis length_rev length_takeWhile_le le_neq_implies_less takeWhile_eq_take take_all_iff)
  qed
  with True show ?thesis
    by (simp add: erase_from_def pos_succ_def find_last_not_of_def find_from_def
        index_from_eq_takeWhile rev_dropWhile_rev Suc_diff_Suc)
next
  case False
  then have "dropWhile (\<lambda>x. x \<in> set cs) (rev s) = []" by (auto simp: dropWhile_eq_Nil_conv)
  with False show ?thesis
    by (auto simp: erase_from_def pos_succ_def find_last_not_of_def find_from_def
        index_from_eq_takeWhile)
qed

section \<open>std::map\<close>

text \<open>
  A \<open>std::map\<close> is the list of its elements in key order, as an iterator visits them.
  \<open>std::string\<close> keys compare as unsigned bytes, lexicographically.
\<close>

type_synonym ('k, 'v) stdmap = "('k \<times> 'v) list"

definition map_find :: "('k, 'v) stdmap \<Rightarrow> 'k \<Rightarrow> 'v option" where
  "map_find m k = map_of m k"

text \<open>\<open>m[k] = v\<close>.\<close>

fun map_put :: "'k::linorder \<Rightarrow> 'v \<Rightarrow> ('k, 'v) stdmap \<Rightarrow> ('k, 'v) stdmap" where
  "map_put k v [] = [(k, v)]"
| "map_put k v ((a, b) # m) =
     (if k < a then (k, v) # (a, b) # m
      else if k = a then (a, v) # m
      else (a, b) # map_put k v m)"

fun map_erase :: "'k \<Rightarrow> ('k, 'v) stdmap \<Rightarrow> ('k, 'v) stdmap" where
  "map_erase k [] = []"
| "map_erase k ((a, b) # m) = (if k = a then m else (a, b) # map_erase k m)"

definition map_ok :: "('k::linorder, 'v) stdmap \<Rightarrow> bool" where
  "map_ok m = sorted_wrt (<) (map fst m)"

lemma map_ok_Nil [simp]: "map_ok []"
  by (simp add: map_ok_def)

lemma map_ok_Cons: "map_ok ((a, b) # m) \<longleftrightarrow> (\<forall>x \<in> set m. a < fst x) \<and> map_ok m"
  by (simp add: map_ok_def)

lemma map_find_Nil [simp]: "map_find [] k = None"
  by (simp add: map_find_def)

lemma map_find_Cons: "map_find ((a, b) # m) k = (if a = k then Some b else map_find m k)"
  by (simp add: map_find_def)

lemma fst_map_put: "fst ` set (map_put k v m) = insert k (fst ` set m)"
  by (induction k v m rule: map_put.induct) auto

lemma map_put_ok: "map_ok m \<Longrightarrow> map_ok (map_put k v m)"
proof (induction k v m rule: map_put.induct)
  case (2 k v a b m)
  have "\<forall>x \<in> set (map_put k v m). fst x = k \<or> fst x \<in> fst ` set m"
    using fst_map_put [of k v m] by (metis imageI insertE)
  with 2 show ?case by (force simp: map_ok_Cons)
qed (simp add: map_ok_def)

lemma set_map_erase: "set (map_erase k m) \<subseteq> set m"
  by (induction k m rule: map_erase.induct) auto

lemma map_erase_ok: "map_ok m \<Longrightarrow> map_ok (map_erase k m)"
proof (induction k m rule: map_erase.induct)
  case (2 k a b m)
  then show ?case using set_map_erase [of k m] by (auto simp: map_ok_Cons)
qed simp

lemma map_find_put: "map_find (map_put k v m) x = (if x = k then Some v else map_find m x)"
  by (induction k v m rule: map_put.induct) (auto simp: map_find_Cons)

lemma map_find_ahead: "\<forall>x \<in> set m. a < fst x \<Longrightarrow> map_find m (a :: 'k :: linorder) = None"
  by (fastforce simp: map_find_def map_of_eq_None_iff)

lemma map_find_erase:
  "map_ok m \<Longrightarrow> map_find (map_erase k m) x = (if x = k then None else map_find m x)"
proof (induction k m rule: map_erase.induct)
  case (2 k a b m)
  then show ?case by (auto simp: map_find_Cons map_ok_Cons map_find_ahead)
qed simp

text \<open>Two maps in key order that answer every lookup alike are the same list.\<close>

lemma map_ok_ext:
  assumes "map_ok m" "map_ok n" "\<And>k. map_find m k = map_find n k"
  shows "m = n"
proof -
  have d: "distinct (map fst m)" "distinct (map fst n)"
    using assms(1,2) by (auto simp: map_ok_def strict_sorted_iff)
  have "map_of m = map_of n" using assms(3) by (auto simp: map_find_def)
  then have "set m = set n" using d by (metis map_of_inject_set)
  moreover have "sorted (map fst m)" "sorted (map fst n)"
    using assms(1,2) by (auto simp: map_ok_def strict_sorted_iff)
  moreover have "inj_on fst (set m \<union> set n)" using d \<open>set m = set n\<close> by (simp add: distinct_map)
  ultimately show ?thesis using d by (blast intro: map_sorted_distinct_set_unique)
qed

section \<open>The contract of a finite map\<close>

locale dict =
  fixes ok :: "'m \<Rightarrow> bool"
    and empty :: "'m"
    and look :: "'m \<Rightarrow> 'k \<Rightarrow> 'v option"
    and put :: "'k \<Rightarrow> 'v \<Rightarrow> 'm \<Rightarrow> 'm"
    and remove :: "'k \<Rightarrow> 'm \<Rightarrow> 'm"
  assumes ok_empty: "ok empty"
    and ok_put: "ok m \<Longrightarrow> ok (put k v m)"
    and ok_remove: "ok m \<Longrightarrow> ok (remove k m)"
    and look_empty: "look empty k = None"
    and look_put: "ok m \<Longrightarrow> look (put k v m) x = (if x = k then Some v else look m x)"
    and look_remove: "ok m \<Longrightarrow> look (remove k m) x = (if x = k then None else look m x)"
    and look_ext: "ok m \<Longrightarrow> ok n \<Longrightarrow> (\<And>k. look m k = look n k) \<Longrightarrow> m = n"
begin

definition puts :: "('k \<times> 'v) list \<Rightarrow> 'm \<Rightarrow> 'm" where
  "puts kvs m = fold (\<lambda>(k, v). put k v) kvs m"

lemma puts_Nil [simp]: "puts [] m = m"
  by (simp add: puts_def)

lemma puts_Cons [simp]: "puts ((k, v) # kvs) m = puts kvs (put k v m)"
  by (simp add: puts_def)

lemma puts_append: "puts (xs @ ys) m = puts ys (puts xs m)"
  by (simp add: puts_def)

lemma ok_puts: "ok m \<Longrightarrow> ok (puts kvs m)"
  by (induction kvs arbitrary: m) (auto simp: ok_put split: prod.split)

text \<open>The last entry of a key wins.\<close>

lemma look_puts:
  "ok m \<Longrightarrow> look (puts kvs m) x = (case map_of (rev kvs) x of Some v \<Rightarrow> Some v | None \<Rightarrow> look m x)"
proof (induction kvs arbitrary: m)
  case (Cons kv kvs)
  then show ?case
    by (cases kv) (auto simp: ok_put look_put map_add_def split: option.split)
qed simp

lemma put_put_same: "ok m \<Longrightarrow> put k w (put k v m) = put k w m"
  by (rule look_ext) (auto simp: ok_put look_put)

lemma put_commute: "ok m \<Longrightarrow> k \<noteq> l \<Longrightarrow> put k v (put l w m) = put l w (put k v m)"
  by (rule look_ext) (auto simp: ok_put look_put)

lemma put_remove_same: "ok m \<Longrightarrow> remove k (put k v m) = remove k m"
  by (rule look_ext) (auto simp: ok_put ok_remove look_put look_remove)

lemma remove_absent: "ok m \<Longrightarrow> look m k = None \<Longrightarrow> remove k m = m"
  by (rule look_ext) (auto simp: ok_remove look_remove)

lemma put_present: "ok m \<Longrightarrow> look m k = Some v \<Longrightarrow> put k v m = m"
  by (rule look_ext) (auto simp: ok_put look_put)

end

interpretation std: dict map_ok "[]" map_find map_put map_erase
  by unfold_locales
    (auto simp: map_put_ok map_erase_ok map_find_put map_find_erase intro: map_ok_ext)

text \<open>Rebuilding a map from its own elements, in any order of insertion, gives it back.\<close>

lemma map_of_rev_distinct: "distinct (map fst m) \<Longrightarrow> map_of (rev m) = map_of m"
  by (metis distinct_rev map_of_inject_set rev_map set_rev)

lemma std_puts_self:
  assumes "map_ok m"
  shows "std.puts m [] = m"
proof (rule std.look_ext)
  show "map_find (std.puts m []) k = map_find m k" for k
    using assms std.look_puts [of "[]" m k]
    by (simp add: map_find_def map_ok_def strict_sorted_iff map_of_rev_distinct split: option.splits)
qed (simp_all add: assms std.ok_puts)

end
