(* ===== verification/StringUtil.thy ===== *)
theory StringUtil
  imports StdString
begin

unbundle bit_operations_syntax

text \<open>
  The static functions of class \<open>StringUtil\<close> (\<open>base/stringutil.cpp\<close>): trimming, splitting,
  formatting, conversion from and to hexadecimal, and the character classes. What the C runtime makes of a
  format and its arguments is a parameter of \<open>format\<close>.

  A function that changes its \<open>std::string&\<close> argument and returns a copy of it is the function
  from the old to the new value.
\<close>

section \<open>Trimming\<close>

definition blanks :: string where
  "blanks = [CHR 0x20, CHR 0x09, CHR 0x0A, CHR 0x0D]"

definition trim :: "string \<Rightarrow> string \<Rightarrow> string" where
  "trim str cs =
     (let str = erase_from str (pos_succ (find_last_not_of str cs))
      in erase_prefix str (find_first_not_of str cs))"

definition ltrim :: "string \<Rightarrow> string \<Rightarrow> string" where
  "ltrim str cs = erase_prefix str (find_first_not_of str cs)"

definition rtrim :: "string \<Rightarrow> string \<Rightarrow> string" where
  "rtrim str cs = erase_from str (pos_succ (find_last_not_of str cs))"

section \<open>Formatting\<close>

text \<open>
  \<open>vsprintf f\<close> is the text for the format and the arguments \<open>f\<close>, \<open>None\<close> if they do not fit together, for which
  \<open>_vscprintf\<close> returns -1. \<open>alloc\<close> tells if \<open>malloc\<close> succeeds. The text is copied up to its terminator.
\<close>

definition vscprintf :: "('f \<Rightarrow> string option) \<Rightarrow> 'f \<Rightarrow> int" where
  "vscprintf vsprintf f = (case vsprintf f of None \<Rightarrow> - 1 | Some s \<Rightarrow> int (length s))"

definition format :: "('f \<Rightarrow> string option) \<Rightarrow> bool \<Rightarrow> string \<Rightarrow> 'f \<Rightarrow> bool \<times> string" where
  "format vsprintf alloc szDes f =
     (let len = vscprintf vsprintf f + 1
      in if len \<le> 1 then (False, szDes)
         else if \<not> alloc then (False, szDes)
         else (True, cstr (the (vsprintf f))))"

lemma format_cases:
  "format vsprintf alloc szDes f = (case vsprintf f of
     Some s \<Rightarrow> if s \<noteq> [] \<and> alloc then (True, cstr s) else (False, szDes) | None \<Rightarrow> (False, szDes))"
  by (simp add: format_def vscprintf_def split: option.split)

section \<open>Splitting\<close>

lemma find_char_SomeD: "find_char s c i = Some p \<Longrightarrow> i \<le> p \<and> p < length s"
  by (auto simp: find_char_def dest: find_from_SomeD(1) find_from_SomeD(2))

text \<open>The loop of \<open>str2vector\<close>: \<open>start\<close>, \<open>pos\<close> and \<open>result\<close> are its variables.\<close>

function str2vector_loop ::
  "string \<Rightarrow> char \<Rightarrow> nat \<Rightarrow> nat option \<Rightarrow> string list \<Rightarrow> nat \<times> string list" where
  "str2vector_loop str delim start pos result =
     (case pos of
        None \<Rightarrow> (start, result)
      | Some p \<Rightarrow>
          (let result = (if p > start then result @ [substr str start (p - start)] else result);
               start = p + 1
           in str2vector_loop str delim start (find_char str delim start) result))"
  by pat_completeness auto
termination
proof (relation "measure (\<lambda>(str, delim, start, pos, result).
    case pos of None \<Rightarrow> 0 | Some p \<Rightarrow> Suc (length str - p))", goal_cases)
  case (2 str delim start pos result p result' start')
  then show ?case
    by (cases "find_char str delim start'") (auto dest!: find_char_SomeD)
qed simp

declare str2vector_loop.simps [simp del]

definition str2vector :: "string \<Rightarrow> char \<Rightarrow> string list" where
  "str2vector str delim =
     (case str2vector_loop str delim 0 (find_char str delim 0) [] of
        (start, result) \<Rightarrow>
          if start < length str then result @ [substr str start (length str - start)] else result)"

text \<open>\<open>strlen\<close> and the constructor of \<open>std::string\<close> from a pointer into a character array.\<close>

definition strlen_at :: "string \<Rightarrow> nat \<Rightarrow> nat res" where
  "strlen_at buf p =
     (if NUL \<in> set (List.drop p buf) then Inr (length (cstr (List.drop p buf)))
      else Inl Out_of_bounds)"

definition string_at :: "string \<Rightarrow> nat \<Rightarrow> string res" where
  "string_at buf p =
     (if NUL \<in> set (List.drop p buf) then Inr (cstr (List.drop p buf)) else Inl Out_of_bounds)"

definition push_if_nonempty :: "string \<Rightarrow> nat \<Rightarrow> string list \<Rightarrow> string list res" where
  "push_if_nonempty buf p l =
     bindr (strlen_at buf p) (\<lambda>n.
       if n > 0 then bindr (string_at buf p) (\<lambda>w. Inr (l @ [w])) else Inr l)"

text \<open>The loop of \<open>str2list\<close> works in place on the copy \<open>pSrc\<close> of the string.\<close>

function str2list_loop ::
  "char \<Rightarrow> string \<Rightarrow> nat \<Rightarrow> nat \<Rightarrow> string list \<Rightarrow> (string \<times> nat \<times> nat \<times> string list) res" where
  "str2list_loop delim pSrc pCur pVal l =
     (if pCur < length pSrc then
        if pSrc ! pCur = NUL then Inr (pSrc, pCur, pVal, l)
        else if pSrc ! pCur = delim then
          (let pSrc = pSrc[pCur := NUL]; pCur = Suc pCur
           in bindr (push_if_nonempty pSrc pVal l) (\<lambda>l. str2list_loop delim pSrc pCur pCur l))
        else str2list_loop delim pSrc (Suc pCur) pVal l
      else Inl Out_of_bounds)"
  by pat_completeness auto
termination
  by (relation "measure (\<lambda>(delim, pSrc, pCur, pVal, l). length pSrc - pCur)") auto

declare str2list_loop.simps [simp del]

definition str2list :: "string \<Rightarrow> char \<Rightarrow> string list res" where
  "str2list str delim =
     bindr (str2list_loop delim (str @ [NUL, NUL]) 0 0 []) (\<lambda>(pSrc, pCur, pVal, l).
       if pVal \<noteq> pCur then push_if_nonempty pSrc pVal l else Inr l)"

definition str2map_entry ::
  "char \<Rightarrow> string \<Rightarrow> (string, string) stdmap \<Rightarrow> (string, string) stdmap res" where
  "str2map_entry split it m =
     (let temp = str2vector (trim it blanks) split
      in bindr (vec_at temp 0) (\<lambda>k.
         bindr (vec_at temp 1) (\<lambda>v.
           Inr (map_put (trim k blanks) (trim v blanks) m))))"

definition str2map :: "string \<Rightarrow> char \<Rightarrow> char \<Rightarrow> (string, string) stdmap res" where
  "str2map str delim split =
     (let szSrc = trim str blanks;
          result = str2vector szSrc delim
      in foldr_res (str2map_entry split) result [])"

section \<open>Character classes\<close>

definition isdigit :: "int \<Rightarrow> int" where
  "isdigit c = (if c \<ge> 48 \<and> c \<le> 57 then 1 else 0)"

definition isalpha :: "int \<Rightarrow> int" where
  "isalpha c = (if c \<ge> 65 \<and> c \<le> 90 \<or> c \<ge> 97 \<and> c \<le> 122 then 1 else 0)"

definition islower :: "int \<Rightarrow> int" where
  "islower c = (if c \<ge> 97 \<and> c \<le> 122 then 1 else 0)"

definition isupper :: "int \<Rightarrow> int" where
  "isupper c = (if c \<ge> 65 \<and> c \<le> 90 then 1 else 0)"

definition isalnum :: "int \<Rightarrow> int" where
  "isalnum c =
     (if c \<ge> 48 \<and> c \<le> 57 \<or> c \<ge> 65 \<and> c \<le> 90 \<or> c \<ge> 97 \<and> c \<le> 122 then 1 else 0)"

definition tolower :: "int \<Rightarrow> int" where
  "tolower c = (if c \<ge> 65 \<and> c \<le> 90 then c + 32 else c)"

definition toupper :: "int \<Rightarrow> int" where
  "toupper c = (if c \<ge> 97 \<and> c \<le> 122 then c - 32 else c)"

definition stolower :: "string \<Rightarrow> string" where
  "stolower str = map (\<lambda>c. char_of_int (tolower (schar c))) str"

definition stoupper :: "string \<Rightarrow> string" where
  "stoupper str = map (\<lambda>c. char_of_int (toupper (schar c))) str"

section \<open>Hexadecimal\<close>

definition c2i :: "char \<Rightarrow> int" where
  "c2i ch =
     (let c = schar ch in
      if isdigit c \<noteq> 0 then c - 48
      else if c < 65 \<or> (c > 70 \<and> c < 97) \<or> c > 102 then -1
      else if isalpha c \<noteq> 0 then (if isupper c \<noteq> 0 then c - 55 else c - 87)
      else -1)"

definition c2x :: "char \<Rightarrow> char" where
  "c2x ch =
     (let c = schar ch in
      if c \<ge> 0 \<and> c \<le> 9 then char_of_int (c + 48)
      else if c \<ge> 10 \<and> c \<le> 15 then char_of_int (c + 55)
      else ch)"

text \<open>
  A left shift of an int has no defined result for a negative operand or a shift by the width of
  the type or more.
\<close>

definition shl_int :: "int \<Rightarrow> nat \<Rightarrow> 32 word res" where
  "shl_int a n =
     (if a < 0 \<or> n \<ge> 32 then Inl Undefined_shift else Inr (push_bit n (word_of_int a)))"

text \<open>\<open>len - i - 1\<close> is the number of characters behind the current one.\<close>

fun hex2dec_loop :: "string \<Rightarrow> 32 word \<Rightarrow> 32 word res" where
  "hex2dec_loop [] num = Inr num"
| "hex2dec_loop (c # p) num =
     (let temp = c2i c; bits = length p * 4
      in bindr (shl_int temp bits) (\<lambda>temp. hex2dec_loop p (num OR temp)))"

definition skip_0x :: "string \<Rightarrow> string" where
  "skip_0x p =
     (case p of
        a # b # q \<Rightarrow> if a = CHR ''0'' \<and> (b = CHR ''x'' \<or> b = CHR ''X'') then q else p
      | _ \<Rightarrow> p)"

definition hex2dec :: "string \<Rightarrow> int res" where
  "hex2dec hex = bindr (hex2dec_loop (skip_0x hex) 0) (\<lambda>num. Inr (sint num))"

text \<open>\<open>(c & 0xf0) >> 4\<close> and \<open>c & 0x0f\<close> on the promoted character.\<close>

definition high_nibble :: "char \<Rightarrow> char" where
  "high_nibble c = char_of_int (drop_bit 4 (schar c AND 0xf0))"

definition low_nibble :: "char \<Rightarrow> char" where
  "low_nibble c = char_of_int (schar c AND 0x0f)"

fun str2hex_loop :: "string \<Rightarrow> string \<Rightarrow> string" where
  "str2hex_loop [] szRet = szRet"
| "str2hex_loop (c # it) szRet =
     (let szRet = szRet @ [c2x (high_nibble c)];
          szRet = szRet @ [c2x (low_nibble c)]
      in str2hex_loop it (if it \<noteq> [] then szRet @ '':'' else szRet))"

definition str2hex :: "string \<Rightarrow> string" where
  "str2hex str = str2hex_loop str []"

definition hex_pair :: "char \<Rightarrow> char \<Rightarrow> char res" where
  "hex_pair hig low =
     (let hig = char_of_int (c2i hig)
      in bindr (shl_int (schar hig) 4) (\<lambda>h.
           Inr (char_of_int (sint (h OR word_of_int (schar (char_of_int (c2i low))))))))"

fun hex2str_loop :: "string \<Rightarrow> string \<Rightarrow> string res" where
  "hex2str_loop [] szRet = Inr szRet"
| "hex2str_loop (c # it) szRet =
     (if c = CHR '':'' then hex2str_loop it szRet
      else case it of
        [] \<Rightarrow> Inl Out_of_bounds
      | d # it' \<Rightarrow> bindr (hex_pair c d) (\<lambda>h. hex2str_loop it' (szRet @ [h])))"

definition hex2str :: "string \<Rightarrow> string res" where
  "hex2str str = hex2str_loop str []"

section \<open>Trimming: lemmas\<close>

lemma ltrim_eq [cstring_simps]: "ltrim s cs = dropWhile (\<lambda>x. x \<in> set cs) s"
  by (simp add: ltrim_def cstring_simps)

lemma rtrim_eq [cstring_simps]: "rtrim s cs = rev (dropWhile (\<lambda>x. x \<in> set cs) (rev s))"
  by (simp add: rtrim_def cstring_simps)

lemma trim_eq: "trim s cs = ltrim (rtrim s cs) cs"
  by (simp add: trim_def ltrim_def rtrim_def Let_def)

text \<open>A string without blanks at its ends.\<close>

definition tight :: "string \<Rightarrow> string \<Rightarrow> bool" where
  "tight cs s = (s = [] \<or> hd s \<notin> set cs \<and> last s \<notin> set cs)"

lemma dropWhile_hd: "s = [] \<or> \<not> P (hd s) \<Longrightarrow> dropWhile P s = s"
  by (cases s) auto

lemma trim_tight [simp]: "tight cs s \<Longrightarrow> trim s cs = s"
  by (auto simp: tight_def trim_eq ltrim_eq rtrim_eq dropWhile_hd hd_rev)

lemma trim_is_tight: "tight cs (trim s cs)"
proof (cases "trim s cs = []")
  case False
  let ?r = "rtrim s cs"
  have t: "trim s cs = dropWhile (\<lambda>x. x \<in> set cs) ?r" by (simp add: trim_eq ltrim_eq)
  have "hd (trim s cs) \<notin> set cs"
    using False hd_dropWhile [of "\<lambda>x. x \<in> set cs" ?r] by (simp add: t)
  moreover have "last (trim s cs) = last ?r"
    using False unfolding t by (metis last_appendR takeWhile_dropWhile_id)
  moreover have "?r \<noteq> []" using False by (auto simp: t)
  then have "last ?r \<notin> set cs"
    using hd_dropWhile [of "\<lambda>x. x \<in> set cs" "rev s"] by (simp add: rtrim_eq last_rev)
  ultimately show ?thesis by (simp add: tight_def)
qed (simp add: tight_def)

lemma trim_decomp: "\<exists>a b. s = a @ trim s cs @ b \<and> set a \<subseteq> set cs \<and> set b \<subseteq> set cs"
proof -
  let ?p = "\<lambda>x. x \<in> set cs"
  have "s = rtrim s cs @ rev (takeWhile ?p (rev s))"
    unfolding rtrim_eq rev_append [symmetric] takeWhile_dropWhile_id by simp
  moreover have "rtrim s cs = takeWhile ?p (rtrim s cs) @ trim s cs"
    by (simp add: trim_eq ltrim_eq)
  ultimately have "s = takeWhile ?p (rtrim s cs) @ trim s cs @ rev (takeWhile ?p (rev s))"
    by (metis append.assoc)
  moreover have "set (takeWhile ?p (rtrim s cs)) \<subseteq> set cs"
    "set (rev (takeWhile ?p (rev s))) \<subseteq> set cs"
    by (auto dest: set_takeWhileD)
  ultimately show ?thesis by blast
qed

lemma set_trim: "set (trim s cs) \<subseteq> set s"
  using trim_decomp [of s cs] by (metis Un_upper1 Un_upper2 set_append subset_trans)

text \<open>Blanks around a tight string are what trim removes.\<close>

lemma trim_pad:
  assumes "tight cs s" "set a \<subseteq> set cs" "set b \<subseteq> set cs" "s \<noteq> []"
  shows "trim (a @ s @ b) cs = s"
proof -
  have "rtrim (a @ s @ b) cs = a @ s"
    using assms by (cases s rule: rev_cases)
      (auto simp: rtrim_eq tight_def dropWhile_append subset_iff)
  then show ?thesis
    using assms by (cases s) (auto simp: trim_eq ltrim_eq tight_def dropWhile_append subset_iff)
qed

lemma trim_blank: "set s \<subseteq> set cs \<Longrightarrow> trim s cs = []"
  by (auto simp: trim_eq ltrim_eq rtrim_eq subset_iff dest!: set_dropWhileD)

section \<open>Splitting: lemmas\<close>

text \<open>The specification: cut at every separator, and keep the non-empty parts.\<close>

fun split_on :: "char \<Rightarrow> string \<Rightarrow> string list" where
  "split_on d [] = [[]]"
| "split_on d (c # s) = (if c = d then [] # split_on d s
     else (case split_on d s of [] \<Rightarrow> [[c]] | w # ws \<Rightarrow> (c # w) # ws))"

definition tokens :: "char \<Rightarrow> string \<Rightarrow> string list" where
  "tokens d s = filter (\<lambda>w. w \<noteq> []) (split_on d s)"

lemma split_on_none: "d \<notin> set w \<Longrightarrow> split_on d w = [w]"
  by (induction w) auto

lemma split_on_sep: "d \<notin> set w \<Longrightarrow> split_on d (w @ d # s) = w # split_on d s"
  by (induction w) auto

lemma tokens_none: "d \<notin> set w \<Longrightarrow> tokens d w = (if w = [] then [] else [w])"
  by (simp add: tokens_def split_on_none)

lemma tokens_sep: "d \<notin> set w \<Longrightarrow> tokens d (w @ d # s) = (if w = [] then [] else [w]) @ tokens d s"
  by (simp add: tokens_def split_on_sep)

lemma find_char_split:
  assumes "find_char s d i = Some p"
  obtains w where "List.drop i s = w @ d # List.drop (Suc p) s" "d \<notin> set w" "i \<le> p"
    "w = substr s i (p - i)"
proof
  note f = assms [unfolded find_char_def]
  have ip: "i \<le> p" "p < length s" "s ! p = d" using find_from_SomeD [OF f] by auto
  let ?w = "substr s i (p - i)"
  show "i \<le> p" "substr s i (p - i) = ?w" using ip by auto
  have "List.drop i s = take (p - i) (List.drop i s) @ List.drop (p - i) (List.drop i s)"
    by (rule append_take_drop_id [symmetric])
  also have "List.drop (p - i) (List.drop i s) = d # List.drop (Suc p) s"
    using ip Cons_nth_drop_Suc [of p s] by simp
  finally show "List.drop i s = ?w @ d # List.drop (Suc p) s" by (simp add: substr_def)
  show "d \<notin> set ?w"
  proof
    assume "d \<in> set ?w"
    then obtain k where "k < p - i" "List.drop i s ! k = d" "k < length s - i"
      by (auto simp: substr_def in_set_conv_nth)
    with find_from_SomeD(4) [OF f, of "i + k"] show False by simp
  qed
qed

lemma str2vector_loop_tokens:
  assumes "start \<le> length str"
  shows "(case str2vector_loop str d start (find_char str d start) result of
            (start, result) \<Rightarrow>
              if start < length str then result @ [substr str start (length str - start)] else result)
         = result @ tokens d (List.drop start str)"
  using assms
proof (induction "length str - start" arbitrary: start result rule: less_induct)
  case less
  show ?case
  proof (cases "find_char str d start")
    case None
    then have "d \<notin> set (List.drop start str)" by (auto simp: find_char_def find_from_None)
    with None less.prems show ?thesis
      by (auto simp: str2vector_loop.simps [of _ _ _ None] tokens_none substr_def)
  next
    case (Some p)
    obtain w where w: "List.drop start str = w @ d # List.drop (Suc p) str" "d \<notin> set w" "start \<le> p"
      "w = substr str start (p - start)"
      using Some by (rule find_char_split)
    have p: "p < length str" using find_char_SomeD [OF Some] by simp
    have lw: "length w = p - start" using p by (simp add: w(4) substr_def)
    have step: "str2vector_loop str d start (Some p) result =
        str2vector_loop str d (Suc p) (find_char str d (Suc p))
          (if p > start then result @ [w] else result)"
      by (simp add: str2vector_loop.simps [of _ _ _ "Some p"] w(4))
    show ?thesis
      unfolding Some step
      by (subst less.hyps) (use p w lw in \<open>auto simp: tokens_sep\<close>)
  qed
qed

lemma str2vector_tokens: "str2vector s d = tokens d s"
  using str2vector_loop_tokens [of 0 s d "[]"] by (simp add: str2vector_def)

lemma push_if_nonempty_eq:
  assumes "NUL \<notin> set w"
  shows "push_if_nonempty (pre @ w @ NUL # r) (length pre) l =
           Inr (if w = [] then l else l @ [w])"
proof -
  have "cstr (w @ NUL # r) = w" using assms by (auto simp: cstr_def takeWhile_append)
  then show ?thesis by (simp add: push_if_nonempty_def strlen_at_def string_at_def)
qed

lemma str2list_loop_tokens:
  assumes "d \<noteq> NUL" "NUL \<notin> set w" "d \<notin> set w" "NUL \<in> set rest"
  shows "bindr (str2list_loop d (pre @ w @ rest) (length pre + length w) (length pre) l)
           (\<lambda>(pSrc, pCur, pVal, l).
             if pVal \<noteq> pCur then push_if_nonempty pSrc pVal l else Inr l)
         = Inr (l @ tokens d (w @ cstr rest))"
  using assms
proof (induction rest arbitrary: pre w l)
  case (Cons c rest)
  let ?buf = "pre @ w @ c # rest"
  have at: "(pre @ w @ x # rest) ! (length pre + length w) = x" for x by (simp add: nth_append)
  consider "c = NUL" | "c = d" "c \<noteq> NUL" | "c \<noteq> d" "c \<noteq> NUL" using Cons.prems(1) by blast
  then show ?case
  proof cases
    case 1
    with Cons.prems show ?thesis
      by (subst str2list_loop.simps)
        (auto simp: at push_if_nonempty_eq tokens_none cstr_def)
  next
    case 2
    have upd: "(pre @ w @ x # rest)[length pre + length w := NUL] = pre @ w @ NUL # rest" for x
      by (simp add: list_update_append)
    have "str2list_loop d ?buf (length pre + length w) (length pre) l =
        str2list_loop d ((pre @ w @ [NUL]) @ [] @ rest) (length (pre @ w @ [NUL]) + length [])
          (length (pre @ w @ [NUL])) (if w = [] then l else l @ [w])"
      using 2 Cons.prems(2)
      by (subst str2list_loop.simps) (simp add: at upd push_if_nonempty_eq Let_def)
    then show ?thesis
      using Cons.IH [of "[]" "pre @ w @ [NUL]"] 2 Cons.prems
      by (simp add: tokens_sep cstr_def)
  next
    case 3
    have "str2list_loop d ?buf (length pre + length w) (length pre) l =
        str2list_loop d (pre @ (w @ [c]) @ rest) (length pre + length (w @ [c])) (length pre) l"
      using 3 by (subst str2list_loop.simps) (simp add: at)
    then show ?thesis
      using Cons.IH [of "w @ [c]" pre l] 3 Cons.prems by (simp add: cstr_def)
  qed
qed simp

text \<open>C28: the C-string splitter and the std::string splitter agree: for every separator other
  than NUL, str2list returns the pieces str2vector finds in the part of the string before its
  first NUL, in order, and without reading outside its buffer; both are the non-empty pieces
  between separators.\<close>

theorem str2list_equals_str2vector:
  assumes "delim \<noteq> NUL"
  shows "str2list str delim = Inr (str2vector (cstr str) delim)
    \<and> str2vector str delim = tokens delim str"
  using assms str2list_loop_tokens [of delim "[]" "str @ [NUL, NUL]" "[]" "[]"]
  by (simp add: str2list_def str2vector_tokens)

theorem str2list_equals_str2vector_witness:
  "str2list ''a,,bc,'' (CHR '','') = Inr [''a'', ''bc'']"
proof -
  have "cstr ''a,,bc,'' = ''a,,bc,''" by (simp add: cstr_def)
  then show ?thesis
    using str2list_equals_str2vector [of "CHR '',''" "''a,,bc,''"]
      str2list_equals_str2vector [of "CHR '',''" "''a,,bc,''"]
    by (simp add: tokens_def)
qed

section \<open>Parsing key/value lists: lemmas and properties\<close>

lemma str2map_entry_eq:
  "str2map_entry sp e m =
     (let t = tokens sp (trim e blanks)
      in if 2 \<le> length t then Inr (map_put (trim (t ! 0) blanks) (trim (t ! 1) blanks) m)
         else Inl Out_of_bounds)"
  by (simp add: str2map_entry_def str2vector_tokens vec_at_def Let_def)

lemma foldr_str2map_entry:
  "foldr_res (str2map_entry sp) es m =
     (if list_all (\<lambda>e. 2 \<le> length (tokens sp (trim e blanks))) es
      then Inr (std.puts (map (\<lambda>e. let t = tokens sp (trim e blanks)
                                in (trim (t ! 0) blanks, trim (t ! 1) blanks)) es) m)
      else Inl Out_of_bounds)"
  by (induction es arbitrary: m) (auto simp: str2map_entry_eq Let_def)

text \<open>C27: what str2map returns on every input: if each piece between separators has at least
  two non-empty parts around the split character, the map of their first two parts, trimmed, a
  later piece overriding an earlier one; otherwise an access behind the end of a vector.\<close>

theorem str2map_result:
  "str2map str delim sp =
     (let es = tokens delim (trim str blanks);
          part = (\<lambda>e i. trim (tokens sp (trim e blanks) ! i) blanks)
      in if list_all (\<lambda>e. 2 \<le> length (tokens sp (trim e blanks))) es
         then Inr (fold (\<lambda>e. map_put (part e 0) (part e 1)) es [])
         else Inl Out_of_bounds)"
  by (simp add: str2map_def str2vector_tokens foldr_str2map_entry std.puts_def fold_map comp_def
      Let_def)

text \<open>The text of a map: its entries in key order.\<close>

fun map_text :: "char \<Rightarrow> char \<Rightarrow> (string, string) stdmap \<Rightarrow> string" where
  "map_text d sp [] = []"
| "map_text d sp ((k, v) # m) = k @ sp # v @ (if m = [] then [] else d # map_text d sp m)"

definition entry_ok :: "char \<Rightarrow> char \<Rightarrow> string \<times> string \<Rightarrow> bool" where
  "entry_ok d sp e =
     (case e of (k, v) \<Rightarrow>
        k \<noteq> [] \<and> v \<noteq> [] \<and> tight blanks k \<and> tight blanks v \<and>
        d \<notin> set k \<and> d \<notin> set v \<and> sp \<notin> set k \<and> sp \<notin> set v)"

lemma tokens_map_text:
  assumes "d \<noteq> sp" "\<forall>e \<in> set m. entry_ok d sp e"
  shows "tokens d (map_text d sp m) = map (\<lambda>(k, v). k @ sp # v) m"
  using assms
proof (induction m)
  case (Cons e m)
  obtain k v where e: "e = (k, v)" by (cases e)
  have "d \<notin> set (k @ sp # v)" using Cons.prems e by (auto simp: entry_ok_def)
  then have "tokens d ((k @ sp # v) @ (if m = [] then [] else d # map_text d sp m)) =
      (k @ sp # v) # (if m = [] then [] else tokens d (map_text d sp m))"
    using tokens_none [of d "k @ sp # v"] tokens_sep [of d "k @ sp # v"] by simp
  with Cons e show ?case by auto
qed (simp add: tokens_def)

lemma tight_map_text:
  assumes "\<forall>e \<in> set m. entry_ok d sp e"
  shows "tight blanks (map_text d sp m)"
proof -
  have "m \<noteq> [] \<Longrightarrow> hd (map_text d sp m) \<notin> set blanks \<and> map_text d sp m \<noteq> []
      \<and> last (map_text d sp m) \<notin> set blanks"
    using assms
  proof (induction m)
    case (Cons e m)
    obtain k v where e: "e = (k, v)" by (cases e)
    with Cons.prems have kv: "k \<noteq> []" "v \<noteq> []" "hd k \<notin> set blanks" "last v \<notin> set blanks"
      by (auto simp: entry_ok_def tight_def)
    then show ?case using Cons e by (cases "m = []") auto
  qed simp
  then show ?thesis by (cases m) (auto simp: tight_def)
qed

lemma entry_parts:
  assumes "entry_ok d sp (k, v)"
  shows "tokens sp (trim (k @ sp # v) blanks) = [k, v]" "trim k blanks = k" "trim v blanks = v"
proof -
  have kv: "k \<noteq> []" "v \<noteq> []" "tight blanks k" "tight blanks v" "sp \<notin> set k" "sp \<notin> set v"
    using assms by (auto simp: entry_ok_def)
  then have "tight blanks (k @ sp # v)" by (auto simp: tight_def)
  then show "tokens sp (trim (k @ sp # v) blanks) = [k, v]"
    using kv tokens_none [of sp v] by (simp add: tokens_sep)
  from kv show "trim k blanks = k" "trim v blanks = v" by simp_all
qed

text \<open>C33: a map written as text with any two distinct separators is read back by str2map, when
  every key and value is non-empty, has no blank at its ends and contains no separator.\<close>

theorem str2map_roundtrip:
  assumes "map_ok m" "delim \<noteq> sp" "\<forall>e \<in> set m. entry_ok delim sp e"
  shows "str2map (map_text delim sp m) delim sp = Inr m"
proof -
  have parts: "tokens sp (trim (case e of (k, v) \<Rightarrow> k @ sp # v) blanks) = [fst e, snd e]"
    "trim (fst e) blanks = fst e" "trim (snd e) blanks = snd e" if "e \<in> set m" for e
    using assms(3) that entry_parts [of delim sp "fst e" "snd e"] by (auto split: prod.split)
  have "tokens delim (trim (map_text delim sp m) blanks) = map (\<lambda>(k, v). k @ sp # v) m"
    using assms tight_map_text [OF assms(3)] by (simp add: tokens_map_text)
  moreover have "list_all (\<lambda>e. 2 \<le> length (tokens sp (trim (case e of (k, v) \<Rightarrow> k @ sp # v) blanks))) m"
    using parts(1) by (simp add: list_all_iff)
  moreover have "map (\<lambda>e. let t = tokens sp (trim (case e of (k, v) \<Rightarrow> k @ sp # v) blanks)
      in (trim (t ! 0) blanks, trim (t ! 1) blanks)) m = m"
    using parts by (intro map_idI) simp
  ultimately show ?thesis
    using std_puts_self [OF assms(1)]
    by (simp add: str2map_def str2vector_tokens foldr_str2map_entry list_all_length comp_def)
qed

theorem str2map_roundtrip_witness:
  "str2map (map_text (CHR '';'') (CHR ''='') [(''a'', ''1''), (''b'', ''x y'')]) (CHR '';'') (CHR ''='')
     = Inr [(''a'', ''1''), (''b'', ''x y'')]"
  by (rule str2map_roundtrip) (simp_all add: map_ok_def entry_ok_def tight_def blanks_def)

section \<open>Hexadecimal: lemmas and properties\<close>

definition is_hex :: "char \<Rightarrow> bool" where
  "is_hex c =
     (let i = schar c in 48 \<le> i \<and> i \<le> 57 \<or> 65 \<le> i \<and> i \<le> 70 \<or> 97 \<le> i \<and> i \<le> 102)"

lemma c2i_hex: "(if is_hex c then 0 \<le> c2i c \<and> c2i c < 16 else c2i c = -1)"
  by (auto simp: is_hex_def c2i_def Let_def isdigit_def isalpha_def isupper_def)

lemma or_digit:
  fixes m :: "32 word"
  assumes "0 \<le> t" "t < 16"
  shows "push_bit 4 m OR word_of_int t = 16 * m + word_of_int t"
proof -
  have "push_bit 4 m AND word_of_int t = 0"
  proof (rule bit_word_eqI)
    fix n
    have "bit t n \<Longrightarrow> n < 4"
    proof (rule ccontr)
      assume b: "bit t n" "\<not> n < 4"
      then have "2 ^ 4 \<le> (2 ^ n :: int)" by (intro power_increasing) auto
      with assms have "t div 2 ^ n = 0" by (intro div_pos_pos_trivial) auto
      with b(1) show False by (simp add: bit_iff_odd)
    qed
    then show "bit (push_bit 4 m AND word_of_int t) n = bit (0 :: 32 word) n"
      by (auto simp: bit_simps)
  qed
  then have "push_bit 4 m OR word_of_int t = push_bit 4 m + word_of_int t"
    by (simp add: disjunctive_add_eq_or)
  then show ?thesis by (simp add: push_bit_eq_mult)
qed

lemma schar_char_of_int:
  assumes "-128 \<le> i" "i < 128"
  shows "schar (char_of_int i) = i"
proof -
  have "(of_char (char_of_int i) :: int) = (if i < 0 then i + 256 else i)"
  proof (cases "i < 0")
    case True
    have "i mod 256 = (i + 256) mod 256" by simp
    also have "\<dots> = i + 256" using True assms by (intro mod_pos_pos_trivial) auto
    finally show ?thesis using True by (simp add: char_of_int_def)
  qed (use assms in \<open>simp add: char_of_int_def\<close>)
  then show ?thesis using assms by (auto simp: schar_def Let_def)
qed

lemma mod_256_split: "(i :: int) mod 256 = 16 * (i div 16 mod 16) + i mod 16"
  using zmod_zmult2_eq [of 16 i 16] by simp

lemma high_nibble_eq: "high_nibble c = char_of_int ((of_char c) div 16)"
proof -
  have "drop_bit 4 (schar c AND 240) = drop_bit 4 (schar c) AND mask 4"
    by (simp add: mask_eq_exp_minus_1)
  also have "\<dots> = (schar c div 16) mod 16"
    by (simp add: take_bit_eq_mask [symmetric] take_bit_eq_mod drop_bit_eq_div)
  also have "\<dots> = (schar c mod 256) div 16" unfolding mod_256_split by simp
  finally show ?thesis by (simp add: high_nibble_def schar_mod)
qed

lemma low_nibble_eq: "low_nibble c = char_of_int (of_char c mod 16)"
proof -
  have "schar c AND 15 = schar c AND mask 4" by (simp add: mask_eq_exp_minus_1)
  also have "\<dots> = schar c mod 16" by (simp add: take_bit_eq_mask [symmetric] take_bit_eq_mod)
  also have "\<dots> = (schar c mod 256) mod 16" by (simp add: mod_mod_cancel)
  finally show ?thesis by (simp add: low_nibble_def schar_mod)
qed

lemma c2i_c2x: "0 \<le> h \<Longrightarrow> h < 16 \<Longrightarrow> c2i (c2x (char_of_int h)) = h \<and> c2x (char_of_int h) \<noteq> CHR '':''"
proof -
  assume h: "0 \<le> h" "h < 16"
  have "c2x (char_of_int h) = char_of_int (if h \<le> 9 then h + 48 else h + 55)"
    using h by (simp add: c2x_def schar_char_of_int)
  moreover have "schar (char_of_int (if h \<le> 9 then h + 48 else h + 55)) = (if h \<le> 9 then h + 48 else h + 55)"
    using h by (intro schar_char_of_int) auto
  moreover have "schar (CHR '':'') = 58" by (simp add: schar_def)
  ultimately show ?thesis
    using h by (auto simp: c2i_def Let_def isdigit_def isalpha_def isupper_def split: if_splits)
qed

lemma hex_pair_nibbles: "hex_pair (c2x (high_nibble c)) (c2x (low_nibble c)) = Inr c"
proof -
  define n :: int where "n = of_char c"
  have n: "0 \<le> n" "n < 256" using of_char_int_bounds [of c] by (auto simp: n_def)
  have h: "0 \<le> n div 16" "n div 16 < 16" and l: "0 \<le> n mod 16" "n mod 16 < 16" using n by auto
  have hi: "c2i (c2x (high_nibble c)) = n div 16" and lo: "c2i (c2x (low_nibble c)) = n mod 16"
    using c2i_c2x h l by (simp_all add: high_nibble_eq low_nibble_eq n_def)
  have "16 * word_of_int (n div 16) + word_of_int (n mod 16)
      = (word_of_int (16 * (n div 16) + n mod 16) :: 32 word)"
    by (simp only: of_int_add of_int_mult of_int_numeral)
  then have w: "push_bit 4 (word_of_int (n div 16)) OR word_of_int (n mod 16) = (word_of_int n :: 32 word)"
    unfolding or_digit [OF l] by (simp only: mult_div_mod_eq)
  have s: "schar (char_of_int (n div 16)) = n div 16" "schar (char_of_int (n mod 16)) = n mod 16"
    using h l by (auto intro!: schar_char_of_int)
  have sh: "shl_int (n div 16) 4 = Inr (push_bit 4 (word_of_int (n div 16)))"
    unfolding shl_int_def using h by simp
  have e: "char_of_int (sint (word_of_int n :: 32 word)) = c"
    using n by (simp add: int_word_sint n_def char_of_int_def)
  show ?thesis
    by (simp only: hex_pair_def hi lo Let_def s sh bindr_Inr w e)
qed

lemma c2x_no_colon: "c2x (high_nibble c) \<noteq> CHR '':''"
  using c2i_c2x of_char_int_bounds [of c] by (simp add: high_nibble_eq)

lemma str2hex_loop_acc: "str2hex_loop s r = r @ str2hex_loop s []"
proof (induction s arbitrary: r)
  case (Cons c s)
  show ?case
    by (simp add: Let_def) (metis (no_types, lifting) Cons.IH append.assoc append_Cons append_Nil)
qed simp

lemma str2hex_loop_Cons:
  "str2hex_loop (c # s) [] =
     c2x (high_nibble c) # c2x (low_nibble c) # (if s = [] then [] else CHR '':'' # str2hex_loop s [])"
proof (cases "s = []")
  case False
  then show ?thesis
    using str2hex_loop_acc [of s "[c2x (high_nibble c), c2x (low_nibble c), CHR '':'']"] by simp
qed simp

lemma hex2str_str2hex_loop: "hex2str_loop (str2hex_loop s []) r = Inr (r @ s)"
proof (induction s arbitrary: r)
  case (Cons c s)
  have step: "hex2str_loop (c2x (high_nibble c) # c2x (low_nibble c) # x) r =
      hex2str_loop x (r @ [c])" for x
    by (subst hex2str_loop.simps) (simp add: c2x_no_colon hex_pair_nibbles)
  have colon: "hex2str_loop (CHR '':'' # x) r = hex2str_loop x r" for x r
    by (subst hex2str_loop.simps) simp
  show ?case
    using Cons.IH [of "r @ [c]"] by (cases "s = []") (simp_all add: str2hex_loop_Cons step colon
        del: str2hex_loop.simps(2) hex2str_loop.simps(2))
qed simp

text \<open>Hexadecimal text written by str2hex is read back by hex2str, for every string of
  arbitrary bytes.\<close>

theorem hex_roundtrip: "hex2str (str2hex str) = Inr str"
  by (simp add: hex2str_def str2hex_def hex2str_str2hex_loop)

lemma hex2str_bad_digit: 
  assumes "\<not> is_hex c" "c \<noteq> CHR '':''"
  shows "hex2str (c # d # s) = Inl Undefined_shift" "hex2str [c] = Inl Out_of_bounds"
proof -
  have "c2i c = -1" using assms c2i_hex [of c] by simp
  moreover have "schar (char_of_int (-1)) = -1" by (simp add: char_of_int_def schar_def)
  ultimately show "hex2str (c # d # s) = Inl Undefined_shift"
    using assms by (simp add: hex2str_def hex_pair_def shl_int_def)
qed (use assms in \<open>simp add: hex2str_def\<close>)

text \<open>The number a string of hexadecimal digits stands for.\<close>

definition hexval :: "string \<Rightarrow> int" where
  "hexval ds = foldl (\<lambda>a c. 16 * a + c2i c) 0 ds"

lemma push_bit_digit:
  assumes "0 \<le> t" "t < 16"
  shows "push_bit (n + 4) (word_of_int a) OR push_bit n (word_of_int t) =
    (push_bit n (word_of_int (16 * a + t)) :: 32 word)"
proof -
  have "push_bit (n + 4) (word_of_int a) = (push_bit n (push_bit 4 (word_of_int a)) :: 32 word)"
    by (simp only: push_bit_push_bit)
  moreover have "push_bit 4 (word_of_int a) OR word_of_int t = (word_of_int (16 * a + t) :: 32 word)"
    using or_digit [OF assms, of "word_of_int a"] by simp
  ultimately show ?thesis by (simp only: push_bit_or [symmetric])
qed

lemma hex2dec_loop_eq:
  "hex2dec_loop p (push_bit (4 * length p) (word_of_int a)) =
     (if length p \<le> 8 \<and> list_all is_hex p
      then Inr (word_of_int (foldl (\<lambda>a c. 16 * a + c2i c) a p))
      else Inl Undefined_shift)"
proof (induction p arbitrary: a)
  case (Cons c p)
  show ?case
  proof (cases "is_hex c \<and> length p < 8")
    case True
    then have c: "0 \<le> c2i c" "c2i c < 16" using c2i_hex [of c] by auto
    have "4 * length (c # p) = length p * 4 + 4" by simp
    moreover have "shl_int (c2i c) (length p * 4) = Inr (push_bit (length p * 4) (word_of_int (c2i c)))"
      using True c by (simp add: shl_int_def)
    ultimately have "hex2dec_loop (c # p) (push_bit (4 * length (c # p)) (word_of_int a)) =
        hex2dec_loop p (push_bit (length p * 4) (word_of_int (16 * a + c2i c)))"
      by (simp only: hex2dec_loop.simps Let_def bindr_Inr push_bit_digit [OF c])
    then show ?thesis
      using True Cons [of "16 * a + c2i c"] by (simp only: mult.commute [of "length p"]) auto
  next
    case False
    then have "c2i c < 0 \<or> 32 \<le> length p * 4" using c2i_hex [of c] by auto
    then show ?thesis using False by (auto simp: shl_int_def)
  qed
qed simp

text \<open>hex2dec returns the number its digits stand for, as a signed 32-bit value, for up to
  eight hexadecimal digits behind an optional prefix; on every other input it shifts a negative
  value or by the width of int, which has no defined result.\<close>

theorem hex2dec_value:
  "hex2dec hex =
     (let ds = skip_0x hex
      in if length ds \<le> 8 \<and> list_all is_hex ds then Inr (signed_take_bit 31 (hexval ds))
         else Inl Undefined_shift)"
proof -
  have "hex2dec_loop (skip_0x hex) 0 =
      (if length (skip_0x hex) \<le> 8 \<and> list_all is_hex (skip_0x hex)
       then Inr (word_of_int (hexval (skip_0x hex))) else Inl Undefined_shift)"
    using hex2dec_loop_eq [of "skip_0x hex" 0] by (simp add: hexval_def)
  then show ?thesis by (simp add: hex2dec_def Let_def sint_sbintrunc')
qed

text \<open>Changing the case leaves every character but the letters alone, and is undone by the other
  change on letters of the first case.\<close>

lemma tolower_toupper: "isupper c \<noteq> 0 \<Longrightarrow> toupper (tolower c) = c"
  by (auto simp: isupper_def toupper_def tolower_def split: if_splits)

lemma schar_change_case:
  "schar (char_of_int (tolower (schar c))) = tolower (schar c)"
  "schar (char_of_int (toupper (schar c))) = toupper (schar c)"
  using schar_range [of c] by (auto simp: tolower_def toupper_def intro!: schar_char_of_int)

lemma stolower_idem: "stolower (stolower s) = stolower s"
  by (simp add: stolower_def schar_change_case) (simp add: tolower_def)

lemma stoupper_stolower: "stoupper (stolower s) = stoupper s"
  by (simp add: stoupper_def stolower_def schar_change_case) (simp add: tolower_def toupper_def)

lemma isalnum_eq: "isalnum c = (if isdigit c \<noteq> 0 \<or> islower c \<noteq> 0 \<or> isupper c \<noteq> 0 then 1 else 0)"
  by (auto simp: isalnum_def isdigit_def islower_def isupper_def)

end
