(* ===== verification/IniFile.thy ===== *)
theory IniFile
  imports StringUtil
begin

text \<open>
  Classes \<open>Config\<close> (one section) and \<open>CIniFile\<close> of \<open>base/inifile.cpp\<close>: the in-memory maps, the text
  they are saved as and the loader that reads it back.

  \<open>CIniFile\<close> holds its sections through shared pointers that it never hands out, so the map of
  pointers is modelled as the map of the objects. The files are those of the C runtime in text
  mode: a newline is written as CR LF, CR LF is read as a newline, and Ctrl-Z ends the file.
\<close>

section \<open>Class Config\<close>

record config =
  m_strMainKey :: string
  m_mconf :: "(string, string) stdmap"

definition Config :: "string \<Rightarrow> config" where
  "Config mainKey = \<lparr>m_strMainKey = mainKey, m_mconf = []\<rparr>"

definition conf_get :: "config \<Rightarrow> string \<Rightarrow> string" where
  "conf_get c key = (case map_find (m_mconf c) key of Some v \<Rightarrow> v | None \<Rightarrow> [])"

definition conf_set :: "string \<Rightarrow> string \<Rightarrow> config \<Rightarrow> config" where
  "conf_set key value c = (if key \<noteq> [] then c\<lparr>m_mconf := map_put key value (m_mconf c)\<rparr> else c)"

definition conf_del :: "string \<Rightarrow> config \<Rightarrow> config" where
  "conf_del key c =
     (case map_find (m_mconf c) key of
        Some v \<Rightarrow> c\<lparr>m_mconf := map_erase key (m_mconf c)\<rparr>
      | None \<Rightarrow> c)"

text \<open>What \<open>write\<close> appends to an open file; \<open>%s\<close> prints up to the first NUL.\<close>

definition conf_write :: "config \<Rightarrow> string" where
  "conf_write c =
     ''['' @ cstr (m_strMainKey c) @ '']'' @ [CHR 0x0A] @
     concat (map (\<lambda>(k, v). cstr k @ ''='' @ cstr v @ [CHR 0x0A]) (m_mconf c)) @
     [CHR 0x0A]"

section \<open>Text files\<close>

text \<open>The files of a machine: their bytes, and which names can be opened for writing.\<close>

record files =
  contents :: "string \<Rightarrow> string option"
  writable :: "string \<Rightarrow> bool"

definition text_out :: "string \<Rightarrow> string" where
  "text_out s = concat (map (\<lambda>c. if c = CHR 0x0A then [CHR 0x0D, CHR 0x0A] else [c]) s)"

fun text_in :: "string \<Rightarrow> string" where
  "text_in [] = []"
| "text_in (c # s) =
     (if c = CHR 0x1A then []
      else case s of
        [] \<Rightarrow> [c]
      | d # t \<Rightarrow> if c = CHR 0x0D \<and> d = CHR 0x0A then CHR 0x0A # text_in t else c # text_in s)"

text \<open>\<open>fgets(buf, n, f)\<close>: a line with its newline, or its first \<open>n - 1\<close> characters.\<close>

definition fgets :: "nat \<Rightarrow> string \<Rightarrow> string \<times> string" where
  "fgets n s =
     (let line = takeWhile (\<lambda>c. c \<noteq> CHR 0x0A) s;
          line = (if length line < length s then line @ [CHR 0x0A] else line);
          buf = take (n - 1) line
      in (buf, List.drop (length buf) s))"

section \<open>Class CIniFile\<close>

definition BUFF_LEN :: nat where
  "BUFF_LEN = 1024"

type_synonym sections = "(string, config) stdmap"

record ini_file =
  m_bIsChange :: bool
  m_strFileName :: string
  m_mSection :: sections

definition CIniFile :: "string \<Rightarrow> ini_file" where
  "CIniFile fileName = \<lparr>m_bIsChange = False, m_strFileName = fileName, m_mSection = []\<rparr>"

text \<open>The find-or-create of a section followed by an update of it, in \<open>set\<close> and \<open>load\<close>.\<close>

definition section_set :: "string \<Rightarrow> string \<Rightarrow> string \<Rightarrow> sections \<Rightarrow> sections" where
  "section_set sec key value m =
     (let m = (case map_find m sec of None \<Rightarrow> map_put sec (Config sec) m | Some conf \<Rightarrow> m)
      in case map_find m sec of
           None \<Rightarrow> m
         | Some conf \<Rightarrow> map_put sec (conf_set key value conf) m)"

definition ini_set :: "string \<Rightarrow> string \<Rightarrow> string \<Rightarrow> ini_file \<Rightarrow> ini_file" where
  "ini_set sec key value f =
     (if sec \<noteq> [] \<and> key \<noteq> [] then
        f\<lparr>m_mSection := section_set sec key value (m_mSection f), m_bIsChange := True\<rparr>
      else f)"

definition ini_get :: "ini_file \<Rightarrow> string \<Rightarrow> string \<Rightarrow> string \<Rightarrow> string" where
  "ini_get f sec key defvalue =
     (case map_find (m_mSection f) sec of
        Some conf \<Rightarrow> conf_get conf key
      | None \<Rightarrow> defvalue)"

definition ini_del :: "string \<Rightarrow> string \<Rightarrow> ini_file \<Rightarrow> ini_file" where
  "ini_del sec key f =
     (case map_find (m_mSection f) sec of
        Some conf \<Rightarrow>
          f\<lparr>m_mSection := map_put sec (conf_del key conf) (m_mSection f), m_bIsChange := True\<rparr>
      | None \<Rightarrow> f)"

text \<open>The text \<open>dump\<close> prints; unlike \<open>write\<close> it prints the map's keys and no empty line.\<close>

definition ini_dump :: "ini_file \<Rightarrow> string" where
  "ini_dump f =
     concat (map (\<lambda>(sec, conf).
       ''['' @ cstr sec @ '']'' @ [CHR 0x0A] @
       concat (map (\<lambda>(k, v). cstr k @ ''='' @ cstr v @ [CHR 0x0A]) (m_mconf conf)))
     (m_mSection f))"

text \<open>One line of the file: the body of the loop of \<open>load\<close>, on the current section name and the map.
  \<open>_line[0]\<close> of an empty string is its terminating NUL.\<close>

definition first_char :: "string \<Rightarrow> char" where
  "first_char s = (case s of [] \<Rightarrow> NUL | c # _ \<Rightarrow> c)"

definition load_line :: "string \<Rightarrow> string \<times> sections \<Rightarrow> (string \<times> sections) res" where
  "load_line buf st =
     (case st of (sec, m) \<Rightarrow>
       let line = trim buf blanks in
       if first_char line = CHR ''#'' then Inr (sec, m)
       else if first_char line = CHR ''['' then
         (case find_first_of line '']'' of
            Some nPos \<Rightarrow> Inr (substr line 1 (nPos - 1), m)
          | None \<Rightarrow> Inr (sec, m))
       else
         (case find_first_of line ''='' of
            None \<Rightarrow> Inr (sec, m)
          | Some nPos \<Rightarrow>
              let temp = str2vector (trim line blanks) (CHR ''='') in
              bindr (vec_at temp 0) (\<lambda>k.
              bindr (vec_at temp 1) (\<lambda>v.
                let key = trim k blanks; val = trim v blanks in
                Inr (sec, if sec \<noteq> [] then section_set sec key val m else m)))))"

function load_loop :: "string \<Rightarrow> string \<times> sections \<Rightarrow> (string \<times> sections) res" where
  "load_loop text st =
     (if text = [] then Inr st
      else
        (case fgets BUFF_LEN text of (buf, rest) \<Rightarrow>
           bindr (load_line (cstr buf) st) (load_loop rest)))"
  by pat_completeness auto
termination
  by (relation "measure (\<lambda>(text, st). length text)")
    (auto simp: fgets_def BUFF_LEN_def Let_def neq_Nil_conv split: if_splits)

declare load_loop.simps [simp del]

text \<open>The result of \<open>load\<close> is its return value and the object; a fault loses both.\<close>

definition ini_load :: "files \<Rightarrow> ini_file \<Rightarrow> (int \<times> ini_file) res" where
  "ini_load w f =
     (case contents w (cstr (m_strFileName f)) of
        None \<Rightarrow> Inr (-1, f)
      | Some bytes \<Rightarrow>
          bindr (load_loop (text_in bytes) ([], m_mSection f)) (\<lambda>(sec, m).
            Inr (0, f\<lparr>m_mSection := m\<rparr>)))"

definition ini_init :: "files \<Rightarrow> ini_file \<Rightarrow> (int \<times> ini_file) res" where
  "ini_init w f = ini_load w f"

definition ini_init_name :: "string \<Rightarrow> files \<Rightarrow> ini_file \<Rightarrow> (int \<times> ini_file) res" where
  "ini_init_name fileName w f = ini_load w (f\<lparr>m_strFileName := fileName\<rparr>)"

text \<open>The results of \<open>fprintf\<close> and \<open>fclose\<close> are not looked at, in the code neither.\<close>

definition ini_write :: "files \<Rightarrow> ini_file \<Rightarrow> int \<times> files \<times> ini_file" where
  "ini_write w f =
     (let name = cstr (m_strFileName f) in
      if \<not> writable w name then (-1, w, f)
      else
        (let text = concat (map (\<lambda>(sec, conf). conf_write conf) (m_mSection f))
         in (0, w\<lparr>contents := (contents w)(name \<mapsto> text_out text)\<rparr>, f\<lparr>m_bIsChange := False\<rparr>)))"

definition ini_save :: "files \<Rightarrow> ini_file \<Rightarrow> int \<times> files \<times> ini_file" where
  "ini_save w f = ini_write w f"

definition ini_destroy :: "files \<Rightarrow> ini_file \<Rightarrow> files" where
  "ini_destroy w f = (if m_bIsChange f then fst (snd (ini_save w f)) else w)"

section \<open>The map of sections\<close>

definition conf_ok :: "string \<Rightarrow> config \<Rightarrow> bool" where
  "conf_ok sec c = (sec \<noteq> [] \<and> m_strMainKey c = sec \<and> map_ok (m_mconf c) \<and>
     (\<forall>(k, v) \<in> set (m_mconf c). k \<noteq> []))"

definition sections_ok :: "sections \<Rightarrow> bool" where
  "sections_ok m = (map_ok m \<and> (\<forall>(sec, c) \<in> set m. conf_ok sec c))"

definition ini_ok :: "ini_file \<Rightarrow> bool" where
  "ini_ok f = sections_ok (m_mSection f)"

lemma set_map_put: "x \<in> set (map_put k v m) \<Longrightarrow> x = (k, v) \<or> x \<in> set m"
  by (induction k v m rule: map_put.induct) (auto split: if_splits)

lemma sections_ok_map_ok [simp]: "sections_ok m \<Longrightarrow> map_ok m"
  by (simp add: sections_ok_def)

lemma map_find_in_set: "map_find m k = Some v \<Longrightarrow> (k, v) \<in> set m"
  by (auto simp: map_find_def dest: map_of_SomeD)

lemma sections_ok_find: "sections_ok m \<Longrightarrow> map_find m sec = Some c \<Longrightarrow> conf_ok sec c"
  by (auto simp: sections_ok_def dest!: map_find_in_set)

lemma sections_ok_put: "sections_ok m \<Longrightarrow> conf_ok sec c \<Longrightarrow> sections_ok (map_put sec c m)"
  by (auto simp: sections_ok_def std.ok_put dest!: set_map_put)

lemma conf_ok_Config: "sec \<noteq> [] \<Longrightarrow> conf_ok sec (Config sec)"
  by (simp add: conf_ok_def Config_def)

lemma conf_ok_set: "conf_ok sec c \<Longrightarrow> conf_ok sec (conf_set k v c)"
  by (auto simp: conf_ok_def conf_set_def std.ok_put dest!: set_map_put)

lemma conf_ok_del: "conf_ok sec c \<Longrightarrow> conf_ok sec (conf_del k c)"
  using set_map_erase [of k "m_mconf c"]
  by (auto simp: conf_ok_def conf_del_def std.ok_remove split: option.split)

lemma section_set_eq:
  "map_ok m \<Longrightarrow> section_set sec k v m =
     map_put sec (conf_set k v (case map_find m sec of None \<Rightarrow> Config sec | Some c \<Rightarrow> c)) m"
  by (simp add: section_set_def std.look_put std.put_put_same split: option.split)

lemma sections_ok_section_set: "sections_ok m \<Longrightarrow> sec \<noteq> [] \<Longrightarrow> sections_ok (section_set sec k v m)"
  by (auto simp: section_set_eq intro!: sections_ok_put conf_ok_set conf_ok_Config
      dest: sections_ok_find split: option.split)

lemma load_line_sections_ok:
  assumes "load_line buf (sec, m) = Inr (sec', m')" "sections_ok m"
  shows "sections_ok m'"
  using assms
  by (auto simp: load_line_def Let_def bindr_eq_Inr intro: sections_ok_section_set
      split: if_splits option.splits)

lemma load_loop_sections_ok:
  "load_loop bs st = Inr (sec', m') \<Longrightarrow> sections_ok (snd st) \<Longrightarrow> sections_ok m'"
proof (induction bs st rule: load_loop.induct)
  case (1 bs st)
  show ?case
  proof (cases "bs = []")
    case True
    with 1 show ?thesis by (simp add: load_loop.simps)
  next
    case False
    obtain buf rest where f: "fgets BUFF_LEN bs = (buf, rest)" by (cases "fgets BUFF_LEN bs")
    with 1(2) False obtain s' n where l: "load_line (cstr buf) st = Inr (s', n)"
      "load_loop rest (s', n) = Inr (sec', m')"
      by (subst (asm) load_loop.simps) (auto simp: bindr_eq_Inr)
    have "sections_ok n"
      using load_line_sections_ok [of "cstr buf" "fst st" "snd st" s' n] l 1(3) by simp
    with 1(1) [OF False f [symmetric], of "(s', n)"] l show ?thesis by simp
  qed
qed

text \<open>C29: every operation of CIniFile keeps the map of sections in order: keys strictly ascending,
  section and key names non-empty, and every Config filed under its own name.\<close>

theorem ini_operations_keep_ok:
  assumes "ini_ok f"
  shows "ini_ok (ini_set sec key value f) \<and> ini_ok (ini_del sec key f) \<and>
    (\<forall>r g. ini_load w f = Inr (r, g) \<longrightarrow> ini_ok g) \<and> ini_ok (snd (snd (ini_save w f)))"
proof (intro conjI allI impI)
  note ok = assms [unfolded ini_ok_def]
  show "ini_ok (ini_set sec key value f)"
    using ok by (simp add: ini_ok_def ini_set_def sections_ok_section_set)
  show "ini_ok (ini_del sec key f)"
    using ok by (auto simp: ini_ok_def ini_del_def intro!: sections_ok_put conf_ok_del
        dest: sections_ok_find split: option.split)
  show "ini_ok g" if "ini_load w f = Inr (r, g)" for r g
    using that ok load_loop_sections_ok
    by (fastforce simp: ini_load_def ini_ok_def bindr_eq_Inr split: option.splits)
  show "ini_ok (snd (snd (ini_save w f)))"
    using ok by (simp add: ini_ok_def ini_save_def ini_write_def Let_def)
qed

theorem ini_operations_keep_ok_witness:
  "ini_ok (ini_set ''net'' ''port'' ''80'' (CIniFile ''a.ini''))"
  using ini_operations_keep_ok [of "CIniFile ''a.ini''"]
  by (simp add: ini_ok_def CIniFile_def sections_ok_def)

text \<open>C30: what get returns after set and after del: the value set, nothing for a deleted key,
  and for every other entry what it returned before; but get of a missing key returns the default
  only while the section does not exist, so that creating a section changes the answer for its
  other keys to the empty string.\<close>

theorem ini_get_after:
  assumes "ini_ok f" "sec \<noteq> []" "key \<noteq> []"
  shows "ini_get (ini_set sec key value f) sec' key' d =
      (if sec' = sec \<and> key' = key then value
       else if sec' = sec \<and> map_find (m_mSection f) sec = None then []
       else ini_get f sec' key' d)
    \<and> ini_get (ini_del sec key f) sec' key' d =
      (if sec' = sec \<and> key' = key \<and> map_find (m_mSection f) sec \<noteq> None then []
       else ini_get f sec' key' d)"
proof
  note ok = assms(1) [unfolded ini_ok_def]
  have c: "map_ok (m_mconf c)" if "map_find (m_mSection f) sec = Some c" for c
    using sections_ok_find [OF ok that] by (simp add: conf_ok_def)
  show "ini_get (ini_set sec key value f) sec' key' d =
      (if sec' = sec \<and> key' = key then value
       else if sec' = sec \<and> map_find (m_mSection f) sec = None then []
       else ini_get f sec' key' d)"
    using ok assms(2,3) c
    by (auto simp: ini_get_def ini_set_def section_set_eq std.look_put conf_get_def conf_set_def
        Config_def map_find_Cons split: option.splits if_splits)
  show "ini_get (ini_del sec key f) sec' key' d =
      (if sec' = sec \<and> key' = key \<and> map_find (m_mSection f) sec \<noteq> None then []
       else ini_get f sec' key' d)"
    using ok c
    by (auto simp: ini_get_def ini_del_def std.look_put conf_get_def conf_del_def std.look_remove
        split: option.splits)
qed


theorem ini_get_after_witness:
  "ini_get (CIniFile ''a.ini'') ''net'' ''host'' ''none'' = ''none'' \<and>
   ini_get (ini_set ''net'' ''port'' ''80'' (CIniFile ''a.ini'')) ''net'' ''host'' ''none'' = []"
  using ini_get_after [of "CIniFile ''a.ini''" "''net''" "''port''" "''80''" "''net''" "''host''" "''none''"]
  by (simp add: ini_ok_def CIniFile_def sections_ok_def ini_get_def)

section \<open>Writing and reading back\<close>

abbreviation nl :: char where "nl \<equiv> CHR 0x0A"

lemma text_in_out: "CHR 0x1A \<notin> set s \<Longrightarrow> text_in (text_out s) = s"
proof (induction s)
  case (Cons c s)
  have hd: "text_out s \<noteq> [] \<Longrightarrow> hd (text_out s) \<noteq> CHR 0x0A"
    by (cases s) (auto simp: text_out_def)
  show ?case
  proof (cases "c = CHR 0x0A")
    case True
    with Cons show ?thesis by (simp add: text_out_def)
  next
    case False
    have "text_out (c # s) = c # text_out s" using False by (simp add: text_out_def)
    with Cons False hd show ?thesis
      by (cases "text_out s") (auto simp: list.case_eq_if)
  qed
qed (simp add: text_out_def)

text \<open>Lines that fit into the buffer are read one by one.\<close>

definition line_ok :: "string \<Rightarrow> bool" where
  "line_ok l = (NUL \<notin> set l \<and> nl \<notin> set l \<and> CHR 0x1A \<notin> set l \<and> length l < BUFF_LEN - 1)"

lemma fgets_line: "line_ok l \<Longrightarrow> fgets BUFF_LEN (l @ nl # s) = (l @ [nl], s)"
  by (simp add: fgets_def line_ok_def Let_def takeWhile_append takeWhile_eq_all_conv)

lemma load_loop_lines:
  "\<forall>l \<in> set ls. line_ok l \<Longrightarrow>
     load_loop (concat (map (\<lambda>l. l @ [nl]) ls)) st = foldr_res load_line (map (\<lambda>l. l @ [nl]) ls) st"
proof (induction ls arbitrary: st)
  case Nil
  then show ?case by (simp add: load_loop.simps)
next
  case (Cons l ls)
  then have l: "line_ok l" and ls: "\<forall>l \<in> set ls. line_ok l" by auto
  have c: "cstr (l @ [nl]) = l @ [nl]" using l by (intro cstr_id) (simp add: line_ok_def)
  have "load_loop (concat (map (\<lambda>l. l @ [nl]) (l # ls))) st =
      bindr (load_line (l @ [nl]) st) (load_loop (concat (map (\<lambda>l. l @ [nl]) ls)))"
    using l by (subst load_loop.simps) (simp add: fgets_line c)
  then show ?case using Cons.IH [OF ls] by (auto intro: bindr_ext)
qed

lemma load_line_fault: "load_line l st = Inl Out_of_bounds \<or> (\<exists>t. load_line l st = Inr t)"
  by (auto simp: load_line_def vec_at_def Let_def split: prod.split option.split)

definition key_ok :: "string \<Rightarrow> bool" where
  "key_ok k = (k \<noteq> [] \<and> tight blanks k \<and> CHR ''='' \<notin> set k \<and> hd k \<noteq> CHR ''#'' \<and> hd k \<noteq> CHR ''['')"

definition val_ok :: "string \<Rightarrow> bool" where
  "val_ok v = (v \<noteq> [] \<and> tight blanks v \<and> CHR ''='' \<notin> set v)"

lemma nl_blank: "nl \<in> set blanks"
  by (simp add: blanks_def)

lemma trim_line: "tight blanks l \<Longrightarrow> trim (l @ [nl]) blanks = l"
  using trim_pad [of blanks l "[]" "[nl]"] trim_blank [of "[nl]" blanks] nl_blank
  by (cases "l = []") auto

lemma find_first_of_1:
  "c \<notin> set a \<Longrightarrow> find_first_of (a @ c # b) [c] = Some (length a)"
  "c \<notin> set s \<Longrightarrow> find_first_of s [c] = None"
  by (auto simp: find_first_of_def find_from_def index_from_eq_takeWhile takeWhile_append
      takeWhile_eq_all_conv)

lemma load_line_section:
  assumes "CHR '']'' \<notin> set s"
  shows "load_line ((''['' @ s @ '']'') @ [nl]) (sec, m) = Inr (s, m)"
proof -
  have "trim ((''['' @ s @ '']'') @ [nl]) blanks = ''['' @ s @ '']''"
    by (rule trim_line) (simp add: tight_def blanks_def)
  moreover have "find_first_of (''['' @ s @ '']'') '']'' = Some (Suc (length s))"
    using find_first_of_1(1) [of "CHR '']''" "''['' @ s" "[]"] assms by simp
  ultimately show ?thesis by (simp add: load_line_def first_char_def substr_def)
qed

lemma load_line_key:
  assumes "key_ok k" "val_ok v" "sec \<noteq> []"
  shows "load_line ((k @ ''='' @ v) @ [nl]) (sec, m) = Inr (sec, section_set sec k v m)"
proof -
  have t: "tight blanks (k @ ''='' @ v)" "k \<noteq> []"
    using assms by (auto simp: key_ok_def val_ok_def tight_def)
  have "tokens (CHR ''='') (k @ ''='' @ v) = [k, v]"
    using assms tokens_none [of "CHR ''=''" v] tokens_sep [of "CHR ''=''" k v]
    by (simp add: key_ok_def val_ok_def)
  moreover have "find_first_of (k @ ''='' @ v) ''='' = Some (length k)"
    using assms find_first_of_1(1) [of "CHR ''=''" k v] by (simp add: key_ok_def)
  moreover have "first_char (k @ ''='' @ v) = hd k"
    using t by (cases k) (auto simp: first_char_def)
  moreover have "trim k blanks = k" "trim v blanks = v"
    using assms by (auto simp: key_ok_def val_ok_def)
  ultimately show ?thesis
    using assms trim_line [OF t(1)] trim_tight [OF t(1)]
    by (simp only: load_line_def prod.case Let_def str2vector_tokens)
      (simp add: key_ok_def vec_at_def)
qed

lemma load_line_empty: "load_line [nl] (sec, m) = Inr (sec, m)"
  using trim_line [of "[]"]
  by (simp add: load_line_def first_char_def tight_def find_first_of_1(2))

lemma load_line_no_value:
  assumes "key_ok k"
  shows "load_line ((k @ ''='') @ [nl]) st = Inl Out_of_bounds"
proof -
  obtain sec m where st: "st = (sec, m)" by (cases st)
  have t: "tight blanks (k @ ''='')" "k \<noteq> []"
    using assms by (auto simp: key_ok_def tight_def blanks_def)
  have "tokens (CHR ''='') (k @ ''='') = [k]"
    using assms tokens_none [of "CHR ''=''" "[]"] tokens_sep [of "CHR ''=''" k "[]"]
    by (simp add: key_ok_def)
  moreover have "find_first_of (k @ ''='') ''='' = Some (length k)"
    using assms find_first_of_1(1) [of "CHR ''=''" k "[]"] by (simp add: key_ok_def)
  moreover have "first_char (k @ ''='') = hd k"
    using t by (cases k) (auto simp: first_char_def)
  ultimately show ?thesis
    using assms trim_line [OF t(1)] trim_tight [OF t(1)]
    by (simp only: st load_line_def prod.case Let_def str2vector_tokens)
      (simp add: key_ok_def vec_at_def)
qed

text \<open>The lines of a section, and the sections whose lines are read back as they were.\<close>

definition conf_lines :: "config \<Rightarrow> string list" where
  "conf_lines c = (''['' @ m_strMainKey c @ '']'') # map (\<lambda>(k, v). k @ ''='' @ v) (m_mconf c) @ [[]]"

definition conf_text_ok :: "config \<Rightarrow> bool" where
  "conf_text_ok c = (CHR '']'' \<notin> set (m_strMainKey c) \<and> m_mconf c \<noteq> [] \<and>
     (\<forall>l \<in> set (conf_lines c). line_ok l) \<and> (\<forall>(k, v) \<in> set (m_mconf c). key_ok k))"

lemma conf_write_lines:
  assumes "\<forall>l \<in> set (conf_lines c). line_ok l"
  shows "conf_write c = concat (map (\<lambda>l. l @ [nl]) (conf_lines c))"
proof -
  have "cstr k @ ''='' @ cstr v @ [nl] = (k @ ''='' @ v) @ [nl]" if "(k, v) \<in> set (m_mconf c)" for k v
    using assms that by (force simp: conf_lines_def line_ok_def intro!: arg_cong2 [where f = append] cstr_id)
  then have "concat (map (\<lambda>(k, v). cstr k @ ''='' @ cstr v @ [nl]) (m_mconf c)) =
      concat (map (\<lambda>(k, v). k @ ''='' @ v @ [nl]) (m_mconf c))"
    by (intro arg_cong [where f = concat] map_cong) auto
  moreover have "cstr (m_strMainKey c) = m_strMainKey c"
    using assms by (intro cstr_id) (auto simp: conf_lines_def line_ok_def)
  ultimately show ?thesis
    by (simp add: conf_write_def conf_lines_def comp_def case_prod_unfold)
qed

lemma load_entries:
  assumes "\<forall>(k, v) \<in> set kvs. key_ok k \<and> val_ok v" "sec \<noteq> []" "map_ok m"
  shows "foldr_res load_line (map (\<lambda>(k, v). (k @ ''='' @ v) @ [nl]) kvs) (sec, map_put sec c m)
    = Inr (sec, map_put sec (c\<lparr>m_mconf := std.puts kvs (m_mconf c)\<rparr>) m)"
  using assms(1)
proof (induction kvs arbitrary: c)
  case (Cons kv kvs)
  obtain k v where kv: "kv = (k, v)" by (cases kv)
  with Cons.prems have ok: "key_ok k" "val_ok v" "k \<noteq> []" by (auto simp: key_ok_def)
  have "section_set sec k v (map_put sec c m) = map_put sec (c\<lparr>m_mconf := map_put k v (m_mconf c)\<rparr>) m"
    using assms(3) ok
    by (simp add: section_set_eq std.ok_put std.look_put std.put_put_same conf_set_def)
  then show ?case
    using Cons load_line_key [OF ok(1,2) assms(2)] kv by simp
qed simp

lemma load_conf:
  assumes "conf_ok s c" "conf_text_ok c" "\<forall>(k, v) \<in> set (m_mconf c). val_ok v"
    "map_ok m" "map_find m s = None"
  shows "foldr_res load_line (map (\<lambda>l. l @ [nl]) (conf_lines c)) (sec, m) = Inr (s, map_put s c m)"
proof -
  have s: "m_strMainKey c = s" "s \<noteq> []" "map_ok (m_mconf c)" using assms(1) by (auto simp: conf_ok_def)
  obtain k v kvs where kvs: "m_mconf c = (k, v) # kvs"
    using assms(2) by (cases "m_mconf c") (auto simp: conf_text_ok_def)
  have ok: "\<forall>(k, v) \<in> set (m_mconf c). key_ok k \<and> val_ok v"
    using assms(2,3) by (auto simp: conf_text_ok_def)
  have c_eq: "\<lparr>m_strMainKey = s, m_mconf = m_mconf c\<rparr> = c" using s by (cases c) simp
  have first: "section_set s k v m = section_set s k v (map_put s (Config s) m)"
    using assms(4,5) by (simp add: section_set_eq std.ok_put std.look_put std.put_put_same)
  have "foldr_res load_line (map (\<lambda>(k, v). (k @ ''='' @ v) @ [nl]) (m_mconf c)) (s, m) =
      foldr_res load_line (map (\<lambda>(k, v). (k @ ''='' @ v) @ [nl]) (m_mconf c)) (s, map_put s (Config s) m)"
    using ok s(2) load_line_key [of k v s] by (simp add: kvs first)
  also have "\<dots> = Inr (s, map_put s c m)"
    using load_entries [OF ok s(2) assms(4), of "Config s"] s std_puts_self [OF s(3)]
    by (simp add: Config_def c_eq)
  finally have "foldr_res load_line (map (\<lambda>(k, v). (k @ ''='' @ v) @ [nl]) (m_mconf c)) (s, m) =
      Inr (s, map_put s c m)" .
  moreover have "CHR '']'' \<notin> set s" using assms(2) s by (auto simp: conf_text_ok_def)
  ultimately show ?thesis
    using load_line_section [of s sec m]
    by (simp add: conf_lines_def foldr_res_append s(1) load_line_empty comp_def case_prod_unfold)
qed


lemma load_sections:
  assumes "sections_ok m" "\<forall>(s, c) \<in> set m. conf_text_ok c \<and> (\<forall>(k, v) \<in> set (m_mconf c). val_ok v)"
  shows "\<exists>sec. foldr_res load_line (concat (map (\<lambda>(s, c). map (\<lambda>l. l @ [nl]) (conf_lines c)) m)) ([], [])
    = Inr (sec, m)"
proof -
  have "\<exists>sec'. foldr_res load_line (concat (map (\<lambda>(s, c). map (\<lambda>l. l @ [nl]) (conf_lines c)) xs)) (sec, n)
      = Inr (sec', std.puts xs n)"
    if "set xs \<subseteq> set m" "distinct (map fst xs)" "map_ok n" "\<forall>k \<in> fst ` set xs. map_find n k = None"
    for xs n sec
    using that
  proof (induction xs arbitrary: n sec)
    case (Cons x xs)
    obtain s c where x: "x = (s, c)" by (cases x)
    have sc: "(s, c) \<in> set m" using Cons.prems(1) x by auto
    have "foldr_res load_line (map (\<lambda>l. l @ [nl]) (conf_lines c)) (sec, n) = Inr (s, map_put s c n)"
      using assms sc Cons.prems(3,4) x by (intro load_conf) (auto simp: sections_ok_def)
    moreover have "\<forall>k \<in> fst ` set xs. map_find (map_put s c n) k = None"
      using Cons.prems x by (auto simp: std.look_put)
    ultimately show ?case
      using Cons.IH [of "map_put s c n" s] Cons.prems x
      by (auto simp: foldr_res_append std.ok_put)
  qed simp
  from this [of m "[]" "[]"] assms(1) show ?thesis
    using std_puts_self [of m] by (auto simp: sections_ok_def map_ok_def strict_sorted_iff)
qed

lemma load_saved:
  assumes "\<forall>(s, c) \<in> set m. \<forall>l \<in> set (conf_lines c). line_ok l"
  shows "load_loop (text_in (text_out (concat (map (\<lambda>(s, c). conf_write c) m)))) st =
    foldr_res load_line (concat (map (\<lambda>(s, c). map (\<lambda>l. l @ [nl]) (conf_lines c)) m)) st"
proof -
  let ?ls = "concat (map (\<lambda>(s, c). conf_lines c) m)"
  have lines: "\<forall>l \<in> set ?ls. line_ok l" using assms by auto
  have w: "concat (map (\<lambda>(s, c). conf_write c) m) = concat (map (\<lambda>l. l @ [nl]) ?ls)"
    using assms by (induction m) (auto simp: conf_write_lines)
  have "CHR 0x1A \<notin> set (concat (map (\<lambda>l. l @ [nl]) ?ls))"
    using lines by (auto simp: line_ok_def)
  then have "text_in (text_out (concat (map (\<lambda>l. l @ [nl]) ?ls))) = concat (map (\<lambda>l. l @ [nl]) ?ls)"
    by (rule text_in_out)
  then have "load_loop (text_in (text_out (concat (map (\<lambda>(s, c). conf_write c) m)))) st =
      foldr_res load_line (map (\<lambda>l. l @ [nl]) ?ls) st"
    unfolding w by (simp only: load_loop_lines [OF lines])
  then show ?thesis by (simp add: map_concat comp_def case_prod_unfold)
qed

text \<open>C13: save followed by init of a fresh object gives back every section and every entry, when
  no section is empty, no name or value contains a character of the format at a place where it is
  taken for it, no value is empty, and every line fits into the buffer of 1024 characters.\<close>

theorem ini_save_init_roundtrip:
  assumes "ini_ok f" "writable w (cstr (m_strFileName f))"
    and "\<forall>(s, c) \<in> set (m_mSection f). conf_text_ok c \<and> (\<forall>(k, v) \<in> set (m_mconf c). val_ok v)"
  shows "\<exists>w' f'. ini_save w f = (0, w', f') \<and> m_bIsChange f' = False \<and>
    ini_init w' (CIniFile (m_strFileName f)) =
      Inr (0, (CIniFile (m_strFileName f))\<lparr>m_mSection := m_mSection f\<rparr>)"
proof -
  have "\<forall>(s, c) \<in> set (m_mSection f). \<forall>l \<in> set (conf_lines c). line_ok l"
    using assms(3) by (auto simp: conf_text_ok_def)
  from load_saved [OF this] load_sections [OF _ assms(3)] assms(1,2) show ?thesis
    by (auto simp: ini_save_def ini_write_def ini_init_def ini_load_def ini_ok_def CIniFile_def Let_def)
qed

theorem ini_save_init_roundtrip_witness:
  "\<exists>w' f'. ini_save \<lparr>contents = (\<lambda>x. None), writable = (\<lambda>x. True)\<rparr>
       (ini_set ''net'' ''port'' ''80'' (CIniFile ''a.ini'')) = (0, w', f') \<and>
     ini_get (ini_set ''net'' ''port'' ''80'' (CIniFile ''a.ini'')) ''net'' ''port'' [] = ''80''"
proof -
  let ?f = "ini_set ''net'' ''port'' ''80'' (CIniFile ''a.ini'')"
  let ?w = "\<lparr>contents = (\<lambda>x. None), writable = (\<lambda>x. True)\<rparr> :: files"
  have f: "m_mSection ?f = [(''net'', \<lparr>m_strMainKey = ''net'', m_mconf = [(''port'', ''80'')]\<rparr>)]"
    by (simp add: ini_set_def CIniFile_def section_set_def Config_def conf_set_def map_find_Cons)
  have ok: "ini_ok ?f" "\<forall>(s, c) \<in> set (m_mSection ?f). conf_text_ok c \<and>
      (\<forall>(k, v) \<in> set (m_mconf c). val_ok v)"
    by (auto simp: ini_ok_def f sections_ok_def conf_ok_def map_ok_def conf_text_ok_def conf_lines_def
        line_ok_def BUFF_LEN_def key_ok_def val_ok_def tight_def blanks_def)
  from ini_save_init_roundtrip [of ?f ?w] ok
  have "\<exists>w' f'. ini_save ?w ?f = (0, w', f')" by fastforce
  moreover have "ini_get ?f ''net'' ''port'' [] = ''80''"
    by (simp add: ini_get_def f map_find_Cons conf_get_def)
  ultimately show ?thesis by blast
qed

text \<open>A file that save wrote cannot be loaded again once any key has an empty value: the
  loader splits the line at the equals sign, drops the empty part and accesses the second element
  of a vector of one.\<close>

theorem ini_empty_value_breaks_load:
  assumes "ini_ok f" "writable w (cstr (m_strFileName f))"
    and "\<forall>(s, c) \<in> set (m_mSection f). conf_text_ok c"
    and "(s, c) \<in> set (m_mSection f)" "(k, []) \<in> set (m_mconf c)"
  shows "ini_init (fst (snd (ini_save w f))) (CIniFile (m_strFileName f)) = Inl Out_of_bounds"
proof -
  let ?ls = "concat (map (\<lambda>(s, c). map (\<lambda>l. l @ [nl]) (conf_lines c)) (m_mSection f))"
  have "key_ok k" using assms(3-5) by (auto simp: conf_text_ok_def)
  then have "load_line ((k @ ''='') @ [nl]) st = Inl Out_of_bounds" for st
    by (rule load_line_no_value)
  moreover have "(k @ ''='') @ [nl] \<in> set ?ls"
    using assms(4,5) by (force simp: conf_lines_def)
  ultimately have "foldr_res load_line ?ls st = Inl Out_of_bounds" for st
    using load_line_fault by (intro foldr_res_fault) blast+
  moreover have "\<forall>(s, c) \<in> set (m_mSection f). \<forall>l \<in> set (conf_lines c). line_ok l"
    using assms(3) by (auto simp: conf_text_ok_def)
  ultimately show ?thesis
    using load_saved [of "m_mSection f"] assms(2)
    by (simp add: ini_save_def ini_write_def ini_init_def ini_load_def CIniFile_def Let_def)
qed

theorem ini_empty_value_breaks_load_witness:
  "ini_init (fst (snd (ini_save \<lparr>contents = (\<lambda>x. None), writable = (\<lambda>x. True)\<rparr>
      (ini_set ''net'' ''host'' [] (CIniFile ''a.ini''))))) (CIniFile ''a.ini'') = Inl Out_of_bounds"
proof -
  let ?f = "ini_set ''net'' ''host'' [] (CIniFile ''a.ini'')"
  let ?c = "\<lparr>m_strMainKey = ''net'', m_mconf = [(''host'', [])]\<rparr>"
  have f: "m_mSection ?f = [(''net'', ?c)]" "m_strFileName ?f = ''a.ini''"
    by (simp_all add: ini_set_def CIniFile_def section_set_def Config_def conf_set_def map_find_Cons)
  have "ini_ok ?f" "\<forall>(s, c) \<in> set (m_mSection ?f). conf_text_ok c"
    by (auto simp: ini_ok_def f sections_ok_def conf_ok_def map_ok_def conf_text_ok_def conf_lines_def
        line_ok_def BUFF_LEN_def key_ok_def tight_def blanks_def)
  from ini_empty_value_breaks_load [OF this(1) _ this(2), of _ "''net''" ?c "''host''"]
  show ?thesis by (simp add: f)
qed

end
