(* ===== verification/Linked.thy ===== *)
theory Linked
  imports Prelude
begin

text \<open>
  The contract of a singly linked list on a heap, for the components that keep one: a way to read
  and to write a node, and its link. The lemmas about the list that starts at a pointer are proved
  here once, for every type of node and of heap.
\<close>

locale linked =
  fixes get :: "'h \<Rightarrow> nat \<Rightarrow> 'n option"
    and put :: "nat \<Rightarrow> 'n option \<Rightarrow> 'h \<Rightarrow> 'h"
    and nxt :: "'n \<Rightarrow> nat option"
    and set_nxt :: "nat option \<Rightarrow> 'n \<Rightarrow> 'n"
  assumes get_put: "get (put a v h) b = (if b = a then v else get h b)"
    and nxt_set: "nxt (set_nxt q n) = q"
begin

text \<open>The nodes of the list from \<open>p\<close> on, with their addresses.\<close>

fun chain :: "'h \<Rightarrow> nat option \<Rightarrow> (nat \<times> 'n) list \<Rightarrow> bool" where
  "chain h p [] = (p = None)"
| "chain h p ((a, n) # xs) = (p = Some a \<and> get h a = Some n \<and> chain h (nxt n) xs)"

lemma chain_unique: "chain h p xs \<Longrightarrow> chain h p ys \<Longrightarrow> xs = ys"
proof (induction xs arbitrary: p ys)
  case Nil
  then show ?case by (cases ys) auto
next
  case (Cons x xs)
  obtain a n where x: "x = (a, n)" by (cases x)
  with Cons.prems(1) have p: "p = Some a" "get h a = Some n" "chain h (nxt n) xs" by auto
  with Cons.prems(2) obtain zs where "ys = (a, n) # zs" "chain h (nxt n) zs"
    by (cases ys) auto
  with Cons.IH [OF p(3)] x show ?case by simp
qed

lemma chain_suffix: "chain h p (xs @ (a, n) # ys) \<Longrightarrow> chain h (Some a) ((a, n) # ys)"
  by (induction xs arbitrary: p) auto

lemma chain_get: "chain h p xs \<Longrightarrow> (a, n) \<in> set xs \<Longrightarrow> get h a = Some n"
  by (induction xs arbitrary: p) auto

text \<open>A list that ends is not cyclic.\<close>

lemma chain_distinct: "chain h p xs \<Longrightarrow> distinct (map fst xs)"
proof (induction xs arbitrary: p)
  case (Cons x xs)
  obtain a n where x: "x = (a, n)" by (cases x)
  have "a \<notin> fst ` set xs"
  proof
    assume "a \<in> fst ` set xs"
    then obtain m where am: "(a, m) \<in> set xs" by auto
    then obtain us vs where xs: "xs = us @ (a, m) # vs" by (meson split_list)
    have "chain h (Some a) ((a, m) # vs)"
      using Cons.prems x xs chain_suffix [of h p "x # us" a m vs] by simp
    moreover have "chain h (Some a) ((a, n) # xs)" using Cons.prems x by auto
    ultimately have "(a, m) # vs = (a, n) # xs" by (rule chain_unique)
    then show False using xs by (metis append_Cons append_eq_Cons_conv append_self_conv2
          length_Cons length_append less_add_Suc2 list.inject nat_neq_iff)
  qed
  with Cons x show ?case by auto
qed simp

lemma chain_cong:
  "(\<And>a. a \<in> fst ` set xs \<Longrightarrow> get h' a = get h a) \<Longrightarrow> chain h' p xs = chain h p xs"
  by (induction xs arbitrary: p) auto

lemma chain_put_other [simp]: "a \<notin> fst ` set xs \<Longrightarrow> chain (put a v h) p xs = chain h p xs"
  by (rule chain_cong) (auto simp: get_put)

text \<open>Redirecting the link of one node replaces what follows it.\<close>

lemma chain_relink:
  assumes "chain h p (xs @ (b, n) # ys)" "chain h q zs" "b \<notin> fst ` set zs"
  shows "chain (put b (Some (set_nxt q n)) h) p (xs @ (b, set_nxt q n) # zs)"
proof -
  have d: "distinct (map fst (xs @ (b, n) # ys))" using assms(1) by (rule chain_distinct)
  show ?thesis
    using assms(1) d
  proof (induction xs arbitrary: p)
    case Nil
    then show ?case using assms(2,3) by (simp add: get_put nxt_set)
  next
    case (Cons x xs)
    then show ?case by (cases x) (auto simp: get_put)
  qed
qed

lemma chain_last: "chain h p (xs @ [(a, n)]) \<Longrightarrow> nxt n = None"
  by (induction xs arbitrary: p) auto

lemma chain_next: "chain h p (xs @ (a, n) # (b, m) # ys) \<Longrightarrow> nxt n = Some b"
  by (induction xs arbitrary: p) auto

lemma chain_append_next: "chain h p (xs @ (a, n) # ys) \<Longrightarrow> chain h (nxt n) ys"
  by (induction xs arbitrary: p) auto

end

end
