(* ===== verification/South.thy ===== *)
theory South
  imports Linked
begin

text \<open>
  The C interface of \<open>libsouth_interface/south.cpp\<close>: devices with a linked list of monitors, each
  with a linked list of targets, on an explicit heap.

  The heap has one map per type of block (C strings, targets, monitors, devices); a block that was
  freed is absent from its map, and addresses are never used twice, so that a use after free, a
  second free and a leak are all visible. \<open>malloc\<close> may fail: \<open>fails\<close> lists the outcomes of the next
  allocations and allocations behind its end succeed. A string block is its bytes with the
  terminating NUL.

  Arguments of type \<open>const char*\<close> belong to the caller and are passed as values, \<open>None\<close> for NULL.
  A recursion or loop over a list is a partial function whose result \<open>None\<close> means that it does not
  return (on a cyclic list).
\<close>

section \<open>Blocks\<close>

type_synonym ptr = "nat option"

record target =
  t_label :: ptr
  t_unit :: ptr
  t_type :: int
  t_value :: ptr
  t_next :: ptr
  t_pm :: ptr

text \<open>\<open>monitor_new\<close> does not set \<open>_pd\<close>: \<open>None\<close> is an uninitialised field.\<close>

record monitor =
  m_stat :: int
  m_label :: ptr
  m_target :: ptr
  m_cru :: ptr
  m_itarget :: uint32
  m_next :: ptr
  m_pd :: "ptr option"

record device =
  d_label :: ptr
  d_ip :: ptr
  d_monitor :: ptr
  d_curmon :: ptr
  d_imonitor :: uint32

record heap =
  strs :: "nat \<Rightarrow> string option"
  tgts :: "nat \<Rightarrow> target option"
  mons :: "nat \<Rightarrow> monitor option"
  devs :: "nat \<Rightarrow> device option"
  fresh :: nat
  fails :: "bool list"

section \<open>Allocation and access\<close>

text \<open>The outcome of the next allocation, and the heap with it consumed.\<close>

definition next_alloc :: "heap \<Rightarrow> ptr \<times> heap" where
  "next_alloc h =
     (case fails h of
        [] \<Rightarrow> (Some (fresh h), h\<lparr>fresh := Suc (fresh h)\<rparr>)
      | b # bs \<Rightarrow> if b then (None, h\<lparr>fails := bs\<rparr>)
                   else (Some (fresh h), h\<lparr>fresh := Suc (fresh h), fails := bs\<rparr>))"

text \<open>A new block of a structure: every field is assigned before it is read, but for \<open>_pd\<close>.\<close>

definition blank_target :: target where
  "blank_target = \<lparr>t_label = None, t_unit = None, t_type = 0, t_value = None, t_next = None, t_pm = None\<rparr>"

definition blank_monitor :: monitor where
  "blank_monitor = \<lparr>m_stat = 0, m_label = None, m_target = None, m_cru = None, m_itarget = 0,
     m_next = None, m_pd = None\<rparr>"

definition blank_device :: device where
  "blank_device = \<lparr>d_label = None, d_ip = None, d_monitor = None, d_curmon = None, d_imonitor = 0\<rparr>"

definition new_target :: "heap \<Rightarrow> ptr \<times> heap" where
  "new_target h = (case next_alloc h of
      (None, h) \<Rightarrow> (None, h)
    | (Some a, h) \<Rightarrow> (Some a, h\<lparr>tgts := (tgts h)(a \<mapsto> blank_target)\<rparr>))"

definition new_monitor :: "heap \<Rightarrow> ptr \<times> heap" where
  "new_monitor h = (case next_alloc h of
      (None, h) \<Rightarrow> (None, h)
    | (Some a, h) \<Rightarrow> (Some a, h\<lparr>mons := (mons h)(a \<mapsto> blank_monitor)\<rparr>))"

definition new_device :: "heap \<Rightarrow> ptr \<times> heap" where
  "new_device h = (case next_alloc h of
      (None, h) \<Rightarrow> (None, h)
    | (Some a, h) \<Rightarrow> (Some a, h\<lparr>devs := (devs h)(a \<mapsto> blank_device)\<rparr>))"

definition strdup :: "string \<Rightarrow> heap \<Rightarrow> ptr \<times> heap" where
  "strdup s h = (case next_alloc h of
      (None, h) \<Rightarrow> (None, h)
    | (Some a, h) \<Rightarrow> (Some a, h\<lparr>strs := (strs h)(a \<mapsto> cstr s @ [NUL])\<rparr>))"

text \<open>\<open>free\<close> of a string, and \<open>_destory\<close>, which skips NULL.\<close>

definition free_str :: "ptr \<Rightarrow> heap \<Rightarrow> heap res" where
  "free_str p h =
     (case p of
        None \<Rightarrow> Inr h
      | Some a \<Rightarrow> (case strs h a of
          None \<Rightarrow> Inl Double_free
        | Some s \<Rightarrow> Inr (h\<lparr>strs := (strs h)(a := None)\<rparr>)))"

definition load_target :: "ptr \<Rightarrow> heap \<Rightarrow> target res" where
  "load_target p h =
     (case p of
        None \<Rightarrow> Inl Null_deref
      | Some a \<Rightarrow> (case tgts h a of None \<Rightarrow> Inl Use_after_free | Some t \<Rightarrow> Inr t))"

definition load_monitor :: "ptr \<Rightarrow> heap \<Rightarrow> monitor res" where
  "load_monitor p h =
     (case p of
        None \<Rightarrow> Inl Null_deref
      | Some a \<Rightarrow> (case mons h a of None \<Rightarrow> Inl Use_after_free | Some m \<Rightarrow> Inr m))"

definition load_device :: "ptr \<Rightarrow> heap \<Rightarrow> device res" where
  "load_device p h =
     (case p of
        None \<Rightarrow> Inl Null_deref
      | Some a \<Rightarrow> (case devs h a of None \<Rightarrow> Inl Use_after_free | Some d \<Rightarrow> Inr d))"

text \<open>Assignments through a pointer that has just been read.\<close>

definition upd_target :: "ptr \<Rightarrow> (target \<Rightarrow> target) \<Rightarrow> heap \<Rightarrow> heap res" where
  "upd_target p f h =
     bindr (load_target p h) (\<lambda>t. Inr (h\<lparr>tgts := (tgts h)(the p \<mapsto> f t)\<rparr>))"

definition upd_monitor :: "ptr \<Rightarrow> (monitor \<Rightarrow> monitor) \<Rightarrow> heap \<Rightarrow> heap res" where
  "upd_monitor p f h =
     bindr (load_monitor p h) (\<lambda>m. Inr (h\<lparr>mons := (mons h)(the p \<mapsto> f m)\<rparr>))"

definition upd_device :: "ptr \<Rightarrow> (device \<Rightarrow> device) \<Rightarrow> heap \<Rightarrow> heap res" where
  "upd_device p f h =
     bindr (load_device p h) (\<lambda>d. Inr (h\<lparr>devs := (devs h)(the p \<mapsto> f d)\<rparr>))"

text \<open>\<open>strcmp(p, label) == 0\<close>.\<close>

definition strcmp_eq :: "ptr \<Rightarrow> string \<Rightarrow> heap \<Rightarrow> bool res" where
  "strcmp_eq p label h =
     (case p of
        None \<Rightarrow> Inl Null_deref
      | Some a \<Rightarrow> (case strs h a of
          None \<Rightarrow> Inl Use_after_free
        | Some s \<Rightarrow> if NUL \<in> set s then Inr (cstr s = cstr label) else Inl Out_of_bounds))"

section \<open>Targets\<close>

text \<open>Free the three strings of a target and the target itself.\<close>

definition free_target :: "nat \<Rightarrow> heap \<Rightarrow> heap res" where
  "free_target a h =
     bindr (load_target (Some a) h) (\<lambda>t.
     bindr (free_str (t_label t) h) (\<lambda>h.
     bindr (upd_target (Some a) (\<lambda>t. t\<lparr>t_label := None\<rparr>) h) (\<lambda>h.
     bindr (free_str (t_value t) h) (\<lambda>h.
     bindr (upd_target (Some a) (\<lambda>t. t\<lparr>t_value := None\<rparr>) h) (\<lambda>h.
     bindr (free_str (t_unit t) h) (\<lambda>h.
     bindr (upd_target (Some a) (\<lambda>t. t\<lparr>t_unit := None\<rparr>) h) (\<lambda>h.
       Inr (h\<lparr>tgts := (tgts h)(a := None)\<rparr>))))))))"

text \<open>\<open>target_destroy(&p)\<close> for the value \<open>p\<close>; the caller's pointer is NULL afterwards.\<close>

partial_function (option) target_destroy :: "ptr \<Rightarrow> heap \<Rightarrow> heap res option" where
  "target_destroy p h =
     (case p of
        None \<Rightarrow> Some (Inr h)
      | Some a \<Rightarrow>
          (case load_target p h of
             Inl e \<Rightarrow> Some (Inl e)
           | Inr t \<Rightarrow>
               Option.bind (target_destroy (t_next t) h) (\<lambda>r.
                 Some (bindr r (\<lambda>h.
                   bindr (upd_target p (\<lambda>t. t\<lparr>t_next := None\<rparr>) h) (free_target a))))))"

section \<open>Monitors\<close>

definition XML_PROP_VALUE_WORK_STATUS :: string where
  "XML_PROP_VALUE_WORK_STATUS =
     [CHR 0xB9, CHR 0xA4, CHR 0xD7, CHR 0xF7, CHR 0xD7, CHR 0xB4, CHR 0xCC, CHR 0xAC]"

definition DATA_TYPE_INT32 :: int where "DATA_TYPE_INT32 = 1"

definition status :: "int \<Rightarrow> string res" where
  "status i =
     (if i = 0 then Inr ''0'' else if i = 1 then Inr ''1'' else if i = 2 then Inr ''2''
      else Inl Out_of_bounds)"

definition monitor_new :: "string option \<Rightarrow> int \<Rightarrow> heap \<Rightarrow> (ptr \<times> heap) res" where
  "monitor_new label stat h =
     (case label of
        None \<Rightarrow> Inr (None, h)
      | Some l \<Rightarrow>
          (case new_monitor h of
             (None, h) \<Rightarrow> Inr (None, h)
           | (Some pm, h) \<Rightarrow>
               (case new_target h of
                  (None, h) \<Rightarrow> Inr (None, h\<lparr>mons := (mons h)(pm := None)\<rparr>)
                | (Some pt, h) \<Rightarrow>
                    (case strdup XML_PROP_VALUE_WORK_STATUS h of (lp, h) \<Rightarrow>
                     bindr (status stat) (\<lambda>s.
                     (case strdup s h of (vp, h) \<Rightarrow>
                     bindr (upd_target (Some pt) (\<lambda>t. t\<lparr>t_label := lp, t_unit := None,
                       t_type := DATA_TYPE_INT32, t_value := vp, t_next := None,
                       t_pm := Some pm\<rparr>) h) (\<lambda>h.
                     (case strdup l h of (mp, h) \<Rightarrow>
                     bindr (upd_monitor (Some pm) (\<lambda>m. m\<lparr>m_label := mp, m_stat := stat,
                       m_next := None, m_target := Some pt, m_cru := Some pt, m_itarget := 1\<rparr>) h) (\<lambda>h.
                       Inr (Some pm, h)))))))))) "

definition monitor_add_target ::
  "ptr \<Rightarrow> string option \<Rightarrow> string option \<Rightarrow> string option \<Rightarrow> int \<Rightarrow> heap \<Rightarrow> (int \<times> heap) res" where
  "monitor_add_target pm label val unt ty h =
     (case (pm, label, unt, val) of
        (Some a, Some l, Some u, Some v) \<Rightarrow>
          (case new_target h of
             (None, h) \<Rightarrow> Inr (-1, h)
           | (Some pt, h) \<Rightarrow>
               (case strdup l h of (lp, h) \<Rightarrow>
               (case strdup u h of (up, h) \<Rightarrow>
               (case strdup v h of (vp, h) \<Rightarrow>
                 bindr (upd_target (Some pt) (\<lambda>t. t\<lparr>t_label := lp, t_unit := up, t_type := ty,
                   t_value := vp, t_next := None, t_pm := pm\<rparr>) h) (\<lambda>h.
                 bindr (load_monitor pm h) (\<lambda>m.
                 bindr (upd_target (m_cru m) (\<lambda>t. t\<lparr>t_next := Some pt\<rparr>) h) (\<lambda>h.
                 bindr (upd_monitor pm (\<lambda>m. m\<lparr>m_cru := Some pt\<rparr>) h) (\<lambda>h.
                 bindr (upd_monitor pm (\<lambda>m. m\<lparr>m_itarget := m_itarget m + 1\<rparr>) h) (\<lambda>h.
                   Inr (0, h))))))))))
      | _ \<Rightarrow> Inr (-1, h))"

text \<open>The loop of \<open>monitor_del_target\<close> up to the first match: the predecessor and the match.\<close>

partial_function (option) find_target ::
  "string \<Rightarrow> heap \<Rightarrow> ptr \<Rightarrow> ptr \<Rightarrow> (ptr \<times> ptr) res option" where
  "find_target label h ptemp pt =
     (case pt of
        None \<Rightarrow> Some (Inr (ptemp, None))
      | Some a \<Rightarrow>
          (case bindr (load_target pt h) (\<lambda>t.
                  bindr (strcmp_eq (t_label t) label h) (\<lambda>b. Inr (t, b))) of
             Inl e \<Rightarrow> Some (Inl e)
           | Inr (t, b) \<Rightarrow>
               if b then Some (Inr (ptemp, pt)) else find_target label h pt (t_next t)))"

definition monitor_del_target :: "ptr \<Rightarrow> string option \<Rightarrow> heap \<Rightarrow> (int \<times> heap) res option" where
  "monitor_del_target pm label h =
     (case (pm, label) of
        (Some a, Some l) \<Rightarrow>
          (case bindr (load_monitor pm h) (\<lambda>m. bindr (load_target (m_target m) h) (\<lambda>t. Inr (m, t))) of
             Inl e \<Rightarrow> Some (Inl e)
           | Inr (m, t) \<Rightarrow>
               Option.bind (find_target l h (m_target m) (t_next t)) (\<lambda>r.
                 (case r of
                    Inl e \<Rightarrow> Some (Inl e)
                  | Inr (ptemp, None) \<Rightarrow> Some (Inr (0, h))
                  | Inr (ptemp, Some p) \<Rightarrow>
                      (case bindr (load_target (Some p) h) (\<lambda>t.
                            bindr (upd_target ptemp (\<lambda>u. u\<lparr>t_next := t_next t\<rparr>) h) (\<lambda>h.
                            bindr (upd_target (Some p) (\<lambda>t. t\<lparr>t_next := None\<rparr>) h) (\<lambda>h.
                            upd_monitor pm (\<lambda>m. m\<lparr>m_itarget := m_itarget m - 1\<rparr>) h))) of
                         Inl e \<Rightarrow> Some (Inl e)
                       | Inr h \<Rightarrow>
                           Option.bind (target_destroy (Some p) h) (\<lambda>r.
                             Some (bindr r (\<lambda>h. Inr (0, h))))))))
      | _ \<Rightarrow> Some (Inr (-1, h)))"

text \<open>\<open>memcpy(p, status[_stat], 1)\<close> overwrites the first byte of the value only.\<close>

definition poke_first :: "ptr \<Rightarrow> char \<Rightarrow> heap \<Rightarrow> heap res" where
  "poke_first p c h =
     (case p of
        None \<Rightarrow> Inl Null_deref
      | Some a \<Rightarrow> (case strs h a of
          None \<Rightarrow> Inl Use_after_free
        | Some s \<Rightarrow> if s = [] then Inl Out_of_bounds
                     else Inr (h\<lparr>strs := (strs h)(a \<mapsto> c # tl s)\<rparr>)))"

definition monitor_set_stat :: "ptr \<Rightarrow> int \<Rightarrow> heap \<Rightarrow> (int \<times> heap) res" where
  "monitor_set_stat pm stat h =
     (case pm of
        None \<Rightarrow> Inr (-1, h)
      | Some a \<Rightarrow>
          bindr (load_monitor pm h) (\<lambda>m.
          bindr (load_target (m_target m) h) (\<lambda>t.
          bindr (status stat) (\<lambda>s.
          bindr (poke_first (t_value t) (hd s) h) (\<lambda>h. Inr (0, h))))))"

partial_function (option) monitor_destory :: "ptr \<Rightarrow> heap \<Rightarrow> heap res option" where
  "monitor_destory p h =
     (case p of
        None \<Rightarrow> Some (Inr h)
      | Some a \<Rightarrow>
          (case load_monitor p h of
             Inl e \<Rightarrow> Some (Inl e)
           | Inr m \<Rightarrow>
               Option.bind (monitor_destory (m_next m) h) (\<lambda>r.
                 (case bindr r (\<lambda>h.
                       bindr (upd_monitor p (\<lambda>m. m\<lparr>m_next := None\<rparr>) h) (\<lambda>h.
                       bindr (load_monitor p h) (\<lambda>m.
                       bindr (free_str (m_label m) h) (\<lambda>h.
                       bindr (upd_monitor p (\<lambda>m. m\<lparr>m_label := None\<rparr>) h) (\<lambda>h.
                       bindr (load_monitor p h) (\<lambda>m. Inr (m, h))))))) of
                    Inl e \<Rightarrow> Some (Inl e)
                  | Inr (m, h) \<Rightarrow>
                      Option.bind (target_destroy (m_target m) h) (\<lambda>r.
                        Some (bindr r (\<lambda>h.
                          bindr (upd_monitor p (\<lambda>m. m\<lparr>m_target := None\<rparr>) h) (\<lambda>h.
                            Inr (h\<lparr>mons := (mons h)(a := None)\<rparr>)))))))))"

section \<open>Devices\<close>

definition device_new :: "string option \<Rightarrow> string option \<Rightarrow> heap \<Rightarrow> (ptr \<times> heap) res" where
  "device_new ip label h =
     (case (label, ip) of
        (Some l, Some i) \<Rightarrow>
          (case new_device h of
             (None, h) \<Rightarrow> Inr (None, h)
           | (Some pd, h) \<Rightarrow>
               (case strdup l h of (dl, h) \<Rightarrow>
               (case strdup i h of (di, h) \<Rightarrow>
                 bindr (upd_device (Some pd) (\<lambda>d. d\<lparr>d_label := dl, d_ip := di, d_monitor := None,
                   d_curmon := None, d_imonitor := 0\<rparr>) h) (\<lambda>h.
                   Inr (Some pd, h)))))
      | _ \<Rightarrow> Inr (None, h))"

definition device_add_monitor :: "ptr \<Rightarrow> ptr \<Rightarrow> heap \<Rightarrow> (int \<times> heap) res" where
  "device_add_monitor pd pm h =
     (if pd = None \<or> pm = None then Inr (-1, h)
      else
        bindr (upd_monitor pm (\<lambda>m. m\<lparr>m_pd := Some pd\<rparr>) h) (\<lambda>h.
        bindr (load_device pd h) (\<lambda>d.
        bindr (if d_monitor d = None then upd_device pd (\<lambda>d. d\<lparr>d_monitor := pm\<rparr>) h
               else upd_monitor (d_curmon d) (\<lambda>m. m\<lparr>m_next := pm\<rparr>) h) (\<lambda>h.
        bindr (upd_device pd (\<lambda>d. d\<lparr>d_curmon := pm, d_imonitor := d_imonitor d + 1\<rparr>) h) (\<lambda>h.
          Inr (0, h))))))"

partial_function (option) find_monitor ::
  "string \<Rightarrow> heap \<Rightarrow> ptr \<Rightarrow> ptr \<Rightarrow> (ptr \<times> ptr) res option" where
  "find_monitor label h ptemp pm =
     (case pm of
        None \<Rightarrow> Some (Inr (ptemp, None))
      | Some a \<Rightarrow>
          (case bindr (load_monitor pm h) (\<lambda>m.
                  bindr (strcmp_eq (m_label m) label h) (\<lambda>b. Inr (m, b))) of
             Inl e \<Rightarrow> Some (Inl e)
           | Inr (m, b) \<Rightarrow>
               if b then Some (Inr (ptemp, pm)) else find_monitor label h pm (m_next m)))"

definition device_del_monitor :: "ptr \<Rightarrow> string option \<Rightarrow> heap \<Rightarrow> (int \<times> heap) res option" where
  "device_del_monitor pd label h =
     (case (pd, label) of
        (Some a, Some l) \<Rightarrow>
          (case load_device pd h of
             Inl e \<Rightarrow> Some (Inl e)
           | Inr d \<Rightarrow>
               Option.bind (find_monitor l h None (d_monitor d)) (\<lambda>r.
                 (case r of
                    Inl e \<Rightarrow> Some (Inl e)
                  | Inr (ptemp, None) \<Rightarrow> Some (Inr (0, h))
                  | Inr (ptemp, Some p) \<Rightarrow>
                      (case bindr (load_monitor (Some p) h) (\<lambda>m.
                            bindr (if ptemp = None
                                   then upd_device pd (\<lambda>d. d\<lparr>d_monitor := m_next m\<rparr>) h
                                   else upd_monitor ptemp (\<lambda>u. u\<lparr>m_next := m_next m\<rparr>) h) (\<lambda>h.
                            bindr (upd_device pd (\<lambda>d. d\<lparr>d_imonitor := d_imonitor d - 1\<rparr>) h) (\<lambda>h.
                            upd_monitor (Some p) (\<lambda>m. m\<lparr>m_next := None\<rparr>) h))) of
                         Inl e \<Rightarrow> Some (Inl e)
                       | Inr h \<Rightarrow>
                           Option.bind (monitor_destory (Some p) h) (\<lambda>r.
                             Some (bindr r (\<lambda>h. Inr (0, h))))))))
      | _ \<Rightarrow> Some (Inr (-1, h)))"

definition device_destory :: "ptr \<Rightarrow> heap \<Rightarrow> heap res option" where
  "device_destory p h =
     (case p of
        None \<Rightarrow> Some (Inr h)
      | Some a \<Rightarrow>
          (case bindr (load_device p h) (\<lambda>d.
                bindr (free_str (d_label d) h) (\<lambda>h.
                bindr (upd_device p (\<lambda>d. d\<lparr>d_label := None\<rparr>) h) (\<lambda>h.
                bindr (free_str (d_ip d) h) (\<lambda>h.
                bindr (upd_device p (\<lambda>d. d\<lparr>d_ip := None\<rparr>) h) (\<lambda>h.
                bindr (load_device p h) (\<lambda>d. Inr (d, h))))))) of
             Inl e \<Rightarrow> Some (Inl e)
           | Inr (d, h) \<Rightarrow>
               Option.bind (monitor_destory (d_monitor d) h) (\<lambda>r.
                 Some (bindr r (\<lambda>h.
                   bindr (upd_device p (\<lambda>d. d\<lparr>d_monitor := None\<rparr>) h) (\<lambda>h.
                     Inr (h\<lparr>devs := (devs h)(a := None)\<rparr>)))))))"

section \<open>The lists on the heap\<close>

definition put_tgt :: "nat \<Rightarrow> target option \<Rightarrow> heap \<Rightarrow> heap" where
  "put_tgt a v h = h\<lparr>tgts := (tgts h)(a := v)\<rparr>"

definition put_mon :: "nat \<Rightarrow> monitor option \<Rightarrow> heap \<Rightarrow> heap" where
  "put_mon a v h = h\<lparr>mons := (mons h)(a := v)\<rparr>"

interpretation tlist: linked tgts put_tgt t_next "\<lambda>q t. t\<lparr>t_next := q\<rparr>"
  by unfold_locales (auto simp: put_tgt_def)

interpretation mlist: linked mons put_mon m_next "\<lambda>q m. m\<lparr>m_next := q\<rparr>"
  by unfold_locales (auto simp: put_mon_def)

lemma load_simps [heap_simps]:
  "load_target None h = Inl Null_deref" "load_monitor None h = Inl Null_deref"
  "load_device None h = Inl Null_deref"
  "tgts h a = Some t \<Longrightarrow> load_target (Some a) h = Inr t"
  "mons h a = Some m \<Longrightarrow> load_monitor (Some a) h = Inr m"
  "devs h a = Some d \<Longrightarrow> load_device (Some a) h = Inr d"
  "tgts h a = None \<Longrightarrow> load_target (Some a) h = Inl Use_after_free"
  "mons h a = None \<Longrightarrow> load_monitor (Some a) h = Inl Use_after_free"
  "devs h a = None \<Longrightarrow> load_device (Some a) h = Inl Use_after_free"
  by (simp_all add: load_target_def load_monitor_def load_device_def)

lemma upd_simps [heap_simps]:
  "tgts h a = Some t \<Longrightarrow> upd_target (Some a) f h = Inr (put_tgt a (Some (f t)) h)"
  "mons h a = Some m \<Longrightarrow> upd_monitor (Some a) g h = Inr (put_mon a (Some (g m)) h)"
  "devs h a = Some d \<Longrightarrow> upd_device (Some a) k h = Inr (h\<lparr>devs := (devs h)(a \<mapsto> k d)\<rparr>)"
  "tgts h a = None \<Longrightarrow> upd_target (Some a) f h = Inl Use_after_free"
  "mons h a = None \<Longrightarrow> upd_monitor (Some a) g h = Inl Use_after_free"
  by (simp_all add: upd_target_def upd_monitor_def upd_device_def load_simps put_tgt_def put_mon_def)

lemma put_simps [simp]:
  "tgts (put_tgt a v h) = (tgts h)(a := v)" "strs (put_tgt a v h) = strs h"
  "mons (put_tgt a v h) = mons h" "devs (put_tgt a v h) = devs h"
  "fresh (put_tgt a v h) = fresh h" "fails (put_tgt a v h) = fails h"
  "mons (put_mon a w h) = (mons h)(a := w)" "strs (put_mon a w h) = strs h"
  "tgts (put_mon a w h) = tgts h" "devs (put_mon a w h) = devs h"
  "fresh (put_mon a w h) = fresh h" "fails (put_mon a w h) = fails h"
  by (simp_all add: put_tgt_def put_mon_def)

section \<open>Destruction\<close>

text \<open>The string blocks a target, a list of targets, a monitor and a list of monitors own.\<close>

definition opt_list :: "'a option \<Rightarrow> 'a list" where
  "opt_list p = (case p of None \<Rightarrow> [] | Some a \<Rightarrow> [a])"

definition tstrs :: "target \<Rightarrow> nat list" where
  "tstrs t = opt_list (t_label t) @ opt_list (t_value t) @ opt_list (t_unit t)"

definition tlstrs :: "(nat \<times> target) list \<Rightarrow> nat list" where
  "tlstrs ts = concat (map (tstrs \<circ> snd) ts)"

definition remove_strs :: "nat list \<Rightarrow> heap \<Rightarrow> heap" where
  "remove_strs as h = h\<lparr>strs := strs h |` (- set as)\<rparr>"

definition remove_tgts :: "nat list \<Rightarrow> heap \<Rightarrow> heap" where
  "remove_tgts as h = h\<lparr>tgts := tgts h |` (- set as)\<rparr>"

definition remove_mons :: "nat list \<Rightarrow> heap \<Rightarrow> heap" where
  "remove_mons as h = h\<lparr>mons := mons h |` (- set as)\<rparr>"

lemma free_str_opt:
  "set (opt_list p) \<subseteq> dom (strs h) \<Longrightarrow> free_str p h = Inr (remove_strs (opt_list p) h)"
  by (cases p) (auto simp: free_str_def opt_list_def remove_strs_def restrict_map_def fun_eq_iff
      intro!: heap.equality)

lemma remove_simps [simp]:
  "strs (remove_strs as h) = strs h |` (- set as)" "tgts (remove_strs as h) = tgts h"
  "mons (remove_strs as h) = mons h" "devs (remove_strs as h) = devs h"
  "tgts (remove_tgts bs h) = tgts h |` (- set bs)" "strs (remove_tgts bs h) = strs h"
  "mons (remove_tgts bs h) = mons h" "devs (remove_tgts bs h) = devs h"
  "mons (remove_mons cs h) = mons h |` (- set cs)" "strs (remove_mons cs h) = strs h"
  "tgts (remove_mons cs h) = tgts h" "devs (remove_mons cs h) = devs h"
  by (simp_all add: remove_strs_def remove_tgts_def remove_mons_def)

lemma heap_eqI:
  assumes "strs h = strs g" "tgts h = tgts g" "mons h = mons g" "devs h = devs g"
    "fresh h = fresh g" "fails h = fails g"
  shows "h = (g :: heap)"
  using assms by (intro heap.equality) auto

lemma remove_fresh [simp]:
  "fresh (remove_strs as h) = fresh h" "fails (remove_strs as h) = fails h"
  "fresh (remove_tgts as h) = fresh h" "fails (remove_tgts as h) = fails h"
  "fresh (remove_mons as h) = fresh h" "fails (remove_mons as h) = fails h"
  by (simp_all add: remove_strs_def remove_tgts_def remove_mons_def)

lemma free_target_ok:
  assumes "tgts h a = Some t" "distinct (tstrs t)" "set (tstrs t) \<subseteq> dom (strs h)"
  shows "free_target a h = Inr (remove_tgts [a] (remove_strs (tstrs t) h))"
proof -
  let ?l = "opt_list (t_label t)" and ?v = "opt_list (t_value t)" and ?u = "opt_list (t_unit t)"
  have s: "set ?l \<subseteq> dom (strs h)" "set ?v \<subseteq> dom (strs h |` (- set ?l))"
    "set ?u \<subseteq> dom (strs h |` (- set ?l) |` (- set ?v))"
    using assms(2,3) by (auto simp: tstrs_def)
  show ?thesis
    using s assms(1)
    by (simp add: free_target_def heap_simps free_str_opt)
      (auto intro!: heap_eqI simp: tstrs_def restrict_map_def fun_eq_iff)
qed

lemma target_destroy_None [simp]: "target_destroy None h = Some (Inr h)"
  by (simp add: target_destroy.simps)

lemma target_destroy_ok:
  assumes "tlist.chain h p ts" "distinct (tlstrs ts)" "set (tlstrs ts) \<subseteq> dom (strs h)"
  shows "target_destroy p h = Some (Inr (remove_tgts (map fst ts) (remove_strs (tlstrs ts) h)))"
  using assms
proof (induction ts arbitrary: p)
  case Nil
  then show ?case
    by (auto simp: tlstrs_def intro!: heap_eqI)
next
  case (Cons x ts)
  obtain a t where x: "x = (a, t)" by (cases x)
  have c: "p = Some a" "tgts h a = Some t" "tlist.chain h (t_next t) ts" using Cons.prems x by auto
  have a: "a \<notin> fst ` set ts" using tlist.chain_distinct [OF Cons.prems(1)] x by simp
  have s: "tlstrs (x # ts) = tstrs t @ tlstrs ts" by (simp add: tlstrs_def x)
  let ?g = "remove_tgts (map fst ts) (remove_strs (tlstrs ts) h)"
  let ?g' = "put_tgt a (Some (t\<lparr>t_next := None\<rparr>)) ?g"
  have g: "target_destroy (t_next t) h = Some (Inr ?g)"
    using Cons.IH [OF c(3)] Cons.prems(2,3) s by simp
  have ga: "tgts ?g a = Some t" using c(2) a by (simp add: restrict_map_def)
  have "free_target a ?g' = Inr (remove_tgts [a] (remove_strs (tstrs (t\<lparr>t_next := None\<rparr>)) ?g'))"
    using Cons.prems(2,3) s by (intro free_target_ok) (auto simp: tstrs_def)
  then show ?case
    using c g ga s
    by (subst target_destroy.simps)
      (auto simp: heap_simps x tstrs_def intro!: heap_eqI simp: restrict_map_def fun_eq_iff)
qed

text \<open>A list of monitors with the targets of each.\<close>

type_synonym mnode = "nat \<times> monitor \<times> (nat \<times> target) list"

definition mons_of :: "mnode list \<Rightarrow> (nat \<times> monitor) list" where
  "mons_of ms = map (\<lambda>(a, m, ts). (a, m)) ms"

definition mstrs :: "mnode \<Rightarrow> nat list" where
  "mstrs x = (case x of (a, m, ts) \<Rightarrow> opt_list (m_label m) @ tlstrs ts)"

definition mlstrs :: "mnode list \<Rightarrow> nat list" where
  "mlstrs ms = concat (map mstrs ms)"

definition mltgts :: "mnode list \<Rightarrow> nat list" where
  "mltgts ms = concat (map (\<lambda>(a, m, ts). map fst ts) ms)"

definition mchain :: "heap \<Rightarrow> ptr \<Rightarrow> mnode list \<Rightarrow> bool" where
  "mchain h p ms = (mlist.chain h p (mons_of ms) \<and>
     (\<forall>(a, m, ts) \<in> set ms. tlist.chain h (m_target m) ts))"

lemma mchain_Cons:
  "mchain h p ((a, m, ts) # ms) \<longleftrightarrow>
     p = Some a \<and> mons h a = Some m \<and> tlist.chain h (m_target m) ts \<and> mchain h (m_next m) ms"
  by (auto simp: mchain_def mons_of_def)

lemma mchain_Nil [simp]: "mchain h p [] \<longleftrightarrow> p = None"
  by (simp add: mchain_def mons_of_def)

definition remove_all :: "mnode list \<Rightarrow> heap \<Rightarrow> heap" where
  "remove_all ms h = remove_mons (map fst ms) (remove_tgts (mltgts ms) (remove_strs (mlstrs ms) h))"

lemma monitor_destory_None [simp]: "monitor_destory None h = Some (Inr h)"
  by (simp add: monitor_destory.simps)

lemma monitor_destory_ok:
  assumes "mchain h p ms" "distinct (mltgts ms)" "distinct (mlstrs ms)" "set (mlstrs ms) \<subseteq> dom (strs h)"
  shows "monitor_destory p h = Some (Inr (remove_all ms h))"
  using assms
proof (induction ms arbitrary: p)
  case Nil
  then show ?case by (auto simp: remove_all_def mlstrs_def mltgts_def intro!: heap_eqI)
next
  case (Cons x ms)
  obtain a m ts where x: "x = (a, m, ts)" by (cases x)
  have c: "p = Some a" "mons h a = Some m" "tlist.chain h (m_target m) ts" "mchain h (m_next m) ms"
    using Cons.prems(1) x by (auto simp: mchain_Cons)
  have a: "a \<notin> fst ` set ms"
    using mlist.chain_distinct [of h p "mons_of (x # ms)"] Cons.prems(1) x
    by (auto simp: mchain_def mons_of_def comp_def case_prod_unfold)
  have s: "mlstrs ((a, m, ts) # ms) = opt_list (m_label m) @ tlstrs ts @ mlstrs ms"
    "mltgts ((a, m, ts) # ms) = map fst ts @ mltgts ms" by (simp_all add: mlstrs_def mltgts_def mstrs_def)
  note prems = Cons.prems [unfolded x]
  let ?g = "remove_all ms h"
  let ?g1 = "remove_strs (opt_list (m_label m)) (put_mon a (Some (m\<lparr>m_next := None\<rparr>)) ?g)"
  let ?g2 = "put_mon a (Some (m\<lparr>m_next := None, m_label := None\<rparr>)) ?g1"
  have g: "monitor_destory (m_next m) h = Some (Inr ?g)"
    using Cons.IH [OF c(4)] prems(2-4) s by simp
  have ga: "mons ?g a = Some m" using c(2) a by (simp add: remove_all_def restrict_map_def)
  have fl: "free_str (m_label m) (put_mon a (Some (m\<lparr>m_next := None\<rparr>)) ?g) = Inr ?g1"
    using prems(3,4) s by (intro free_str_opt) (auto simp: remove_all_def)
  have "tlist.chain ?g2 (m_target m) ts"
  proof -
    have "fst ` set ts \<inter> set (mltgts ms) = {}" using prems(2) s by auto
    then show ?thesis
      using c(3) by (subst tlist.chain_cong [of ts _ h]) (auto simp: remove_all_def restrict_map_def)
  qed
  then have td: "target_destroy (m_target m) ?g2 =
      Some (Inr (remove_tgts (map fst ts) (remove_strs (tlstrs ts) ?g2)))"
    using prems(3,4) s by (intro target_destroy_ok) (auto simp: remove_all_def)
  show ?case
    using c(1,2) g ga fl td
    by (subst monitor_destory.simps)
      (auto simp: heap_simps x s remove_all_def intro!: heap_eqI simp: restrict_map_def fun_eq_iff)
qed

text \<open>A device with its monitors: everything the device owns, each block once.\<close>

definition dstrs :: "device \<Rightarrow> mnode list \<Rightarrow> nat list" where
  "dstrs d ms = opt_list (d_label d) @ opt_list (d_ip d) @ mlstrs ms"

definition dev_shape :: "heap \<Rightarrow> nat \<Rightarrow> device \<Rightarrow> mnode list \<Rightarrow> bool" where
  "dev_shape h a d ms = (devs h a = Some d \<and> mchain h (d_monitor d) ms \<and>
     distinct (mltgts ms) \<and> distinct (dstrs d ms) \<and> set (dstrs d ms) \<subseteq> dom (strs h))"

text \<open>C8: device_destory of a device whose lists end returns, frees every string, target and monitor
  reachable from the device and the device itself exactly once, and leaves every other block as it
  was.\<close>

theorem device_destory_frees_all:
  assumes "dev_shape h a d ms"
  shows "device_destory (Some a) h = Some (Inr (h\<lparr>
    strs := strs h |` (- set (dstrs d ms)), tgts := tgts h |` (- set (mltgts ms)),
    mons := mons h |` (- fst ` set ms), devs := (devs h)(a := None)\<rparr>))"
proof -
  have d: "devs h a = Some d" and c: "mchain h (d_monitor d) ms"
    and s: "distinct (dstrs d ms)" "set (dstrs d ms) \<subseteq> dom (strs h)" "distinct (mltgts ms)"
    using assms by (auto simp: dev_shape_def)
  let ?g1 = "(remove_strs (opt_list (d_label d)) h)\<lparr>devs := (devs h)(a \<mapsto> d\<lparr>d_label := None\<rparr>)\<rparr>"
  let ?g2 = "(remove_strs (opt_list (d_ip d)) ?g1)\<lparr>devs := (devs h)(a \<mapsto> d\<lparr>d_label := None, d_ip := None\<rparr>)\<rparr>"
  have f1: "free_str (d_label d) h = Inr (remove_strs (opt_list (d_label d)) h)"
    using s by (intro free_str_opt) (auto simp: dstrs_def)
  have f2: "free_str (d_ip d) ?g1 = Inr (remove_strs (opt_list (d_ip d)) ?g1)"
    using s by (intro free_str_opt) (auto simp: dstrs_def)
  have "mchain ?g2 (d_monitor d) ms"
    using c tlist.chain_cong [of _ ?g2 h] mlist.chain_cong [of _ ?g2 h]
    by (auto simp: mchain_def)
  then have "monitor_destory (d_monitor d) ?g2 = Some (Inr (remove_all ms ?g2))"
    using s by (intro monitor_destory_ok) (auto simp: dstrs_def)
  then show ?thesis
    using d f1 f2
    by (auto simp: device_destory_def heap_simps remove_all_def dstrs_def restrict_map_def fun_eq_iff
        intro!: heap_eqI)
qed

section \<open>Monitors as lists\<close>

definition heap_ok :: "heap \<Rightarrow> bool" where
  "heap_ok h = (dom (strs h) \<subseteq> {..<fresh h} \<and> dom (tgts h) \<subseteq> {..<fresh h} \<and>
     dom (mons h) \<subseteq> {..<fresh h} \<and> dom (devs h) \<subseteq> {..<fresh h})"

lemma below_mono: "A \<subseteq> {..<n} \<Longrightarrow> n \<le> k \<Longrightarrow> A \<subseteq> {..<k :: nat}"
  by auto

lemma heap_okD:
  "heap_ok h \<Longrightarrow> strs h a = Some s \<Longrightarrow> a < fresh h" "heap_ok h \<Longrightarrow> tgts h a = Some t \<Longrightarrow> a < fresh h"
  "heap_ok h \<Longrightarrow> mons h a = Some m \<Longrightarrow> a < fresh h" "heap_ok h \<Longrightarrow> devs h a = Some d \<Longrightarrow> a < fresh h"
  by (auto simp: heap_ok_def)

text \<open>The C string a pointer denotes, and what a target shows: label, value, unit and type.\<close>

definition str :: "heap \<Rightarrow> ptr \<Rightarrow> string option" where
  "str h p = (case p of None \<Rightarrow> None | Some a \<Rightarrow> map_option cstr (strs h a))"

type_synonym tview = "string option \<times> string option \<times> string option \<times> int"

definition tview :: "heap \<Rightarrow> target \<Rightarrow> tview" where
  "tview h t = (str h (t_label t), str h (t_value t), str h (t_unit t), t_type t)"

definition str_ok :: "heap \<Rightarrow> nat \<Rightarrow> bool" where
  "str_ok h a = (case strs h a of None \<Rightarrow> False | Some s \<Rightarrow> NUL \<in> set s)"

definition tgt_ok :: "target \<Rightarrow> bool" where
  "tgt_ok t = (t_label t \<noteq> None \<and> t_value t \<noteq> None)"

definition mon_shape :: "heap \<Rightarrow> nat \<Rightarrow> monitor \<Rightarrow> (nat \<times> target) list \<Rightarrow> bool" where
  "mon_shape h a m ts = (mons h a = Some m \<and> tlist.chain h (m_target m) ts \<and>
     distinct (opt_list (m_label m) @ tlstrs ts) \<and>
     (\<forall>s \<in> set (opt_list (m_label m) @ tlstrs ts). str_ok h s) \<and>
     (\<forall>(b, t) \<in> set ts. tgt_ok t) \<and> m_itarget m = of_nat (length ts))"

text \<open>The monitor at \<open>a\<close> has this label and shows these targets; its \<open>_cru\<close> points to the last.\<close>

definition monitor_is :: "heap \<Rightarrow> nat \<Rightarrow> string option \<Rightarrow> tview list \<Rightarrow> bool" where
  "monitor_is h a lbl vs = (heap_ok h \<and> (\<exists>m ts. mon_shape h a m ts \<and> ts \<noteq> [] \<and>
     m_cru m = Some (fst (last ts)) \<and> str h (m_label m) = lbl \<and> map (\<lambda>(b, t). tview h t) ts = vs))"

lemma monitor_isI:
  assumes "heap_ok h" "mon_shape h a m ts" "ts \<noteq> []" "m_cru m = Some (fst (last ts))"
    "str h (m_label m) = lbl" "map (\<lambda>(b, t). tview h t) ts = vs"
  shows "monitor_is h a lbl vs"
  using assms unfolding monitor_is_def by blast

lemma tlstrs_simps [simp]:
  "tlstrs [] = []" "tlstrs ((b, t) # ts) = tstrs t @ tlstrs ts"
  "tlstrs (xs @ ys) = tlstrs xs @ tlstrs ys"
  by (simp_all add: tlstrs_def)

lemma tstrs_next [simp]: "tstrs (t\<lparr>t_next := q\<rparr>) = tstrs t" "tview h (t\<lparr>t_next := q\<rparr>) = tview h t"
  "tgt_ok (t\<lparr>t_next := q\<rparr>) = tgt_ok t"
  by (simp_all add: tstrs_def tview_def tgt_ok_def)

lemma str_cong: "(\<And>a. a \<in> set (opt_list p) \<Longrightarrow> strs h' a = strs h a) \<Longrightarrow> str h' p = str h p"
  by (cases p) (auto simp: str_def opt_list_def)

lemma tview_cong: "(\<And>a. a \<in> set (tstrs t) \<Longrightarrow> strs h' a = strs h a) \<Longrightarrow> tview h' t = tview h t"
  by (auto simp: tview_def tstrs_def intro!: str_cong)

lemma tviews_cong:
  "(\<And>a. a \<in> set (tlstrs ts) \<Longrightarrow> strs h' a = strs h a) \<Longrightarrow>
     map (\<lambda>(b, t). tview h' t) ts = map (\<lambda>(b, t). tview h t) ts"
  by (rule map_cong) (force simp: tlstrs_def intro!: tview_cong)+

lemma str_ok_cong: "strs h' a = strs h a \<Longrightarrow> str_ok h' a = str_ok h a"
  by (simp add: str_ok_def)

lemma str_ok_dom: "str_ok h a \<Longrightarrow> a \<in> dom (strs h)"
  by (auto simp: str_ok_def split: option.splits)

lemma str_ok_fresh: "heap_ok h \<Longrightarrow> str_ok h a \<Longrightarrow> a < fresh h"
  by (auto dest!: str_ok_dom heap_okD(1))

lemma strcmp_eq_str:
  "str_ok h a \<Longrightarrow> strcmp_eq (Some a) l h = Inr (str h (Some a) = Some (cstr l))"
  by (auto simp: strcmp_eq_def str_ok_def str_def split: option.splits)

lemma chain_tgts: "tgts h' = tgts h \<Longrightarrow> tlist.chain h' p ts = tlist.chain h p ts"
  by (rule tlist.chain_cong) simp

text \<open>Allocations that succeed.\<close>

lemma alloc_simps [heap_simps]:
  assumes "fails h = []"
  shows "new_target h = (Some (fresh h), h\<lparr>fresh := Suc (fresh h), tgts := (tgts h)(fresh h \<mapsto> blank_target)\<rparr>)"
    "new_monitor h = (Some (fresh h), h\<lparr>fresh := Suc (fresh h), mons := (mons h)(fresh h \<mapsto> blank_monitor)\<rparr>)"
    "new_device h = (Some (fresh h), h\<lparr>fresh := Suc (fresh h), devs := (devs h)(fresh h \<mapsto> blank_device)\<rparr>)"
    "strdup s h = (Some (fresh h), h\<lparr>fresh := Suc (fresh h), strs := (strs h)(fresh h \<mapsto> cstr s @ [NUL])\<rparr>)"
  using assms
  by (simp_all add: next_alloc_def new_target_def new_monitor_def new_device_def strdup_def)

lemma status_cases: "status i = Inr s \<Longrightarrow> s = ''0'' \<or> s = ''1'' \<or> s = ''2''"
  by (auto simp: status_def split: if_splits)

lemma monitor_new_is:
  assumes "heap_ok h" "fails h = []" "status stat = Inr s"
  shows "\<exists>h'. monitor_new (Some l) stat h = Inr (Some (fresh h), h') \<and> fails h' = [] \<and>
    monitor_is h' (fresh h) (Some (cstr l)) [(Some XML_PROP_VALUE_WORK_STATUS, Some s, None, 1)]"
proof -
  let ?n = "fresh h"
  let ?t = "\<lparr>t_label = Some (?n + 2), t_unit = None, t_type = 1, t_value = Some (?n + 3),
    t_next = None, t_pm = Some ?n\<rparr>"
  let ?m = "\<lparr>m_stat = stat, m_label = Some (?n + 4), m_target = Some (?n + 1), m_cru = Some (?n + 1),
    m_itarget = 1, m_next = None, m_pd = None\<rparr>"
  let ?h = "h\<lparr>fresh := ?n + 5, tgts := (tgts h)(?n + 1 \<mapsto> ?t), mons := (mons h)(?n \<mapsto> ?m),
    strs := (strs h)(?n + 2 \<mapsto> cstr XML_PROP_VALUE_WORK_STATUS @ [NUL], ?n + 3 \<mapsto> cstr s @ [NUL],
      ?n + 4 \<mapsto> cstr l @ [NUL])\<rparr>"
  have e: "monitor_new (Some l) stat h = Inr (Some ?n, ?h)"
    using assms
    by (simp add: monitor_new_def heap_simps blank_target_def blank_monitor_def DATA_TYPE_INT32_def)
      (auto intro!: heap_eqI)
  have cs: "cstr s = s" "cstr XML_PROP_VALUE_WORK_STATUS = XML_PROP_VALUE_WORK_STATUS"
    using status_cases [OF assms(3)] by (auto simp: cstr_def XML_PROP_VALUE_WORK_STATUS_def)
  have ok: "heap_ok ?h" using assms(1) by (auto simp: heap_ok_def intro: below_mono)
  have shape: "mon_shape ?h ?n ?m [(?n + 1, ?t)]"
    by (auto simp: mon_shape_def tstrs_def opt_list_def str_ok_def tgt_ok_def)
  have "monitor_is ?h ?n (Some (cstr l)) [(Some XML_PROP_VALUE_WORK_STATUS, Some s, None, 1)]"
    by (rule monitor_isI [OF ok shape]) (simp_all add: str_def tview_def cs)
  with e assms(2) show ?thesis by auto
qed

lemma monitor_add_target_is:
  assumes "monitor_is h a lbl vs" "fails h = []"
  shows "\<exists>h'. monitor_add_target (Some a) (Some l) (Some v) (Some u) ty h = Inr (0, h') \<and> fails h' = [] \<and>
    monitor_is h' a lbl (vs @ [(Some (cstr l), Some (cstr v), Some (cstr u), ty)])"
proof -
  obtain m ts where m: "mon_shape h a m ts" "ts \<noteq> []" "m_cru m = Some (fst (last ts))"
    "str h (m_label m) = lbl" "map (\<lambda>(b, t). tview h t) ts = vs" and ok: "heap_ok h"
    using assms(1) by (auto simp: monitor_is_def)
  obtain xs b t where ts: "ts = xs @ [(b, t)]" using m(2) by (metis prod.exhaust rev_exhaust)
  have ma: "mons h a = Some m" and c: "tlist.chain h (m_target m) ts"
    and d: "distinct (opt_list (m_label m) @ tlstrs ts)"
    and so: "\<forall>s \<in> set (opt_list (m_label m) @ tlstrs ts). str_ok h s"
    and tok: "\<forall>(b, t) \<in> set ts. tgt_ok t" and cnt: "m_itarget m = of_nat (length ts)"
    using m(1) by (auto simp: mon_shape_def)
  let ?n = "fresh h"
  have tb: "tgts h b = Some t" using tlist.chain_get [OF c] ts by simp
  have bn: "b < ?n" and an: "a < ?n" using tb ma ok by (auto dest: heap_okD)
  have sn: "\<forall>s \<in> set (opt_list (m_label m) @ tlstrs ts). s < ?n"
    using so str_ok_fresh [OF ok] by blast
  have tn: "\<forall>x \<in> fst ` set ts. x < ?n"
    using tlist.chain_get [OF c] heap_okD(2) [OF ok] by fastforce
  let ?t = "\<lparr>t_label = Some (?n + 1), t_unit = Some (?n + 2), t_type = ty, t_value = Some (?n + 3),
    t_next = None, t_pm = Some a\<rparr>"
  let ?m = "m\<lparr>m_cru := Some ?n, m_itarget := m_itarget m + 1\<rparr>"
  let ?ts = "xs @ [(b, t\<lparr>t_next := Some ?n\<rparr>), (?n, ?t)]"
  let ?h = "h\<lparr>fresh := ?n + 4, tgts := (tgts h)(?n \<mapsto> ?t, b \<mapsto> t\<lparr>t_next := Some ?n\<rparr>),
    mons := (mons h)(a \<mapsto> ?m),
    strs := (strs h)(?n + 1 \<mapsto> cstr l @ [NUL], ?n + 2 \<mapsto> cstr u @ [NUL], ?n + 3 \<mapsto> cstr v @ [NUL])\<rparr>"
  have e: "monitor_add_target (Some a) (Some l) (Some v) (Some u) ty h = Inr (0, ?h)"
    using assms(2) ma m(3) tb bn an ts
    by (simp add: monitor_add_target_def heap_simps blank_target_def) (auto intro!: heap_eqI)
  let ?g = "put_tgt ?n (Some ?t) h"
  have "?n \<notin> fst ` set ts" using tn by auto
  then have "tlist.chain ?g (m_target m) (xs @ (b, t) # [])"
    using c ts tlist.chain_put_other [of ?n ts] by simp
  then have "tlist.chain (put_tgt b (Some (t\<lparr>t_next := Some ?n\<rparr>)) ?g) (m_target m)
      (xs @ (b, t\<lparr>t_next := Some ?n\<rparr>) # [(?n, ?t)])"
    using bn by (intro tlist.chain_relink) auto
  then have chain: "tlist.chain ?h (m_target m) ?ts"
    by (subst chain_tgts [of _ "put_tgt b (Some (t\<lparr>t_next := Some ?n\<rparr>)) ?g"]) auto
  have same: "strs ?h s = strs h s" if "s < ?n" for s using that by simp
  have tk: "tgt_ok ?t" by (simp add: tgt_ok_def)
  have nt: "tstrs ?t = [?n + 1, ?n + 3, ?n + 2]" by (simp add: tstrs_def opt_list_def)
  have tl: "tlstrs ?ts = tlstrs ts @ [?n + 1, ?n + 3, ?n + 2]"
    using nt by (simp add: ts)
  have new: "?n + k \<notin> set (opt_list (m_label m) @ tlstrs ts)" for k
    using sn by fastforce
  have "mon_shape ?h a ?m ?ts"
    unfolding mon_shape_def
  proof (intro conjI)
    show "distinct (opt_list (m_label ?m) @ tlstrs ?ts)"
      unfolding tl using d new [of 1] new [of 2] new [of 3] by simp
    show "\<forall>s \<in> set (opt_list (m_label ?m) @ tlstrs ?ts). str_ok ?h s"
    proof
      fix s assume "s \<in> set (opt_list (m_label ?m) @ tlstrs ?ts)"
      then consider "s \<in> set (opt_list (m_label m) @ tlstrs ts)" | "s \<in> {?n + 1, ?n + 2, ?n + 3}"
        unfolding tl by auto
      then show "str_ok ?h s"
      proof cases
        case 1
        then show ?thesis using so sn same str_ok_cong [of ?h s h] by blast
      qed (auto simp: str_ok_def)
    qed
  qed (use chain tok cnt ts tk in \<open>simp_all\<close>)
  moreover have ok': "heap_ok ?h" using ok bn an by (auto simp: heap_ok_def intro: below_mono)
  moreover have "str ?h (m_label ?m) = lbl"
  proof -
    have "str ?h (m_label m) = str h (m_label m)"
      by (rule str_cong, rule same) (use sn in simp)
    then show ?thesis using m(4) by simp
  qed
  moreover have "map (\<lambda>(b, t). tview ?h t) ?ts =
      vs @ [(Some (cstr l), Some (cstr v), Some (cstr u), ty)]"
  proof -
    have "map (\<lambda>(b, t). tview ?h t) ts = vs"
      unfolding m(5) [symmetric] by (rule tviews_cong, rule same) (use sn in simp)
    moreover have "tview ?h ?t = (Some (cstr l), Some (cstr v), Some (cstr u), ty)"
      by (simp add: tview_def str_def)
    ultimately show ?thesis using ts by simp
  qed
  ultimately have "monitor_is ?h a lbl (vs @ [(Some (cstr l), Some (cstr v), Some (cstr u), ty)])"
    by (intro monitor_isI [of ?h a ?m ?ts]) simp_all
  with e assms(2) show ?thesis by auto
qed

lemma find_target_step:
  assumes "tgts h a = Some t" "t_label t = Some x" "str_ok h x"
  shows "find_target l h pa (Some a) =
    (if str h (t_label t) = Some (cstr l) then Some (Inr (pa, Some a))
     else find_target l h (Some a) (t_next t))"
  using assms by (subst find_target.simps) (simp add: heap_simps strcmp_eq_str)

lemma find_target_None [simp]: "find_target l h pa None = Some (Inr (pa, None))"
  by (simp add: find_target.simps)

definition misses :: "heap \<Rightarrow> string \<Rightarrow> (nat \<times> target) list \<Rightarrow> bool" where
  "misses h l ts = (\<forall>(b, t) \<in> set ts. str h (t_label t) \<noteq> Some (cstr l))"

definition labels_ok :: "heap \<Rightarrow> (nat \<times> target) list \<Rightarrow> bool" where
  "labels_ok h ts = (\<forall>(b, t) \<in> set ts. \<exists>x. t_label t = Some x \<and> str_ok h x)"

lemma find_target_misses:
  assumes "tlist.chain h p ts" "labels_ok h ts" "misses h l ts"
  shows "\<exists>q. find_target l h pa p = Some (Inr (q, None))"
  using assms
proof (induction ts arbitrary: p pa)
  case (Cons x ts)
  then show ?case by (cases x) (auto simp: find_target_step misses_def labels_ok_def)
qed simp

lemma find_target_hit:
  assumes "tlist.chain h p (ys @ (b, t) # zs)" "labels_ok h (ys @ [(b, t)])" "misses h l ys"
    "str h (t_label t) = Some (cstr l)"
  shows "find_target l h pa p = Some (Inr (if ys = [] then pa else Some (fst (last ys)), Some b))"
  using assms
proof (induction ys arbitrary: p pa)
  case Nil
  then show ?case by (auto simp: find_target_step labels_ok_def)
next
  case (Cons x ys)
  then show ?case by (cases x) (auto simp: find_target_step misses_def labels_ok_def)
qed

lemma mon_shape_labels: "mon_shape h a m ts \<Longrightarrow> labels_ok h ts"
  by (fastforce simp: mon_shape_def labels_ok_def tgt_ok_def tlstrs_def tstrs_def opt_list_def)

lemma destroy_one:
  assumes "tgts h b = Some t" "t_next t = None" "distinct (tstrs t)" "set (tstrs t) \<subseteq> dom (strs h)"
  shows "target_destroy (Some b) h = Some (Inr (remove_tgts [b] (remove_strs (tstrs t) h)))"
  using target_destroy_ok [of h "Some b" "[(b, t)]"] assms by simp

text \<open>What deleting one target does, whether or not it is the last one.\<close>

lemma monitor_del_hit:
  assumes "mon_shape h a m (ps @ (c, u) # (b, t) # zs)" "heap_ok h"
    and "misses h l (tl (ps @ [(c, u)]))" "str h (t_label t) = Some (cstr l)"
  defines "m' \<equiv> m\<lparr>m_itarget := m_itarget m - 1\<rparr>"
  shows "\<exists>h'. monitor_del_target (Some a) (Some l) h = Some (Inr (0, h')) \<and> heap_ok h' \<and>
    fails h' = fails h \<and> fresh h' = fresh h \<and> mon_shape h' a m' (ps @ (c, u\<lparr>t_next := t_next t\<rparr>) # zs) \<and>
    tgts h' b = None \<and> strs h' = strs h |` (- set (tstrs t))"
proof -
  let ?ts = "ps @ (c, u) # (b, t) # zs"
  have ma: "mons h a = Some m" and c: "tlist.chain h (m_target m) ?ts"
    and d: "distinct (opt_list (m_label m) @ tlstrs ?ts)"
    and so: "\<forall>s \<in> set (opt_list (m_label m) @ tlstrs ?ts). str_ok h s"
    and tok: "\<forall>(b, t) \<in> set ?ts. tgt_ok t" and cnt: "m_itarget m = of_nat (length ?ts)"
    using assms(1) by (auto simp: mon_shape_def)
  have dt: "distinct (map fst ?ts)" using c by (rule tlist.chain_distinct)
  have get: "tgts h c = Some u" "tgts h b = Some t" using tlist.chain_get [OF c] by auto
  obtain b0 t0 ys where hd: "ps @ [(c, u)] = (b0, t0) # ys" by (cases ps) auto
  then have ts: "?ts = (b0, t0) # ys @ (b, t) # zs"
    by (metis append_Cons append_assoc append_Nil)
  have pred: "(if ys = [] then Some b0 else Some (fst (last ys))) = Some c"
    using hd by (cases ys rule: rev_cases) auto
  have lab: "labels_ok h (ys @ [(b, t)])"
    using mon_shape_labels [OF assms(1)] ts by (auto simp: labels_ok_def)
  have first: "m_target m = Some b0" "tgts h b0 = Some t0" "tlist.chain h (t_next t0) (ys @ (b, t) # zs)"
    using c unfolding ts by auto
  have find: "find_target l h (m_target m) (t_next t0) = Some (Inr (Some c, Some b))"
    using find_target_hit [OF first(3) lab _ assms(4), of "m_target m"] assms(3) hd pred first(1)
    by (auto split: if_splits)
  let ?g = "put_mon a (Some m') (put_tgt b (Some (t\<lparr>t_next := None\<rparr>))
      (put_tgt c (Some (u\<lparr>t_next := t_next t\<rparr>)) h))"
  let ?h = "remove_tgts [b] (remove_strs (tstrs t) ?g)"
  have cb: "c \<noteq> b" using dt by auto
  have "target_destroy (Some b) ?g =
      Some (Inr (remove_tgts [b] (remove_strs (tstrs (t\<lparr>t_next := None\<rparr>)) ?g)))"
    using d so str_ok_dom by (intro destroy_one) auto
  then have e: "monitor_del_target (Some a) (Some l) h = Some (Inr (0, ?h))"
    using ma first find get cb by (simp add: monitor_del_target_def heap_simps m'_def)
  have "tlist.chain (put_tgt c (Some (u\<lparr>t_next := t_next t\<rparr>)) h) (m_target m)
      (ps @ (c, u\<lparr>t_next := t_next t\<rparr>) # zs)"
    using c dt tlist.chain_append_next [of h _ "ps @ [(c, u)]" b t zs]
    by (intro tlist.chain_relink) auto
  then have "tlist.chain ?h (m_target m) (ps @ (c, u\<lparr>t_next := t_next t\<rparr>) # zs)"
    by (subst tlist.chain_cong) (use dt cb in \<open>auto simp: restrict_map_def\<close>)
  moreover have "\<forall>s \<in> set (opt_list (m_label m) @ tlstrs (ps @ (c, u) # zs)). str_ok ?h s"
  proof
    fix s assume s: "s \<in> set (opt_list (m_label m) @ tlstrs (ps @ (c, u) # zs))"
    then have "s \<notin> set (tstrs t)" using d by auto
    then have "str_ok ?h s = str_ok h s" by (intro str_ok_cong) simp
    then show "str_ok ?h s" using so s by auto
  qed
  ultimately have "mon_shape ?h a m' (ps @ (c, u\<lparr>t_next := t_next t\<rparr>) # zs)"
    using d tok cnt by (auto simp: mon_shape_def m'_def)
  moreover have "heap_ok ?h"
    using assms(2) heap_okD [OF assms(2)] ma get
    by (auto simp: heap_ok_def restrict_map_def dom_def split: if_splits)
  ultimately show ?thesis using e by (intro exI [of _ ?h]) auto
qed

text \<open>The effect on what a monitor shows: the first target behind the head with the label goes.\<close>

fun del_first :: "string \<Rightarrow> tview list \<Rightarrow> tview list" where
  "del_first l [] = []"
| "del_first l (v # vs) = (if fst v = Some (cstr l) then vs else v # del_first l vs)"

definition hits_last :: "string \<Rightarrow> tview list \<Rightarrow> bool" where
  "hits_last l vs = (vs \<noteq> [] \<and> fst (last vs) = Some (cstr l) \<and>
     (\<forall>v \<in> set (butlast vs). fst v \<noteq> Some (cstr l)))"

lemma del_first_split:
  "\<forall>v \<in> set xs. fst v \<noteq> Some (cstr l) \<Longrightarrow> fst v = Some (cstr l) \<Longrightarrow> del_first l (xs @ v # ys) = xs @ ys"
  by (induction xs) auto

lemma del_first_none: "\<forall>v \<in> set xs. fst v \<noteq> Some (cstr l) \<Longrightarrow> del_first l xs = xs"
  by (induction xs) auto

lemma misses_view: "misses h l ts \<longleftrightarrow> (\<forall>v \<in> set (map (\<lambda>(b, t). tview h t) ts). fst v \<noteq> Some (cstr l))"
  by (auto simp: misses_def tview_def)

lemma first_hit:
  assumes "\<not> misses h l ts"
  obtains ys b t zs where "ts = ys @ (b, t) # zs" "misses h l ys" "str h (t_label t) = Some (cstr l)"
proof -
  from assms have "\<exists>x \<in> set ts. str h (t_label (snd x)) = Some (cstr l)" by (force simp: misses_def)
  from split_list_first_prop [OF this] show ?thesis using that by (fastforce simp: misses_def)
qed

lemma monitor_del_target_miss:
  assumes "mon_shape h a m (x # ts)" "misses h l ts"
  shows "monitor_del_target (Some a) (Some l) h = Some (Inr (0, h))"
proof -
  obtain b t where x: "x = (b, t)" by (cases x)
  have "labels_ok h ts" using mon_shape_labels [OF assms(1)] by (auto simp: labels_ok_def)
  then obtain q where "find_target l h (m_target m) (t_next t) = Some (Inr (q, None))"
    using find_target_misses [of h "t_next t" ts l "m_target m"] assms x by (auto simp: mon_shape_def)
  then show ?thesis
    using assms x by (auto simp: monitor_del_target_def heap_simps mon_shape_def)
qed


lemma monitor_del_target_is:
  assumes "monitor_is h a lbl (v # vs)" "\<not> hits_last l vs"
  shows "\<exists>h'. monitor_del_target (Some a) (Some l) h = Some (Inr (0, h')) \<and> fails h' = fails h \<and>
    monitor_is h' a lbl (v # del_first l vs)"
proof -
  obtain m ts0 where m: "mon_shape h a m ts0" "ts0 \<noteq> []" "m_cru m = Some (fst (last ts0))"
    "str h (m_label m) = lbl" "map (\<lambda>(b, t). tview h t) ts0 = v # vs" and ok: "heap_ok h"
    using assms(1) by (auto simp: monitor_is_def)
  obtain b0 t0 ts where ts0: "ts0 = (b0, t0) # ts" using m(2) by (cases ts0) auto
  have vs: "vs = map (\<lambda>(b, t). tview h t) ts" "v = tview h t0" using m(5) ts0 by auto
  show ?thesis
  proof (cases "misses h l ts")
    case True
    then have "del_first l vs = vs" using misses_view [of h l ts] vs by (simp add: del_first_none)
    then show ?thesis
      using monitor_del_target_miss [of h a m "(b0, t0)" ts l] True m(1) ts0 assms(1) by auto
  next
    case False
    obtain ys b t zs where hit: "ts = ys @ (b, t) # zs" "misses h l ys" "str h (t_label t) = Some (cstr l)"
      using False by (rule first_hit)
    have "zs \<noteq> []"
    proof
      assume "zs = []"
      then have "hits_last l vs"
        using hit misses_view [of h l ys] vs by (auto simp: hits_last_def butlast_append tview_def)
      with assms(2) show False by simp
    qed
    obtain ps c u where pc: "(b0, t0) # ys = ps @ [(c, u)]" by (metis prod.exhaust list.distinct(1) rev_exhaust)
    then have sh: "mon_shape h a m (ps @ (c, u) # (b, t) # zs)"
      using m(1) ts0 hit(1) by (metis append_Cons append_assoc append_Nil)
    have ps: "tl (ps @ [(c, u)]) = ys" using pc by (metis list.sel(3))
    let ?m = "m\<lparr>m_itarget := m_itarget m - 1\<rparr>" and ?u = "u\<lparr>t_next := t_next t\<rparr>"
    obtain h' where h': "monitor_del_target (Some a) (Some l) h = Some (Inr (0, h'))" "heap_ok h'"
      "fails h' = fails h" "mon_shape h' a ?m (ps @ (c, ?u) # zs)"
      "strs h' = strs h |` (- set (tstrs t))"
      using monitor_del_hit [OF sh ok] hit ps by auto
    have d: "distinct (opt_list (m_label m) @ tlstrs (ps @ (c, u) # (b, t) # zs))"
      using sh by (simp add: mon_shape_def)
    then have same: "strs h' s = strs h s" if "s \<in> set (opt_list (m_label m) @ tlstrs (ps @ (c, u) # zs))" for s
      using that h'(5) by (auto simp: restrict_map_def)
    have "m_cru ?m = Some (fst (last (ps @ (c, ?u) # zs)))"
      using m(3) ts0 hit(1) \<open>zs \<noteq> []\<close> by simp
    moreover have "str h' (m_label ?m) = lbl"
      using m(4) same str_cong [of "m_label m" h' h] by simp
    moreover have "map (\<lambda>(b, t). tview h' t) (ps @ (c, ?u) # zs) = v # del_first l vs"
    proof -
      have "map (\<lambda>(b, t). tview h' t) (ps @ (c, ?u) # zs) = map (\<lambda>(b, t). tview h' t) (ps @ (c, u) # zs)"
        by simp
      also have "\<dots> = map (\<lambda>(b, t). tview h t) (ps @ (c, u) # zs)"
        by (rule tviews_cong, rule same) simp
      also have "ps @ (c, u) # zs = (b0, t0) # ys @ zs"
        using pc by (metis append_Cons append_assoc append_Nil)
      also have "map (\<lambda>(b, t). tview h t) \<dots> = v # del_first l vs"
        using hit misses_view [of h l ys] vs by (simp add: del_first_split tview_def)
      finally show ?thesis .
    qed
    ultimately have "monitor_is h' a lbl (v # del_first l vs)"
      using h'(2,4) by (intro monitor_isI [of h' a ?m "ps @ (c, ?u) # zs"]) simp_all
    with h'(1,3) show ?thesis by auto
  qed
qed

lemma monitor_set_stat_is:
  assumes "monitor_is h a lbl ((l0, Some (x # w), u0, ty0) # vs)" "status stat = Inr s"
  shows "\<exists>h'. monitor_set_stat (Some a) stat h = Inr (0, h') \<and> fails h' = fails h \<and>
    monitor_is h' a lbl ((l0, Some (s @ w), u0, ty0) # vs)"
proof -
  obtain m ts0 where m: "mon_shape h a m ts0" "ts0 \<noteq> []" "m_cru m = Some (fst (last ts0))"
    "str h (m_label m) = lbl" "map (\<lambda>(b, t). tview h t) ts0 = (l0, Some (x # w), u0, ty0) # vs"
    and ok: "heap_ok h"
    using assms(1) by (auto simp: monitor_is_def)
  obtain b0 t0 ts where ts0: "ts0 = (b0, t0) # ts" using m(2) by (cases ts0) auto
  have v0: "str h (t_label t0) = l0" "str h (t_value t0) = Some (x # w)" "str h (t_unit t0) = u0" "t_type t0 = ty0"
    and vs: "vs = map (\<lambda>(b, t). tview h t) ts"
    using m(5) ts0 by (auto simp: tview_def)
  obtain q where q: "t_value t0 = Some q" using v0(2) by (cases "t_value t0") (auto simp: str_def)
  obtain r where r: "strs h q = Some r" "cstr r = x # w"
    using v0(2) q by (auto simp: str_def)
  then obtain r' where r': "r = x # r'" "cstr r' = w" "x \<noteq> NUL"
    by (cases r) (auto simp: cstr_def split: if_splits)
  let ?h = "h\<lparr>strs := (strs h)(q \<mapsto> hd s # r')\<rparr>"
  have s: "s = [hd s]" "hd s \<noteq> NUL" using status_cases [OF assms(2)] by auto
  have ma: "mons h a = Some m" "m_target m = Some b0" "tgts h b0 = Some t0"
    using m(1) ts0 by (auto simp: mon_shape_def)
  have e: "monitor_set_stat (Some a) stat h = Inr (0, ?h)"
    using ma assms(2) q r r' by (simp add: monitor_set_stat_def heap_simps poke_first_def)
  have so: "\<forall>s \<in> set (opt_list (m_label m) @ tlstrs ts0). str_ok h s"
    and d: "distinct (opt_list (m_label m) @ tlstrs ts0)" using m(1) by (auto simp: mon_shape_def)
  have qin: "q \<in> set (tstrs t0)" using q by (simp add: tstrs_def opt_list_def)
  have okq: "str_ok ?h s" if "str_ok h s" for s
    using that r r' by (auto simp: str_ok_def)
  have "mon_shape ?h a m ts0"
    using m(1) okq chain_tgts [of ?h h] by (auto simp: mon_shape_def)
  moreover have "heap_ok ?h" using ok heap_okD(1) [OF ok r(1)] by (auto simp: heap_ok_def)
  moreover have "str ?h (m_label m) = lbl"
    unfolding m(4) [symmetric] using d qin ts0 by (intro str_cong) auto
  moreover have "tview ?h t0 = (l0, Some (s @ w), u0, ty0)"
  proof -
    have "q \<notin> set (opt_list (t_label t0))" "q \<notin> set (opt_list (t_unit t0))"
      using d ts0 q by (auto simp: tstrs_def opt_list_def)
    then have "str ?h (t_label t0) = l0" "str ?h (t_unit t0) = u0"
      using v0 by (auto intro: str_cong [THEN trans])
    moreover have "str ?h (t_value t0) = Some (s @ w)"
      using q r' s by (subst s(1)) (simp add: str_def cstr_def)
    ultimately show ?thesis using v0(4) by (simp add: tview_def)
  qed
  moreover have "map (\<lambda>(b, t). tview ?h t) ts = vs"
    unfolding vs using d qin ts0 by (intro tviews_cong) auto
  ultimately have "monitor_is ?h a lbl ((l0, Some (s @ w), u0, ty0) # vs)"
    using ts0 m(2,3) by (intro monitor_isI [of ?h a m ts0]) simp_all
  with e show ?thesis by auto
qed

section \<open>Properties of monitors\<close>

text \<open>The calls a client makes on one monitor, on the heap and on the list it stands for. The list
  operation has no result for a call that the code does not support: deleting the last target,
  or a state outside \<open>enum statu\<close>.\<close>

datatype mcall = Add string string string int | Del string | Set_stat int

fun exec_call :: "mcall \<Rightarrow> nat \<Rightarrow> heap \<Rightarrow> (int \<times> heap) res option" where
  "exec_call (Add l v u ty) a h = Some (monitor_add_target (Some a) (Some l) (Some v) (Some u) ty h)"
| "exec_call (Del l) a h = monitor_del_target (Some a) (Some l) h"
| "exec_call (Set_stat i) a h = Some (monitor_set_stat (Some a) i h)"

fun exec_calls :: "mcall list \<Rightarrow> nat \<Rightarrow> heap \<Rightarrow> heap res option" where
  "exec_calls [] a h = Some (Inr h)"
| "exec_calls (c # cs) a h = Option.bind (exec_call c a h) (\<lambda>r.
     case r of Inl e \<Rightarrow> Some (Inl e) | Inr (code, h) \<Rightarrow> exec_calls cs a h)"

fun list_call :: "mcall \<Rightarrow> tview list \<Rightarrow> tview list option" where
  "list_call (Add l v u ty) vs = Some (vs @ [(Some (cstr l), Some (cstr v), Some (cstr u), ty)])"
| "list_call (Del l) (v # vs) = (if hits_last l vs then None else Some (v # del_first l vs))"
| "list_call (Set_stat i) ((l0, Some (x # w), u0, ty0) # vs) =
     (case status i of Inl e \<Rightarrow> None | Inr s \<Rightarrow> Some ((l0, Some (s @ w), u0, ty0) # vs))"
| "list_call _ _ = None"

fun list_calls :: "mcall list \<Rightarrow> tview list \<Rightarrow> tview list option" where
  "list_calls [] vs = Some vs"
| "list_calls (c # cs) vs = Option.bind (list_call c vs) (list_calls cs)"

lemma exec_call_is:
  assumes "monitor_is h a lbl vs" "fails h = []" "list_call c vs = Some vs'"
  shows "\<exists>h'. exec_call c a h = Some (Inr (0, h')) \<and> fails h' = [] \<and> monitor_is h' a lbl vs'"
  using assms
proof (cases "(c, vs)" rule: list_call.cases)
  case (1 l v u ty vs)
  with assms monitor_add_target_is [of h a lbl vs l v u ty] show ?thesis by simp
next
  case (2 l v vs)
  with assms monitor_del_target_is [of h a lbl v vs l] show ?thesis by (auto split: if_splits)
next
  case (3 i l0 x w u0 ty0 vs)
  with assms obtain s where "status i = Inr s" by (auto split: sum.splits)
  with 3 assms monitor_set_stat_is [of h a lbl l0 x w u0 ty0 vs i s] show ?thesis by auto
qed auto

lemma exec_calls_is:
  assumes "monitor_is h a lbl vs" "fails h = []" "list_calls cs vs = Some vs'"
  shows "\<exists>h'. exec_calls cs a h = Some (Inr h') \<and> monitor_is h' a lbl vs'"
  using assms
proof (induction cs arbitrary: h vs)
  case (Cons c cs)
  then obtain ws where ws: "list_call c vs = Some ws" "list_calls cs ws = Some vs'"
    by (auto simp: bind_eq_Some_conv)
  from exec_call_is [OF Cons.prems(1,2) ws(1)] obtain g where
    g: "exec_call c a h = Some (Inr (0, g))" "fails g = []" "monitor_is g a lbl ws" by auto
  from Cons.IH [OF g(3,2) ws(2)] g(1) show ?case by auto
qed auto

text \<open>C7: a monitor is a list of targets: after monitor_new and any sequence of calls that the
  list operations accept, every call has returned 0, and the blocks on the heap are a well-formed
  list (its end reached by _next, _cru at its last node, _itarget its length, no string shared)
  that shows exactly what the list operations compute.\<close>

theorem monitor_refines_list:
  assumes "heap_ok h" "fails h = []" "status stat = Inr s"
    and "list_calls cs [(Some XML_PROP_VALUE_WORK_STATUS, Some s, None, 1)] = Some vs"
  shows "\<exists>pm h' h''. monitor_new (Some l) stat h = Inr (Some pm, h') \<and>
    exec_calls cs pm h' = Some (Inr h'') \<and> monitor_is h'' pm (Some (cstr l)) vs"
proof -
  obtain h' where "monitor_new (Some l) stat h = Inr (Some (fresh h), h')" "fails h' = []"
    "monitor_is h' (fresh h) (Some (cstr l)) [(Some XML_PROP_VALUE_WORK_STATUS, Some s, None, 1)]"
    using monitor_new_is [OF assms(1-3)] by blast
  with exec_calls_is [OF _ _ assms(4)] show ?thesis by blast
qed

definition empty_heap :: heap where
  "empty_heap = \<lparr>strs = (\<lambda>a. None), tgts = (\<lambda>a. None), mons = (\<lambda>a. None), devs = (\<lambda>a. None),
     fresh = 1, fails = []\<rparr>"

lemma heap_ok_empty: "heap_ok empty_heap"
  by (auto simp: heap_ok_def empty_heap_def)

theorem monitor_refines_list_witness:
  "\<exists>pm h' h''. monitor_new (Some ''m'') 0 empty_heap = Inr (Some pm, h') \<and>
    exec_calls [Add ''a'' ''1'' ''s'' 1, Add ''b'' ''2'' ''s'' 1, Del ''a'', Set_stat 2] pm h' = Some (Inr h'') \<and>
    monitor_is h'' pm (Some ''m'') [(Some XML_PROP_VALUE_WORK_STATUS, Some ''2'', None, 1),
      (Some ''b'', Some ''2'', Some ''s'', 1)]"
proof -
  have "list_calls [Add ''a'' ''1'' ''s'' 1, Add ''b'' ''2'' ''s'' 1, Del ''a'', Set_stat 2]
      [(Some XML_PROP_VALUE_WORK_STATUS, Some ''0'', None, 1)] =
    Some [(Some XML_PROP_VALUE_WORK_STATUS, Some ''2'', None, 1), (Some ''b'', Some ''2'', Some ''s'', 1)]"
    by (simp add: cstr_def hits_last_def status_def)
  from monitor_refines_list [OF heap_ok_empty _ _ this, of 0 "''m''"] show ?thesis
    by (simp add: empty_heap_def status_def cstr_def)
qed

text \<open>Deleting the target at the end of the list succeeds but leaves _cru pointing to the freed
  block, so that the next monitor_add_target writes to freed memory.\<close>

theorem monitor_del_last_then_add:
  assumes "monitor_is h a lbl (v0 # vs)" "hits_last l vs" "fails h = []"
  shows "\<exists>h'. monitor_del_target (Some a) (Some l) h = Some (Inr (0, h')) \<and>
    monitor_add_target (Some a) (Some l') (Some v) (Some u) ty h' = Inl Use_after_free"
proof -
  obtain m ts0 where m: "mon_shape h a m ts0" "ts0 \<noteq> []" "m_cru m = Some (fst (last ts0))"
    "map (\<lambda>(b, t). tview h t) ts0 = v0 # vs" and ok: "heap_ok h"
    using assms(1) by (auto simp: monitor_is_def)
  obtain b0 t0 ts where ts0: "ts0 = (b0, t0) # ts" using m(2) by (cases ts0) auto
  have vs: "vs = map (\<lambda>(b, t). tview h t) ts" using m(4) ts0 by auto
  then obtain ys b t where ts: "ts = ys @ [(b, t)]"
    using assms(2) by (cases ts rule: rev_cases) (auto simp: hits_last_def)
  have hit: "misses h l ys" "str h (t_label t) = Some (cstr l)"
    using assms(2) vs ts misses_view [of h l ys] by (auto simp: hits_last_def tview_def butlast_append)
  obtain ps c u' where pc: "(b0, t0) # ys = ps @ [(c, u')]" by (metis prod.exhaust list.distinct(1) rev_exhaust)
  then have sh: "mon_shape h a m (ps @ (c, u') # (b, t) # [])"
    using m(1) ts0 ts by (metis append_Cons append_assoc append_Nil)
  have ps: "tl (ps @ [(c, u')]) = ys" using pc by (metis list.sel(3))
  obtain h' where h': "monitor_del_target (Some a) (Some l) h = Some (Inr (0, h'))" "heap_ok h'"
    "fails h' = fails h" "fresh h' = fresh h"
    "mon_shape h' a (m\<lparr>m_itarget := m_itarget m - 1\<rparr>) (ps @ [(c, u'\<lparr>t_next := t_next t\<rparr>)])"
    "tgts h' b = None"
    using monitor_del_hit [OF sh ok] hit ps by auto
  have "tgts h b = Some t" using sh tlist.chain_get [of h _ _ b t] by (auto simp: mon_shape_def)
  then have b: "b < fresh h'" using heap_okD(2) [OF ok] h'(4) by auto
  have "mons h' a = Some (m\<lparr>m_itarget := m_itarget m - 1\<rparr>)" using h'(5) by (simp add: mon_shape_def)
  moreover have "m_cru m = Some b" using m(3) ts0 ts by simp
  ultimately have "monitor_add_target (Some a) (Some l') (Some v) (Some u) ty h' = Inl Use_after_free"
    using h'(3,6) assms(3) b by (simp add: monitor_add_target_def heap_simps)
  with h'(1) show ?thesis by blast
qed

theorem monitor_del_last_then_add_witness:
  "\<exists>pm h' h''. monitor_new (Some ''m'') 0 empty_heap = Inr (Some pm, h') \<and>
    exec_calls [Add ''a'' ''1'' ''s'' 1] pm h' = Some (Inr h'') \<and>
    (\<exists>g. monitor_del_target (Some pm) (Some ''a'') h'' = Some (Inr (0, g)) \<and>
      monitor_add_target (Some pm) (Some ''b'') (Some ''2'') (Some ''s'') 1 g = Inl Use_after_free)"
proof -
  obtain h' where h': "monitor_new (Some ''m'') 0 empty_heap = Inr (Some (fresh empty_heap), h')" "fails h' = []"
    "monitor_is h' (fresh empty_heap) (Some (cstr ''m'')) [(Some XML_PROP_VALUE_WORK_STATUS, Some ''0'', None, 1)]"
    using monitor_new_is [OF heap_ok_empty, of 0 "''0''" "''m''"] by (auto simp: status_def empty_heap_def)
  obtain h'' where h'': "exec_call (Add ''a'' ''1'' ''s'' 1) (fresh empty_heap) h' = Some (Inr (0, h''))"
    "fails h'' = []"
    "monitor_is h'' (fresh empty_heap) (Some (cstr ''m''))
       [(Some XML_PROP_VALUE_WORK_STATUS, Some ''0'', None, 1), (Some ''a'', Some ''1'', Some ''s'', 1)]"
    using exec_call_is [OF h'(3,2), of "Add ''a'' ''1'' ''s'' 1"] by (auto simp: cstr_def)
  have "hits_last ''a'' [(Some ''a'', Some ''1'', Some ''s'', 1)]" by (simp add: hits_last_def cstr_def)
  from monitor_del_last_then_add [OF h''(3) this h''(2), of "''b''" "''2''" "''s''" 1] h'(1) h''(1)
  show ?thesis by (intro exI [of _ "fresh empty_heap"] exI [of _ h'] exI [of _ h'']) auto
qed

section \<open>Properties of devices\<close>

definition demo_target :: target where
  "demo_target = \<lparr>t_label = Some 5, t_unit = None, t_type = 1, t_value = Some 6, t_next = None, t_pm = Some 3\<rparr>"

definition demo_monitor :: monitor where
  "demo_monitor = \<lparr>m_stat = 0, m_label = Some 7, m_target = Some 4, m_cru = Some 4, m_itarget = 1,
     m_next = None, m_pd = Some (Some 0)\<rparr>"

definition demo_device :: device where
  "demo_device = \<lparr>d_label = Some 1, d_ip = Some 2, d_monitor = Some 3, d_curmon = Some 3, d_imonitor = 1\<rparr>"

definition demo_heap :: heap where
  "demo_heap = \<lparr>strs = [1 \<mapsto> ''d'' @ [NUL], 2 \<mapsto> ''i'' @ [NUL], 5 \<mapsto> ''w'' @ [NUL], 6 \<mapsto> ''0'' @ [NUL],
       7 \<mapsto> ''m'' @ [NUL], 8 \<mapsto> ''x'' @ [NUL]],
     tgts = [4 \<mapsto> demo_target], mons = [3 \<mapsto> demo_monitor], devs = [0 \<mapsto> demo_device],
     fresh = 9, fails = []\<rparr>"

lemma demo_shape: "dev_shape demo_heap 0 demo_device [(3, demo_monitor, [(4, demo_target)])]"
  by (simp add: dev_shape_def demo_heap_def demo_device_def demo_monitor_def demo_target_def
      mchain_def mons_of_def mltgts_def dstrs_def mlstrs_def mstrs_def tlstrs_def tstrs_def opt_list_def)

theorem device_destory_frees_all_witness:
  "\<exists>h. device_destory (Some 0) demo_heap = Some (Inr h) \<and> strs h 8 = Some (''x'' @ [NUL]) \<and>
     (\<forall>a \<in> {1, 2, 5, 6, 7}. strs h a = None) \<and> tgts h 4 = None \<and> mons h 3 = None \<and> devs h 0 = None"
  using device_destory_frees_all [OF demo_shape]
  by (auto simp: dstrs_def mlstrs_def mstrs_def tlstrs_def tstrs_def opt_list_def demo_device_def
      demo_monitor_def demo_target_def mltgts_def demo_heap_def restrict_map_def)

text \<open>Adding one monitor behind the last one.\<close>

lemma mons_of_simps [simp]:
  "mons_of [] = []" "mons_of ((a, m, ts) # ms) = (a, m) # mons_of ms" "mons_of (xs @ ys) = mons_of xs @ mons_of ys"
  "fst ` set (mons_of ms) = fst ` set ms"
  by (auto simp: mons_of_def image_image case_prod_unfold)

definition curmon_ok :: "device \<Rightarrow> mnode list \<Rightarrow> bool" where
  "curmon_ok d ms = (d_imonitor d = of_nat (length ms) \<and> (ms \<noteq> [] \<longrightarrow> d_curmon d = Some (fst (last ms))))"

text \<open>device_add_monitor of a monitor that is not in the device yet appends it: the list of the
  device is the old one followed by the new monitor, which now knows its device, and _curmon and
  _imonitor follow.\<close>

theorem device_add_monitor_appends:
  assumes "dev_shape h a d ms" "curmon_ok d ms"
    and "mchain h (Some p) [(p, m, ts)]" "p \<notin> fst ` set ms"
    and "distinct (mltgts (ms @ [(p, m, ts)]))" "distinct (dstrs d (ms @ [(p, m, ts)]))"
    and "set (mstrs (p, m, ts)) \<subseteq> dom (strs h)"
  shows "\<exists>h' d' ms'. device_add_monitor (Some a) (Some p) h = Inr (0, h') \<and>
    dev_shape h' a d' (ms' @ [(p, m\<lparr>m_pd := Some (Some a)\<rparr>, ts)]) \<and>
    curmon_ok d' (ms' @ [(p, m\<lparr>m_pd := Some (Some a)\<rparr>, ts)]) \<and>
    map fst ms' = map fst ms \<and> mlstrs ms' = mlstrs ms \<and> mltgts ms' = mltgts ms \<and>
    strs h' = strs h \<and> tgts h' = tgts h \<and> d_label d' = d_label d \<and> d_ip d' = d_ip d"
proof -
  let ?m = "m\<lparr>m_pd := Some (Some a)\<rparr>"
  have d: "devs h a = Some d" and c: "mchain h (d_monitor d) ms" using assms(1) by (auto simp: dev_shape_def)
  have p: "mons h p = Some m" "tlist.chain h (m_target m) ts" "m_next m = None"
    using assms(3) by (auto simp: mchain_Cons)
  let ?h1 = "put_mon p (Some ?m) h"
  have cut: "mchain ?h1 (d_monitor d) ms"
    using c assms(4) mlist.chain_put_other [of p "mons_of ms"] chain_tgts [of ?h1 h]
    by (auto simp: mchain_def)
  show ?thesis
  proof (cases ms rule: rev_cases)
    case Nil
    let ?d = "d\<lparr>d_monitor := Some p, d_curmon := Some p, d_imonitor := d_imonitor d + 1\<rparr>"
    let ?h = "?h1\<lparr>devs := (devs h)(a \<mapsto> ?d)\<rparr>"
    have "d_monitor d = None" using c Nil by simp
    then have e: "device_add_monitor (Some a) (Some p) h = Inr (0, ?h)"
      using d p by (auto simp: device_add_monitor_def heap_simps intro!: heap_eqI)
    have "dev_shape ?h a ?d [(p, ?m, ts)]"
      using assms(1,5,6,7) Nil p chain_tgts [of ?h h]
      by (auto simp: dev_shape_def mchain_Cons mlstrs_def mltgts_def dstrs_def mstrs_def)
    moreover have "curmon_ok ?d [(p, ?m, ts)]" using assms(2) Nil by (simp add: curmon_ok_def)
    ultimately show ?thesis using e Nil
      by (intro exI [of _ ?h] exI [of _ ?d] exI [of _ "[]"]) simp
  next
    case (snoc xs x)
    obtain b n us where x: "x = (b, n, us)" by (cases x)
    let ?n = "n\<lparr>m_next := Some p\<rparr>" and ?ms = "xs @ [(b, n\<lparr>m_next := Some p\<rparr>, us)]"
    let ?d = "d\<lparr>d_curmon := Some p, d_imonitor := d_imonitor d + 1\<rparr>"
    let ?h2 = "put_mon b (Some ?n) ?h1" and ?h = "(put_mon b (Some ?n) ?h1)\<lparr>devs := (devs h)(a \<mapsto> ?d)\<rparr>"
    have nb: "mons ?h1 b = Some n" "p \<noteq> b"
      using mlist.chain_get [of ?h1 "d_monitor d" "mons_of ms" b n] cut assms(4) snoc x
      by (auto simp: mchain_def)
    have "d_monitor d \<noteq> None" using c snoc x by (cases xs) (auto simp: mchain_def)
    moreover have "d_curmon d = Some b" using assms(2) snoc x by (simp add: curmon_ok_def)
    ultimately have e: "device_add_monitor (Some a) (Some p) h = Inr (0, ?h)"
      using d p nb by (auto simp: device_add_monitor_def heap_simps intro!: heap_eqI)
    have "mlist.chain ?h2 (d_monitor d) (mons_of xs @ (b, ?n) # [(p, ?m)])"
      using cut snoc x nb p by (intro mlist.chain_relink) (auto simp: mchain_def)
    then have "mlist.chain ?h (d_monitor d) (mons_of (?ms @ [(p, ?m, ts)]))"
      by (subst mlist.chain_cong [of _ _ ?h2]) auto
    then have "mchain ?h (d_monitor ?d) (?ms @ [(p, ?m, ts)])"
      using c p snoc x chain_tgts [of ?h h] by (auto simp: mchain_def)
    moreover have ms: "mlstrs ?ms = mlstrs ms" "mltgts ?ms = mltgts ms" "map fst ?ms = map fst ms"
      using snoc x by (simp_all add: mlstrs_def mltgts_def mstrs_def)
    ultimately have "dev_shape ?h a ?d (?ms @ [(p, ?m, ts)])"
      using assms(1,5,6,7) snoc x
      by (auto simp: dev_shape_def dstrs_def mlstrs_def mltgts_def mstrs_def)
    moreover have "curmon_ok ?d (?ms @ [(p, ?m, ts)])" using assms(2) snoc by (simp add: curmon_ok_def)
    ultimately show ?thesis using e ms
      by (intro exI [of _ ?h] exI [of _ ?d] exI [of _ ?ms]) simp
  qed
qed

theorem device_add_monitor_appends_witness:
  "\<exists>h d n. device_add_monitor (Some 0) (Some 10) (demo_heap\<lparr>mons := (mons demo_heap)(10 \<mapsto> blank_monitor)\<rparr>) = Inr (0, h) \<and>
     devs h 0 = Some d \<and> d_imonitor d = 2 \<and> d_curmon d = Some 10 \<and> mons h 3 = Some n"
proof -
  let ?h = "demo_heap\<lparr>mons := (mons demo_heap)(10 \<mapsto> blank_monitor)\<rparr>"
  let ?ms = "[(3, demo_monitor, [(4, demo_target)])] :: mnode list"
  have s1: "dev_shape ?h 0 demo_device ?ms"
    by (simp add: dev_shape_def demo_heap_def demo_device_def demo_monitor_def demo_target_def
      mchain_def mltgts_def dstrs_def mlstrs_def mstrs_def tstrs_def opt_list_def)
  have s2: "curmon_ok demo_device ?ms" by (simp add: curmon_ok_def demo_device_def)
  have s3: "mchain ?h (Some 10) [(10, blank_monitor, [])]"
    by (simp add: mchain_def blank_monitor_def)
  have s5: "distinct (mltgts (?ms @ [(10, blank_monitor, [])]))" by (simp add: mltgts_def)
  have s6: "distinct (dstrs demo_device (?ms @ [(10, blank_monitor, [])]))"
    by (simp add: dstrs_def mlstrs_def mstrs_def tstrs_def opt_list_def demo_device_def
      demo_monitor_def demo_target_def blank_monitor_def)
  have s4: "(10 :: nat) \<notin> fst ` set ?ms" by simp
  have s7: "set (mstrs (10, blank_monitor, [])) \<subseteq> dom (strs ?h)"
    by (simp add: mstrs_def opt_list_def blank_monitor_def)
  let ?ms' = "\<lambda>ms. ms @ [(10, blank_monitor\<lparr>m_pd := Some (Some 0)\<rparr>, [])]"
  have "\<exists>h d ms. device_add_monitor (Some 0) (Some 10) ?h = Inr (0, h) \<and>
    dev_shape h 0 d (?ms' ms) \<and> curmon_ok d (?ms' ms) \<and> map fst ms = map fst ?ms"
    using device_add_monitor_appends [OF s1 s2 s3 s4 s5 s6 s7]
    by (elim exE conjE) (intro exI conjI, assumption+)
  then obtain h d ms where e: "device_add_monitor (Some 0) (Some 10) ?h = Inr (0, h)"
    "dev_shape h 0 d (?ms' ms)" "curmon_ok d (?ms' ms)" "map fst ms = [3]"
    by (elim exE conjE) simp
  then obtain n us where "ms = [(3, n, us)]" by (cases ms) auto
  with e show ?thesis
    by (auto simp: dev_shape_def curmon_ok_def mchain_def)
qed

lemma find_monitor_step:
  assumes "mons h a = Some m" "m_label m = Some x" "str_ok h x"
  shows "find_monitor l h pa (Some a) =
    (if str h (m_label m) = Some (cstr l) then Some (Inr (pa, Some a))
     else find_monitor l h (Some a) (m_next m))"
  using assms by (subst find_monitor.simps) (simp add: heap_simps strcmp_eq_str)

definition mlabels_ok :: "heap \<Rightarrow> mnode list \<Rightarrow> bool" where
  "mlabels_ok h ms = (\<forall>(b, n, us) \<in> set ms. \<exists>x. m_label n = Some x \<and> str_ok h x)"

definition mmisses :: "heap \<Rightarrow> string \<Rightarrow> mnode list \<Rightarrow> bool" where
  "mmisses h l ms = (\<forall>(b, n, us) \<in> set ms. str h (m_label n) \<noteq> Some (cstr l))"

lemma find_monitor_hit:
  assumes "mchain h p (xs @ (b, n, us) # ys)" "mlabels_ok h (xs @ [(b, n, us)])" "mmisses h l xs"
    "str h (m_label n) = Some (cstr l)"
  shows "find_monitor l h pa p = Some (Inr (if xs = [] then pa else Some (fst (last xs)), Some b))"
  using assms
proof (induction xs arbitrary: p pa)
  case Nil
  then show ?case by (auto simp: find_monitor_step mlabels_ok_def mchain_Cons)
next
  case (Cons x xs)
  then show ?case by (cases x) (auto simp: find_monitor_step mmisses_def mlabels_ok_def mchain_Cons)
qed

lemma mlist_lists [simp]:
  "mlstrs [] = []" "mltgts [] = []" "mlstrs ((a, m, ts) # ms) = mstrs (a, m, ts) @ mlstrs ms"
  "mltgts ((a, m, ts) # ms) = map fst ts @ mltgts ms"
  "mlstrs (xs @ ys) = mlstrs xs @ mlstrs ys" "mltgts (xs @ ys) = mltgts xs @ mltgts ys"
  "mstrs (a, m\<lparr>m_next := q\<rparr>, ts) = mstrs (a, m, ts)"
  by (simp_all add: mlstrs_def mltgts_def mstrs_def)

lemma destroy_one_monitor:
  assumes "mons h p = Some m" "m_next m = None" "tlist.chain h (m_target m) ts"
    "distinct (mstrs (p, m, ts))" "set (mstrs (p, m, ts)) \<subseteq> dom (strs h)"
  shows "monitor_destory (Some p) h = Some (Inr (remove_all [(p, m, ts)] h))"
  using assms tlist.chain_distinct [OF assms(3)]
  by (intro monitor_destory_ok) (simp_all add: mchain_Cons)

text \<open>Unlinking the first monitor with the label.\<close>

lemma mchain_relink:
  assumes "mchain h p (xs @ (c, n, us) # ys)" "mchain h q zs" "c \<notin> fst ` set zs"
  shows "mchain (put_mon c (Some (n\<lparr>m_next := q\<rparr>)) h) p (xs @ (c, n\<lparr>m_next := q\<rparr>, us) # zs)"
proof -
  let ?h = "put_mon c (Some (n\<lparr>m_next := q\<rparr>)) h"
  have "mlist.chain ?h p (mons_of xs @ (c, n\<lparr>m_next := q\<rparr>) # mons_of zs)"
    using assms by (intro mlist.chain_relink [where ys = "mons_of ys"]) (simp_all add: mchain_def)
  moreover have t: "tlist.chain ?h r ts = tlist.chain h r ts" for r ts by (rule chain_tgts) simp
  moreover have "\<forall>(a, m, ts) \<in> set (xs @ (c, n\<lparr>m_next := q\<rparr>, us) # zs). tlist.chain h (m_target m) ts"
    using assms(1,2) by (simp add: mchain_def ball_Un)
  ultimately show ?thesis by (simp add: mchain_def)
qed

lemma mchain_distinct: "mchain h p ms \<Longrightarrow> distinct (map fst ms)"
  using mlist.chain_distinct [of h p "mons_of ms"]
  by (simp add: mchain_def mons_of_def comp_def case_prod_unfold)

lemma mchain_suffix: "mchain h p (xs @ (a, m, ts) # ys) \<Longrightarrow>
    mons h a = Some m \<and> tlist.chain h (m_target m) ts \<and> mchain h (m_next m) ys"
  by (induction xs arbitrary: p) (auto simp: mchain_Cons)

lemma mchain_cong:
  assumes "\<And>a. a \<in> fst ` set ms \<Longrightarrow> mons h' a = mons h a"
    "\<And>a. a \<in> set (mltgts ms) \<Longrightarrow> tgts h' a = tgts h a"
  shows "mchain h' p ms = mchain h p ms"
proof -
  have "tlist.chain h' (m_target m) ts = tlist.chain h (m_target m) ts" if "(a, m, ts) \<in> set ms" for a m ts
    using that assms(2) by (intro tlist.chain_cong) (force simp: mltgts_def)
  moreover have "mlist.chain h' p (mons_of ms) = mlist.chain h p (mons_of ms)"
    using assms(1) by (intro mlist.chain_cong) simp
  ultimately show ?thesis by (auto simp: mchain_def)
qed

text \<open>C24: device_del_monitor removes the first monitor with the label from the list of the device
  and frees it with all its targets and strings and nothing else; the counter goes down, but
  _curmon stays what it was, even when it pointed to the freed monitor.\<close>

theorem device_del_monitor_unlinks:
  assumes "dev_shape h a d (xs @ (p, m, ts) # ys)" "mlabels_ok h (xs @ [(p, m, ts)])"
    and "mmisses h l xs" "str h (m_label m) = Some (cstr l)"
  shows "\<exists>h' d' xs'. device_del_monitor (Some a) (Some l) h = Some (Inr (0, h')) \<and>
    dev_shape h' a d' (xs' @ ys) \<and> map fst xs' = map fst xs \<and>
    d_curmon d' = d_curmon d \<and> d_imonitor d' = d_imonitor d - 1 \<and>
    fst ` set (xs' @ ys) = fst ` set (xs @ (p, m, ts) # ys) - {p} \<and>
    dom (mons h') = dom (mons h) - {p} \<and> tgts h' = tgts h |` (- fst ` set ts) \<and>
    strs h' = strs h |` (- set (mstrs (p, m, ts)))"
proof -
  let ?ms = "xs @ (p, m, ts) # ys"
  have d: "devs h a = Some d" and c: "mchain h (d_monitor d) ?ms"
    and s: "distinct (dstrs d ?ms)" "set (dstrs d ?ms) \<subseteq> dom (strs h)" "distinct (mltgts ?ms)"
    using assms(1) by (auto simp: dev_shape_def)
  have dist: "distinct (map fst ?ms)" using c by (rule mchain_distinct)
  have pm: "mons h p = Some m" "tlist.chain h (m_target m) ts" "mchain h (m_next m) ys"
    using mchain_suffix [OF c] by auto
  have find: "find_monitor l h None (d_monitor d) =
      Some (Inr (if xs = [] then None else Some (fst (last xs)), Some p))"
    using find_monitor_hit [OF c assms(2-4)] .
  let ?m = "m\<lparr>m_next := None\<rparr>"
  obtain g d' xs' where g: "d' = d\<lparr>d_monitor := d_monitor d', d_imonitor := d_imonitor d - 1\<rparr>"
    "mchain g (d_monitor d') (xs' @ ys)" "map fst xs' = map fst xs" "mlstrs xs' = mlstrs xs"
    "mltgts xs' = mltgts xs" "devs g = (devs h)(a \<mapsto> d')" "strs g = strs h" "tgts g = tgts h"
    "mons g p = Some ?m" "dom (mons g) = dom (mons h)"
    "device_del_monitor (Some a) (Some l) h =
      Option.bind (monitor_destory (Some p) g) (\<lambda>r. Some (bindr r (\<lambda>h. Inr (0, h))))"
  proof (cases xs rule: rev_cases)
    case Nil
    let ?d = "d\<lparr>d_monitor := m_next m, d_imonitor := d_imonitor d - 1\<rparr>"
    let ?g = "put_mon p (Some ?m) (h\<lparr>devs := (devs h)(a \<mapsto> ?d)\<rparr>)"
    have "mchain ?g (m_next m) ys"
      using pm(3) dist by (subst mchain_cong [of _ _ h]) auto
    moreover have "device_del_monitor (Some a) (Some l) h =
        Option.bind (monitor_destory (Some p) ?g) (\<lambda>r. Some (bindr r (\<lambda>h. Inr (0, h))))"
      using d pm find Nil by (simp add: device_del_monitor_def heap_simps)
    ultimately show ?thesis using that [of ?d ?g "[]"] Nil pm(1) by auto
  next
    case (snoc us x)
    obtain b n vs where x: "x = (b, n, vs)" by (cases x)
    let ?d = "d\<lparr>d_imonitor := d_imonitor d - 1\<rparr>" and ?n = "n\<lparr>m_next := m_next m\<rparr>"
    let ?g1 = "put_mon b (Some ?n) h"
    let ?g = "put_mon p (Some ?m) (?g1\<lparr>devs := (devs h)(a \<mapsto> ?d)\<rparr>)"
    have b: "mons h b = Some n" "b \<noteq> p" using c dist snoc x mchain_suffix [of h _ us b n vs] by auto
    have "mchain ?g1 (d_monitor d) (us @ (b, ?n, vs) # ys)"
      using c dist snoc x pm(3) by (intro mchain_relink) auto
    then have "mchain ?g (d_monitor d) ((us @ [(b, ?n, vs)]) @ ys)"
      using dist snoc x by (subst mchain_cong [of _ _ ?g1]) auto
    moreover have "device_del_monitor (Some a) (Some l) h =
        Option.bind (monitor_destory (Some p) ?g) (\<lambda>r. Some (bindr r (\<lambda>h. Inr (0, h))))"
      using d pm find snoc x b by (simp add: device_del_monitor_def heap_simps)
    ultimately show ?thesis using that [of ?d ?g "us @ [(b, ?n, vs)]"] snoc x pm(1) b by auto
  qed
  have "monitor_destory (Some p) g = Some (Inr (remove_all [(p, ?m, ts)] g))"
    using s pm(2) g(7-9) chain_tgts [of g h]
    by (intro destroy_one_monitor) (auto simp: dstrs_def)
  then have e: "device_del_monitor (Some a) (Some l) h = Some (Inr (0, remove_all [(p, ?m, ts)] g))"
    using g(11) by simp
  let ?h = "remove_all [(p, ?m, ts)] g"
  have dl: "d_label d' = d_label d" "d_ip d' = d_ip d" by (subst g(1), simp)+
  have fs: "fst ` set xs' = fst ` set xs" using g(3) by (metis set_map)
  have nin: "p \<notin> fst ` set (xs' @ ys)" using dist fs by auto
  have nt: "set (mltgts (xs' @ ys)) \<inter> fst ` set ts = {}" using s(3) g(5) by auto
  have "mchain ?h (d_monitor d') (xs' @ ys)"
    using g(2) nin nt by (subst mchain_cong [of _ _ g]) (auto simp: remove_all_def restrict_map_def)
  moreover have "dstrs d' (xs' @ ys) = opt_list (d_label d) @ opt_list (d_ip d) @ mlstrs xs @ mlstrs ys"
    using dl g(4) by (simp add: dstrs_def)
  ultimately have "dev_shape ?h a d' (xs' @ ys)"
    using s dl g(5-8) by (auto simp: dev_shape_def remove_all_def dstrs_def)
  moreover have "d_curmon d' = d_curmon d" "d_imonitor d' = d_imonitor d - 1" by (subst g(1), simp)+
  moreover have "fst ` set (xs' @ ys) = fst ` set ?ms - {p}" using fs dist by auto
  moreover have "dom (mons ?h) = dom (mons g) - {p}"
    by (auto simp: remove_all_def restrict_map_def split: if_splits)
  moreover from this have "dom (mons ?h) = dom (mons h) - {p}" using g(10) by simp
  moreover have "tgts ?h = tgts h |` (- fst ` set ts)" "strs ?h = strs h |` (- set (mstrs (p, m, ts)))"
    using g(7,8) by (auto simp: remove_all_def)
  ultimately show ?thesis using e g(3) by (intro exI [of _ ?h] exI [of _ d'] exI [of _ xs']) simp
qed

theorem device_del_monitor_unlinks_witness:
  "\<exists>h d. device_del_monitor (Some 0) (Some ''m'') demo_heap = Some (Inr (0, h)) \<and>
     dom (mons h) = {} \<and> dev_shape h 0 d [] \<and> d_curmon d = Some 3"
proof -
  have l: "mlabels_ok demo_heap ([] @ [(3, demo_monitor, [(4, demo_target)])])"
    "str demo_heap (m_label demo_monitor) = Some (cstr ''m'')" "mmisses demo_heap ''m'' []"
    by (simp_all add: mlabels_ok_def mmisses_def demo_monitor_def demo_heap_def str_ok_def str_def cstr_def)
  have "dev_shape demo_heap 0 demo_device ([] @ (3, demo_monitor, [(4, demo_target)]) # [])"
    using demo_shape by simp
  from device_del_monitor_unlinks [OF this l(1,3,2)] obtain h d where
    "device_del_monitor (Some 0) (Some ''m'') demo_heap = Some (Inr (0, h))" "dev_shape h 0 d []"
    "d_curmon d = d_curmon demo_device" "dom (mons h) = dom (mons demo_heap) - {3}"
    by auto
  then show ?thesis
    by (intro exI [of _ h] exI [of _ d]) (auto simp: demo_heap_def demo_device_def)
qed

text \<open>Deleting the last of several monitors leaves _curmon pointing to freed memory, and the next
  device_add_monitor writes to it.\<close>

theorem device_del_last_then_add:
  assumes "dev_shape h a d (xs @ [(p, m, ts)])" "curmon_ok d (xs @ [(p, m, ts)])" "xs \<noteq> []"
    and "mlabels_ok h (xs @ [(p, m, ts)])" "mmisses h l xs" "str h (m_label m) = Some (cstr l)"
    and "mons h q = Some n" "q \<noteq> p"
  shows "\<exists>h'. device_del_monitor (Some a) (Some l) h = Some (Inr (0, h')) \<and>
    device_add_monitor (Some a) (Some q) h' = Inl Use_after_free"
proof -
  obtain h' d' xs' where h': "device_del_monitor (Some a) (Some l) h = Some (Inr (0, h'))"
    "dev_shape h' a d' (xs' @ [])" "map fst xs' = map fst xs" "d_curmon d' = d_curmon d"
    "dom (mons h') = dom (mons h) - {p}"
    using device_del_monitor_unlinks [OF assms(1,4,5,6)] by (elim exE conjE) (rule that)
  have "d_curmon d = Some p" using assms(2) by (simp add: curmon_ok_def)
  moreover have "xs' \<noteq> []" using h'(3) assms(3) by auto
  then have "d_monitor d' \<noteq> None" using h'(2) by (cases xs') (auto simp: dev_shape_def mchain_def)
  moreover have "mons h' p = None" using h'(5) by (auto simp: domIff)
  moreover obtain n' where "mons h' q = Some n'" using h'(5) assms(7,8) by (auto simp: dom_def set_eq_iff)
  moreover have "devs h' a = Some d'" using h'(2) by (simp add: dev_shape_def)
  ultimately have "device_add_monitor (Some a) (Some q) h' = Inl Use_after_free"
    using h'(4) assms(8) by (auto simp: device_add_monitor_def heap_simps)
  with h'(1) show ?thesis by blast
qed

definition demo_second :: monitor where
  "demo_second = \<lparr>m_stat = 0, m_label = Some 9, m_target = None, m_cru = None, m_itarget = 0,
     m_next = None, m_pd = Some (Some 0)\<rparr>"

definition demo_heap2 :: heap where
  "demo_heap2 = demo_heap\<lparr>
     strs := (strs demo_heap)(9 \<mapsto> ''n'' @ [NUL]),
     mons := [3 \<mapsto> demo_monitor\<lparr>m_next := Some 10\<rparr>, 10 \<mapsto> demo_second, 11 \<mapsto> blank_monitor],
     devs := [0 \<mapsto> demo_device\<lparr>d_curmon := Some 10, d_imonitor := 2\<rparr>], fresh := 12\<rparr>"

theorem device_del_last_then_add_witness:
  "\<exists>h'. device_del_monitor (Some 0) (Some ''n'') demo_heap2 = Some (Inr (0, h')) \<and>
    device_add_monitor (Some 0) (Some 11) h' = Inl Use_after_free"
proof -
  let ?d = "demo_device\<lparr>d_curmon := Some 10, d_imonitor := 2\<rparr>"
  let ?xs = "[(3, demo_monitor\<lparr>m_next := Some 10\<rparr>, [(4, demo_target)])] :: mnode list"
  have "dev_shape demo_heap2 0 ?d (?xs @ [(10, demo_second, [])])"
    by (simp add: dev_shape_def demo_heap2_def demo_heap_def demo_device_def demo_monitor_def demo_target_def
      demo_second_def mchain_def dstrs_def mlstrs_def mstrs_def tstrs_def opt_list_def)
  moreover have "curmon_ok ?d (?xs @ [(10, demo_second, [])])" by (simp add: curmon_ok_def)
  moreover have "mlabels_ok demo_heap2 (?xs @ [(10, demo_second, [])])"
    by (simp add: mlabels_ok_def demo_heap2_def demo_heap_def demo_monitor_def demo_second_def str_ok_def)
  moreover have "mmisses demo_heap2 ''n'' ?xs"
    by (simp add: mmisses_def demo_heap2_def demo_heap_def demo_monitor_def str_def cstr_def)
  moreover have "str demo_heap2 (m_label demo_second) = Some (cstr ''n'')"
    by (simp add: demo_heap2_def demo_second_def str_def cstr_def)
  moreover have "mons demo_heap2 11 = Some blank_monitor" by (simp add: demo_heap2_def)
  ultimately show ?thesis using device_del_last_then_add [of demo_heap2 0 ?d ?xs 10 demo_second "[]" "''n''" 11]
    by simp
qed

lemma monitor_destory_cyclic:
  assumes "monitor_destory p h = Some r"
  shows "\<forall>a m. p = Some a \<longrightarrow> mons h a = Some m \<longrightarrow> m_next m \<noteq> Some a"
  using _ assms
proof (rule monitor_destory.raw_induct, goal_cases)
  case (1 f p h r)
  show ?case
  proof (intro allI impI notI)
    fix a m assume p: "p = Some a" "mons h a = Some m" and n: "m_next m = Some a"
    then have "\<exists>r'. f (Some a) h = Some r'"
      using 1(2) by (auto simp: heap_simps bind_eq_Some_conv)
    then obtain r' where "f (Some a) h = Some r'" ..
    from 1(1) [OF this] p n show False by simp
  qed
qed

text \<open>Adding the same monitor to an empty device twice makes its list cyclic, and
  device_destory never returns: its recursion along _next does not end.\<close>

theorem add_monitor_twice_destroy_hangs:
  assumes "devs h a = Some d" "d_monitor d = None" "d_label d = None" "d_ip d = None"
    and "mons h p = Some m"
  shows "\<exists>h'. bindr (device_add_monitor (Some a) (Some p) h)
      (\<lambda>(code, g). device_add_monitor (Some a) (Some p) g) = Inr (0, h') \<and>
    device_destory (Some a) h' = None"
proof -
  let ?m = "m\<lparr>m_pd := Some (Some a)\<rparr>"
  let ?d = "d\<lparr>d_monitor := Some p, d_curmon := Some p, d_imonitor := d_imonitor d + 1\<rparr>"
  let ?g = "(put_mon p (Some ?m) h)\<lparr>devs := (devs h)(a \<mapsto> ?d)\<rparr>"
  let ?h = "(put_mon p (Some (?m\<lparr>m_next := Some p\<rparr>)) h)\<lparr>devs :=
    (devs h)(a \<mapsto> ?d\<lparr>d_imonitor := d_imonitor d + 1 + 1\<rparr>)\<rparr>"
  have "device_add_monitor (Some a) (Some p) h = Inr (0, ?g)"
    using assms by (auto simp: device_add_monitor_def heap_simps intro!: heap_eqI)
  moreover have "device_add_monitor (Some a) (Some p) ?g = Inr (0, ?h)"
    by (auto simp: device_add_monitor_def heap_simps intro!: heap_eqI)
  moreover have "device_destory (Some a) ?h = None"
  proof -
    let ?k = "?h\<lparr>devs := (devs h)(a \<mapsto> ?d\<lparr>d_imonitor := d_imonitor d + 1 + 1\<rparr>)\<rparr>"
    have "monitor_destory (Some p) g = None" if "mons g p = Some (?m\<lparr>m_next := Some p\<rparr>)" for g
      using monitor_destory_cyclic [of "Some p" g] that by (cases "monitor_destory (Some p) g") auto
    then show ?thesis using assms(3,4)
      by (simp add: device_destory_def heap_simps free_str_def)
  qed
  ultimately show ?thesis by (intro exI [of _ ?h]) simp
qed


theorem add_monitor_twice_destroy_hangs_witness:
  "\<exists>h'. bindr (device_add_monitor (Some 0) (Some 1)
        (empty_heap\<lparr>devs := [0 \<mapsto> blank_device], mons := [1 \<mapsto> blank_monitor]\<rparr>))
      (\<lambda>(code, g). device_add_monitor (Some 0) (Some 1) g) = Inr (0, h') \<and>
    device_destory (Some 0) h' = None"
  by (rule add_monitor_twice_destroy_hangs [of _ 0 blank_device 1 blank_monitor])
    (simp_all add: blank_device_def)

end
