(* ===== verification/WorkerPool.thy ===== *)
theory WorkerPool
  imports Prelude
begin

text \<open>
  The thread pools that wait on an I/O completion port: the loop of the workers and the code that
  stops them, as one transition system over the port's queue. Three classes have such a pool
  (\<open>CIocp\<close>, \<open>CIocpModel\<close>, \<open>net_wiocp_module\<close>); they differ in what a worker does with a packet, which
  is the parameter \<open>dispatch\<close> of the system and the subject of the contract \<open>pool_dispatch\<close>.

  A completion port is a FIFO queue of packets; a packet of an I/O operation carries the address of
  its \<open>OVERLAPPED\<close>. \<open>WaitForMultipleObjects\<close> is the parameter \<open>wait_fails\<close>: for how many handles the call fails at
  once instead of waiting until all of them are signalled. The law \<open>waits_as_documented\<close> says what the
  documentation of Windows says of it.
\<close>

section \<open>Packets and workers\<close>

datatype operation_type = POSTED_ACCEPT | POSTED_SEND | POSTED_RECV | POSTED_NULL

record packet =
  p_key :: uint32
  p_bytes :: uint32
  p_overlapped :: "nat option"
  p_op :: operation_type
  p_success :: bool
  p_error :: uint32

text \<open>\<open>PostQueuedCompletionStatus(port, 0, EXIT_CODE, NULL)\<close>.\<close>

definition EXIT_CODE :: uint32 where
  "EXIT_CODE = 0"

definition exit_packet :: packet where
  "exit_packet = \<lparr>p_key = EXIT_CODE, p_bytes = 0, p_overlapped = None, p_op = POSTED_NULL,
     p_success = True, p_error = 0\<rparr>"

text \<open>What a worker does with a packet: leave its loop, look at the event again, run the handler of
  the packet, or use a NULL \<open>OVERLAPPED\<close>.\<close>

datatype outcome = Leave | Loop | Handle | Crash

datatype wstate = Checking | Blocked | Handling packet | Gone | Crashed

text \<open>Where the thread in \<open>Stop\<close> is: not called, posting the exit packets (how many so far), waiting
  for the workers, or done, with every handle closed.\<close>

datatype stopper = Idle | Posting nat | Joining | Released

record pool =
  p_event :: bool
  p_queue :: "packet list"
  p_workers :: "wstate list"
  p_stop :: stopper

definition MAXIMUM_WAIT_OBJECTS :: nat where
  "MAXIMUM_WAIT_OBJECTS = 64"

definition waits_as_documented :: "(nat \<Rightarrow> bool) \<Rightarrow> bool" where
  "waits_as_documented wait_fails \<longleftrightarrow> (\<forall>n. wait_fails n \<longleftrightarrow> MAXIMUM_WAIT_OBJECTS < n)"

definition after_dispatch :: "outcome \<Rightarrow> packet \<Rightarrow> wstate" where
  "after_dispatch r p =
     (case r of Leave \<Rightarrow> Gone | Loop \<Rightarrow> Checking | Handle \<Rightarrow> Handling p | Crash \<Rightarrow> Crashed)"

text \<open>One step of a worker thread.\<close>

inductive worker_step :: "(packet \<Rightarrow> outcome) \<Rightarrow> pool \<Rightarrow> pool \<Rightarrow> bool" for dispatch where
  see_event: "i < length (p_workers s) \<Longrightarrow> p_workers s ! i = Checking \<Longrightarrow> p_event s \<Longrightarrow>
    worker_step dispatch s (s\<lparr>p_workers := (p_workers s)[i := Gone]\<rparr>)"
| go_wait: "i < length (p_workers s) \<Longrightarrow> p_workers s ! i = Checking \<Longrightarrow> \<not> p_event s \<Longrightarrow>
    worker_step dispatch s (s\<lparr>p_workers := (p_workers s)[i := Blocked]\<rparr>)"
| dequeue: "i < length (p_workers s) \<Longrightarrow> p_workers s ! i = Blocked \<Longrightarrow> p_queue s = p # ps \<Longrightarrow>
    worker_step dispatch s
      (s\<lparr>p_queue := ps, p_workers := (p_workers s)[i := after_dispatch (dispatch p) p]\<rparr>)"
| handled: "i < length (p_workers s) \<Longrightarrow> p_workers s ! i = Handling p \<Longrightarrow>
    worker_step dispatch s (s\<lparr>p_workers := (p_workers s)[i := Checking]\<rparr>)"

text \<open>One step of the other threads: an operation completes, or the stopping thread goes on.\<close>

inductive other_step :: "(nat \<Rightarrow> bool) \<Rightarrow> pool \<Rightarrow> pool \<Rightarrow> bool" for wait_fails where
  complete: "p_overlapped p \<noteq> None \<Longrightarrow> p_stop s \<noteq> Released \<Longrightarrow>
    other_step wait_fails s (s\<lparr>p_queue := p_queue s @ [p]\<rparr>)"
| set_event: "p_stop s = Idle \<Longrightarrow> other_step wait_fails s (s\<lparr>p_event := True, p_stop := Posting 0\<rparr>)"
| post_exit: "p_stop s = Posting k \<Longrightarrow> k < length (p_workers s) \<Longrightarrow>
    other_step wait_fails s (s\<lparr>p_queue := p_queue s @ [exit_packet], p_stop := Posting (Suc k)\<rparr>)"
| all_posted: "p_stop s = Posting (length (p_workers s)) \<Longrightarrow> other_step wait_fails s (s\<lparr>p_stop := Joining\<rparr>)"
| joined: "p_stop s = Joining \<Longrightarrow>
    list_all (\<lambda>w. w = Gone) (p_workers s) \<or> wait_fails (length (p_workers s)) \<Longrightarrow>
    other_step wait_fails s (s\<lparr>p_stop := Released\<rparr>)"

definition pool_step :: "(nat \<Rightarrow> bool) \<Rightarrow> (packet \<Rightarrow> outcome) \<Rightarrow> pool \<Rightarrow> pool \<Rightarrow> bool" where
  "pool_step wait_fails dispatch s t = (worker_step dispatch s t \<or> other_step wait_fails s t)"

text \<open>All threads created, none has started its loop yet.\<close>

definition init_pool :: "nat \<Rightarrow> pool" where
  "init_pool n = \<lparr>p_event = False, p_queue = [], p_workers = replicate n Checking, p_stop = Idle\<rparr>"

definition reachable :: "(nat \<Rightarrow> bool) \<Rightarrow> (packet \<Rightarrow> outcome) \<Rightarrow> nat \<Rightarrow> pool \<Rightarrow> bool" where
  "reachable wait_fails dispatch n s = (pool_step wait_fails dispatch)\<^sup>*\<^sup>* (init_pool n) s"

section \<open>The invariant\<close>

definition exits :: "pool \<Rightarrow> nat" where
  "exits s = length (filter (\<lambda>p. p = exit_packet) (p_queue s))"

definition gone :: "pool \<Rightarrow> nat" where
  "gone s = length (filter (\<lambda>w. w = Gone) (p_workers s))"

definition posted :: "pool \<Rightarrow> nat" where
  "posted s = (case p_stop s of Idle \<Rightarrow> 0 | Posting k \<Rightarrow> k | _ \<Rightarrow> length (p_workers s))"

text \<open>Every exit packet that was posted is still queued or has ended a worker.\<close>

definition pool_inv :: "(nat \<Rightarrow> bool) \<Rightarrow> nat \<Rightarrow> pool \<Rightarrow> bool" where
  "pool_inv F n s = (length (p_workers s) = n \<and> posted s \<le> exits s + gone s \<and>
     (p_event s \<longleftrightarrow> p_stop s \<noteq> Idle) \<and> Crashed \<notin> set (p_workers s) \<and>
     (\<forall>p \<in> set (p_queue s). p = exit_packet \<or> p_overlapped p \<noteq> None) \<and>
     (p_stop s = Released \<longrightarrow> \<not> F n \<longrightarrow> list_all (\<lambda>w. w = Gone) (p_workers s)))"

lemma count_update:
  "i < length ws \<Longrightarrow> length (filter P (ws[i := w])) + (if P (ws ! i) then 1 else 0)
     = length (filter P ws) + (if P w then 1 else 0)"
proof (induction ws arbitrary: i)
  case (Cons x ws)
  then show ?case by (cases i) auto
qed simp

text \<open>How many steps a worker has left once the event is set.\<close>

definition steps_left :: "wstate \<Rightarrow> nat" where
  "steps_left w = (case w of Blocked \<Rightarrow> 3 | Handling p \<Rightarrow> 2 | Checking \<Rightarrow> 1 | _ \<Rightarrow> 0)"

definition work_left :: "pool \<Rightarrow> nat" where
  "work_left s = sum_list (map steps_left (p_workers s))"

lemma work_update:
  "i < length ws \<Longrightarrow> sum_list (map steps_left (ws[i := w])) + steps_left (ws ! i)
     = sum_list (map steps_left ws) + steps_left w"
proof (induction ws arbitrary: i)
  case (Cons x ws)
  then show ?case by (cases i) auto
qed simp

lemma work_left_bound: "work_left s \<le> 3 * length (p_workers s)"
proof -
  have "sum_list (map steps_left ws) \<le> 3 * length ws" for ws
    by (induction ws) (auto simp: steps_left_def split: wstate.split)
  then show ?thesis by (simp add: work_left_def)
qed

section \<open>The contract of the dispatch function\<close>

locale pool_dispatch =
  fixes dispatch :: "packet \<Rightarrow> outcome"
  assumes exit_leaves: "dispatch exit_packet = Leave"
    and io_no_crash: "p_overlapped p \<noteq> None \<Longrightarrow> dispatch p \<noteq> Crash"
begin

lemma inv_init: "pool_inv F n (init_pool n)"
  by (auto simp: pool_inv_def init_pool_def posted_def exits_def gone_def)

lemma gone_stays:
  assumes "i < length ws" "ws ! i \<noteq> Gone" "list_all (\<lambda>w. w = Gone) ws"
  shows False
  using assms by (auto simp: list_all_length)

lemma inv_worker:
  assumes "worker_step dispatch s t" "pool_inv F n s"
  shows "pool_inv F n t"
  using assms
proof (cases rule: worker_step.cases)
  case (see_event i)
  then show ?thesis
    using assms(2) count_update [of i "p_workers s" "\<lambda>w. w = Gone" Gone] gone_stays [of i "p_workers s"]
    by (auto simp: pool_inv_def posted_def exits_def gone_def split: stopper.splits
        dest: set_update_subset_insert [THEN subsetD])
next
  case (go_wait i)
  then show ?thesis
    using assms(2) count_update [of i "p_workers s" "\<lambda>w. w = Gone" Blocked] gone_stays [of i "p_workers s"]
    by (auto simp: pool_inv_def posted_def exits_def gone_def split: stopper.splits
        dest: set_update_subset_insert [THEN subsetD])
next
  case (dequeue i p ps)
  let ?w = "after_dispatch (dispatch p) p"
  have p: "p = exit_packet \<or> p_overlapped p \<noteq> None" using assms(2) dequeue by (auto simp: pool_inv_def)
  then have w: "?w \<noteq> Crashed" "p = exit_packet \<Longrightarrow> ?w = Gone"
    using exit_leaves io_no_crash by (auto simp: after_dispatch_def split: outcome.splits)
  show ?thesis
    using assms(2) dequeue w count_update [of i "p_workers s" "\<lambda>w. w = Gone" ?w]
      gone_stays [of i "p_workers s"]
    by (auto simp: pool_inv_def posted_def exits_def gone_def split: stopper.splits if_splits
        dest: set_update_subset_insert [THEN subsetD])
next
  case (handled i p)
  then show ?thesis
    using assms(2) count_update [of i "p_workers s" "\<lambda>w. w = Gone" Checking] gone_stays [of i "p_workers s"]
    by (auto simp: pool_inv_def posted_def exits_def gone_def split: stopper.splits
        dest: set_update_subset_insert [THEN subsetD])
qed

lemma inv_other:
  assumes "other_step F s t" "pool_inv F n s"
  shows "pool_inv F n t"
  using assms
  by (cases rule: other_step.cases)
    (auto simp: pool_inv_def posted_def exits_def gone_def split: stopper.splits)

lemma inv_reachable: "reachable F dispatch n s \<Longrightarrow> pool_inv F n s"
  unfolding reachable_def
  by (induction rule: rtranclp_induct) (auto simp: inv_init pool_step_def intro: inv_worker inv_other)

text \<open>Once the event is set every step of a worker uses up some of the work left, and no other
  thread adds to it.\<close>

lemma worker_progress:
  assumes "worker_step dispatch s t" "p_event s"
  shows "work_left t < work_left s" "p_event t" "p_stop t = p_stop s"
    "length (p_workers t) = length (p_workers s)"
proof -
  show "work_left t < work_left s"
    using assms
  proof (cases rule: worker_step.cases)
    case (see_event i)
    then show ?thesis using work_update [of i "p_workers s" Gone]
      by (simp add: work_left_def steps_left_def [of Gone] steps_left_def [of Checking])
  next
    case (dequeue i p ps)
    moreover have "steps_left (after_dispatch (dispatch p) p) < 3"
      by (simp add: after_dispatch_def steps_left_def split: outcome.split)
    ultimately show ?thesis
      using work_update [of i "p_workers s" "after_dispatch (dispatch p) p"]
      by (simp add: work_left_def steps_left_def [of Blocked])
  next
    case (handled i p)
    then show ?thesis using work_update [of i "p_workers s" Checking]
      by (simp add: work_left_def steps_left_def [of Checking] steps_left_def [of "Handling p"])
  qed simp
qed (use assms in \<open>auto elim: worker_step.cases\<close>)

lemma other_work: "other_step F s t \<Longrightarrow> work_left t = work_left s"
  by (auto elim!: other_step.cases simp: work_left_def)

text \<open>While \<open>Stop\<close> waits, some worker can always go on, until all of them are gone.\<close>

lemma not_stuck:
  assumes "pool_inv F n s" "p_stop s = Joining" "\<not> list_all (\<lambda>w. w = Gone) (p_workers s)"
  shows "\<exists>t. worker_step dispatch s t"
proof -
  obtain i where i: "i < length (p_workers s)" "p_workers s ! i \<noteq> Gone"
    using assms(3) by (auto simp: list_all_length)
  have ev: "p_event s" and nc: "Crashed \<notin> set (p_workers s)" using assms(1,2) by (auto simp: pool_inv_def)
  show ?thesis
  proof (cases "p_workers s ! i")
    case Checking
    with i ev show ?thesis by (blast intro: worker_step.see_event)
  next
    case Blocked
    have "gone s < length (p_workers s)"
      unfolding gone_def using i by (intro length_filter_less [of "p_workers s ! i"]) auto
    then have "exits s \<noteq> 0" using assms(1,2) by (auto simp: pool_inv_def posted_def)
    then obtain p ps where "p_queue s = p # ps" by (cases "p_queue s") (auto simp: exits_def)
    with i(1) Blocked show ?thesis by (blast intro: worker_step.dequeue)
  next
    case (Handling p)
    with i show ?thesis by (blast intro: worker_step.handled)
  next
    case Gone
    with i show ?thesis by simp
  next
    case Crashed
    with i nc nth_mem show ?thesis by metis
  qed
qed

text \<open>So the workers reach the end of their loops in at most three steps each.\<close>

lemma all_leave:
  assumes "pool_inv F n s" "p_stop s = Joining"
  shows "\<exists>t k. (worker_step dispatch ^^ k) s t \<and> k \<le> work_left s \<and>
    list_all (\<lambda>w. w = Gone) (p_workers t) \<and> p_stop t = Joining"
  using assms
proof (induction "work_left s" arbitrary: s rule: less_induct)
  case less
  show ?case
  proof (cases "list_all (\<lambda>w. w = Gone) (p_workers s)")
    case True
    with less.prems show ?thesis by (intro exI [of _ s] exI [of _ 0]) simp
  next
    case False
    then obtain t where t: "worker_step dispatch s t" using not_stuck less.prems by blast
    have "p_event s" using less.prems by (auto simp: pool_inv_def)
    with t have w: "work_left t < work_left s" "p_stop t = Joining" "pool_inv F n t"
      using worker_progress inv_worker less.prems by auto
    from less.hyps [OF w(1,3,2)] obtain u k where
      "(worker_step dispatch ^^ k) t u" "k \<le> work_left t" "list_all (\<lambda>w. w = Gone) (p_workers u)"
      "p_stop u = Joining" by blast
    moreover from t this(1) have "(worker_step dispatch ^^ Suc k) s u" by (rule relpowp_Suc_I2)
    moreover have "Suc k \<le> work_left s" using calculation(2) w(1) by simp
    ultimately show ?thesis by blast
  qed
qed

lemma released_all_gone:
  "reachable F dispatch n s \<Longrightarrow> \<not> F n \<Longrightarrow> p_stop s = Released \<Longrightarrow>
     list_all (\<lambda>w. w = Gone) (p_workers s)"
  using inv_reachable by (simp add: pool_inv_def)

lemma stop_returns:
  assumes "reachable F dispatch n s" "p_stop s = Joining"
  shows "\<exists>t k. (worker_step dispatch ^^ k) s t \<and> k \<le> 3 * n \<and>
    list_all (\<lambda>w. w = Gone) (p_workers t) \<and> other_step F t (t\<lparr>p_stop := Released\<rparr>)"
proof -
  have inv: "pool_inv F n s" using assms(1) by (rule inv_reachable)
  then have "work_left s \<le> 3 * n" using work_left_bound [of s] by (simp add: pool_inv_def)
  obtain t k where t: "(worker_step dispatch ^^ k) s t" "k \<le> work_left s"
    "list_all (\<lambda>w. w = Gone) (p_workers t)" "p_stop t = Joining"
    using all_leave [OF inv assms(2)] by blast
  have "other_step F t (t\<lparr>p_stop := Released\<rparr>)" using t(3,4) by (intro other_step.joined) simp_all
  with t(1-3) \<open>work_left s \<le> 3 * n\<close> show ?thesis by (meson le_trans)
qed

end

section \<open>The stopping thread alone\<close>

text \<open>It posts its packets and comes to the wait whatever the workers do; where the wait fails it goes on at once.\<close>

lemma post_all:
  assumes "p_stop s = Posting k" "k \<le> length (p_workers s)"
  shows "(pool_step F d)\<^sup>*\<^sup>* s (s\<lparr>p_queue := p_queue s @ replicate (length (p_workers s) - k) exit_packet,
    p_stop := Posting (length (p_workers s))\<rparr>)"
  using assms
proof (induction "length (p_workers s) - k" arbitrary: s k)
  case 0
  then have "s\<lparr>p_queue := p_queue s @ replicate (length (p_workers s) - k) exit_packet,
      p_stop := Posting (length (p_workers s))\<rparr> = s" by simp
  then show ?case by simp
next
  case (Suc m)
  let ?t = "s\<lparr>p_queue := p_queue s @ [exit_packet], p_stop := Posting (Suc k)\<rparr>"
  have "pool_step F d s ?t" using Suc.hyps(2) Suc.prems
    by (auto simp: pool_step_def intro!: other_step.post_exit)
  moreover have "(pool_step F d)\<^sup>*\<^sup>* ?t (?t\<lparr>p_queue := p_queue ?t @ replicate (length (p_workers ?t) - Suc k) exit_packet,
      p_stop := Posting (length (p_workers ?t))\<rparr>)"
    using Suc.hyps(2) Suc.prems by (intro Suc.hyps(1)) auto
  moreover have "replicate (length (p_workers s) - k) exit_packet =
      exit_packet # replicate (length (p_workers s) - Suc k) exit_packet"
    using Suc.hyps(2) by (metis Suc_diff_Suc replicate_Suc zero_less_Suc zero_less_diff)
  ultimately show ?case by (simp add: converse_rtranclp_into_rtranclp)
qed

lemma stop_runs:
  assumes "p_stop s = Idle"
  shows "(pool_step F d)\<^sup>*\<^sup>* s (s\<lparr>p_event := True,
    p_queue := p_queue s @ replicate (length (p_workers s)) exit_packet, p_stop := Joining\<rparr>)"
proof -
  let ?a = "s\<lparr>p_event := True, p_stop := Posting 0\<rparr>"
  let ?b = "?a\<lparr>p_queue := p_queue s @ replicate (length (p_workers s)) exit_packet, p_stop := Posting (length (p_workers s))\<rparr>"
  have "pool_step F d s ?a" using assms unfolding pool_step_def by (intro disjI2 other_step.set_event)
  moreover have "(pool_step F d)\<^sup>*\<^sup>* ?a ?b" using post_all [of ?a 0 F d] by simp
  moreover have "pool_step F d ?b (?b\<lparr>p_stop := Joining\<rparr>)"
    unfolding pool_step_def by (intro disjI2 other_step.all_posted) simp
  ultimately show ?thesis by (simp add: converse_rtranclp_into_rtranclp rtranclp.rtrancl_into_rtrancl)
qed

definition joining :: "nat \<Rightarrow> pool" where
  "joining n = (init_pool n)\<lparr>p_event := True, p_queue := replicate n exit_packet, p_stop := Joining\<rparr>"

lemma joining_reachable: "reachable F d n (joining n)"
  using stop_runs [of "init_pool n" F d] by (simp add: reachable_def joining_def init_pool_def)

text \<open>A worker that has taken a packet and is in its handler when \<open>Stop\<close> comes: it is overtaken where the wait fails.\<close>

lemma handler_overtaken:
  assumes "p_overlapped p \<noteq> None" "d p = Handle" "0 < n" "F n"
  shows "\<exists>s. reachable F d n s \<and> p_stop s = Released \<and> Handling p \<in> set (p_workers s)"
proof -
  let ?s = "init_pool n"
  let ?a = "?s\<lparr>p_queue := [p]\<rparr>"
  let ?b = "?a\<lparr>p_workers := (p_workers ?s)[0 := Blocked]\<rparr>"
  let ?c = "?s\<lparr>p_workers := (p_workers ?s)[0 := Handling p]\<rparr>"
  let ?d = "?c\<lparr>p_event := True, p_queue := replicate n exit_packet, p_stop := Joining\<rparr>"
  have "pool_step F d ?s ?a"
    using other_step.complete [of p ?s F] assms(1) by (simp add: pool_step_def init_pool_def)
  moreover have "pool_step F d ?a ?b"
    using worker_step.go_wait [of 0 ?a d] assms(3) by (simp add: pool_step_def init_pool_def)
  moreover have "pool_step F d ?b ?c"
    using worker_step.dequeue [of 0 ?b p "[]" d] assms(2,3) by (simp add: pool_step_def init_pool_def after_dispatch_def)
  moreover have "(pool_step F d)\<^sup>*\<^sup>* ?c ?d"
    using stop_runs [of ?c F d] by (simp add: init_pool_def)
  moreover have "pool_step F d ?d (?d\<lparr>p_stop := Released\<rparr>)"
    using other_step.joined [of ?d F] assms(4) by (simp add: pool_step_def init_pool_def)
  ultimately have "reachable F d n (?d\<lparr>p_stop := Released\<rparr>)"
    unfolding reachable_def by (meson converse_rtranclp_into_rtranclp rtranclp.rtrancl_into_rtrancl)
  moreover have "Handling p \<in> set ((p_workers ?s)[0 := Handling p])"
    using assms(3) by (intro set_update_memI) (simp add: init_pool_def)
  ultimately show ?thesis by (intro exI [of _ "?d\<lparr>p_stop := Released\<rparr>"]) simp
qed

end
