(* ===== verification/Iocp.thy ===== *)
theory Iocp
  imports WorkerPool
begin

text \<open>
  Class \<open>CIocp\<close> (\<open>IOCPServer/Iocp.cpp\<close>) and class \<open>net_wiocp_module\<close> (\<open>io/net_wiocp_module.cpp\<close>):
  what their workers do with a packet, and how they create and release their handles.

  The kernel is the set of open handles; a call that creates one may fail, as \<open>k_fails\<close> says for the
  coming calls (behind its end they succeed). \<open>CloseHandle\<close> of a handle that is not open, or the
  deletion of a critical section that is not initialised, is a fault. Waiting for the workers is the
  subject of theory WorkerPool; here \<open>Stop\<close> goes on once they have left.
\<close>

section \<open>Handles\<close>

type_synonym handle = "nat option"

record kernel =
  k_next :: nat
  k_open :: "nat set"
  k_fails :: "bool list"
  k_section :: bool

definition create_handle :: "kernel \<Rightarrow> handle \<times> kernel" where
  "create_handle k =
     (case k_fails k of
        True # bs \<Rightarrow> (None, k\<lparr>k_fails := bs\<rparr>)
      | bs \<Rightarrow> (Some (k_next k), k\<lparr>k_next := Suc (k_next k), k_open := insert (k_next k) (k_open k),
                k_fails := tl bs\<rparr>))"

fun create_handles :: "nat \<Rightarrow> kernel \<Rightarrow> handle list \<times> kernel" where
  "create_handles 0 k = ([], k)"
| "create_handles (Suc n) k =
     (case create_handle k of (h, k) \<Rightarrow> (case create_handles n k of (hs, k) \<Rightarrow> (h # hs, k)))"

text \<open>\<open>RELEASE_HANDLE(x)\<close>; the variable is NULL afterwards.\<close>

definition RELEASE_HANDLE :: "handle \<Rightarrow> kernel \<Rightarrow> kernel res" where
  "RELEASE_HANDLE h k =
     (case h of
        None \<Rightarrow> Inr k
      | Some a \<Rightarrow> if a \<in> k_open k then Inr (k\<lparr>k_open := k_open k - {a}\<rparr>) else Inl Double_free)"

definition InitializeCriticalSection :: "kernel \<Rightarrow> kernel" where
  "InitializeCriticalSection k = k\<lparr>k_section := True\<rparr>"

definition DeleteCriticalSection :: "kernel \<Rightarrow> kernel res" where
  "DeleteCriticalSection k = (if k_section k then Inr (k\<lparr>k_section := False\<rparr>) else Inl Uninitialised)"

text \<open>The loop that releases the thread handles: \<open>n\<close> elements of an array that may be NULL.\<close>

definition release_threads :: "nat \<Rightarrow> handle list option \<Rightarrow> kernel \<Rightarrow> kernel res" where
  "release_threads n threads k =
     (case threads of
        None \<Rightarrow> if n = 0 then Inr k else Inl Null_deref
      | Some hs \<Rightarrow> if length hs < n then Inl Out_of_bounds else foldr_res RELEASE_HANDLE (take n hs) k)"

section \<open>Class CIocp\<close>

record iocp =
  m_hShutdownEvent :: handle
  m_hIOCompletionPort :: handle
  m_phWorkerThreads :: "handle list option"
  m_nThreads :: nat
  m_bStart :: bool

definition CIocp :: "nat \<Rightarrow> iocp" where
  "CIocp nThreads = \<lparr>m_hShutdownEvent = None, m_hIOCompletionPort = None, m_phWorkerThreads = None,
     m_nThreads = nThreads, m_bStart = False\<rparr>"

definition iocp_InitializeIOCP :: "iocp \<Rightarrow> kernel \<Rightarrow> bool \<times> iocp \<times> kernel" where
  "iocp_InitializeIOCP c k =
     (case create_handle k of (port, k) \<Rightarrow>
        let c = c\<lparr>m_hIOCompletionPort := port\<rparr> in
        if port = None then (False, c, k)
        else (case create_handles (m_nThreads c) k of (hs, k) \<Rightarrow>
          (True, c\<lparr>m_phWorkerThreads := Some hs\<rparr>, k)))"

definition iocp_Start :: "iocp \<Rightarrow> kernel \<Rightarrow> bool \<times> iocp \<times> kernel" where
  "iocp_Start c k =
     (let k = InitializeCriticalSection k in
      case create_handle k of (event, k) \<Rightarrow>
      let c = c\<lparr>m_hShutdownEvent := event\<rparr> in
      case iocp_InitializeIOCP c k of (ok, c, k) \<Rightarrow>
        if \<not> ok then (False, c, k) else (True, c\<lparr>m_bStart := True\<rparr>, k))"

definition iocp_DeInitialize :: "iocp \<Rightarrow> kernel \<Rightarrow> (iocp \<times> kernel) res" where
  "iocp_DeInitialize c k =
     bindr (DeleteCriticalSection k) (\<lambda>k.
     bindr (RELEASE_HANDLE (m_hShutdownEvent c) k) (\<lambda>k.
     bindr (release_threads (m_nThreads c) (m_phWorkerThreads c) k) (\<lambda>k.
     bindr (RELEASE_HANDLE (m_hIOCompletionPort c) k) (\<lambda>k.
       Inr (c\<lparr>m_hShutdownEvent := None, m_phWorkerThreads := None, m_hIOCompletionPort := None\<rparr>, k)))))"

text \<open>After the event, the exit packets and the wait, which WorkerPool describes.\<close>

definition iocp_Stop :: "iocp \<Rightarrow> kernel \<Rightarrow> (iocp \<times> kernel) res" where
  "iocp_Stop c k = iocp_DeInitialize c k"

definition iocp_AssociateWithIOCP :: "bool \<Rightarrow> bool" where
  "iocp_AssociateWithIOCP h = (if \<not> h then False else True)"

text \<open>The worker: an exit packet ends it, any other packet goes to the callback of its \<open>OVERLAPPED\<close>.\<close>

definition iocp_WorkerThread :: "packet \<Rightarrow> outcome" where
  "iocp_WorkerThread p =
     (if EXIT_CODE = p_key p then Leave
      else (case p_overlapped p of None \<Rightarrow> Crash | Some eo \<Rightarrow> Handle))"

section \<open>Class net_wiocp_module\<close>

record wiocp =
  m_handle_iocp :: handle
  m_ithreads :: nat
  m_phandle_threads :: "handle list option"
  m_handle_shutdown :: handle

definition net_wiocp_module :: "nat \<Rightarrow> wiocp" where
  "net_wiocp_module cpus = \<lparr>m_handle_iocp = None, m_ithreads = cpus * 2 + 2, m_phandle_threads = None,
     m_handle_shutdown = None\<rparr>"

text \<open>
  The table of the functions that Winsock hands out at run time, filled by the first module that gets a socket
  for it. \<open>WSAIoctl\<close> is the pointer that the system stores, if it does; \<open>sock\<close> is the result of \<open>socket\<close>.
\<close>

datatype guid = WSAID_ACCEPTEX | WSAID_GETACCEPTEXSOCKADDRS

record win32_extension_fns =
  lpfnAcceptEx :: "nat option"
  lpfnGetAcceptExSocketAddr :: "nat option"

record ext_state =
  the_extension_fns :: win32_extension_fns
  extension_fns_initialized :: bool
  ext_sockets :: "nat set"

definition get_exten_sion_fun :: "(nat \<Rightarrow> guid \<Rightarrow> nat option) \<Rightarrow> nat \<Rightarrow> guid \<Rightarrow> nat option" where
  "get_exten_sion_fun WSAIoctl fd guid = (case WSAIoctl fd guid of None \<Rightarrow> None | Some ptr \<Rightarrow> Some ptr)"

definition init_extension_functions :: "(nat \<Rightarrow> guid \<Rightarrow> nat option) \<Rightarrow> nat option \<Rightarrow> ext_state \<Rightarrow> ext_state" where
  "init_extension_functions WSAIoctl sock st = (case sock of
       None \<Rightarrow> st
     | Some s \<Rightarrow>
         let st = st\<lparr>ext_sockets := insert s (ext_sockets st)\<rparr>;
             ext = the_extension_fns st;
             ext = ext\<lparr>lpfnAcceptEx := get_exten_sion_fun WSAIoctl s WSAID_ACCEPTEX\<rparr>;
             ext = ext\<lparr>lpfnGetAcceptExSocketAddr := get_exten_sion_fun WSAIoctl s WSAID_GETACCEPTEXSOCKADDRS\<rparr>;
             st = st\<lparr>the_extension_fns := ext, ext_sockets := ext_sockets st - {s}\<rparr>
         in st\<lparr>extension_fns_initialized := True\<rparr>)"

definition wiocp_new :: "(nat \<Rightarrow> guid \<Rightarrow> nat option) \<Rightarrow> nat option \<Rightarrow> nat \<Rightarrow> ext_state \<Rightarrow> wiocp \<times> ext_state" where
  "wiocp_new WSAIoctl sock cpus st = (net_wiocp_module cpus,
     if \<not> extension_fns_initialized st then init_extension_functions WSAIoctl sock st else st)"

definition event_get_win32_extension_fns :: "ext_state \<Rightarrow> win32_extension_fns" where
  "event_get_win32_extension_fns st = the_extension_fns st"

text \<open>The socket is closed again, and once filled the table stays as it is.\<close>

lemma extension_fns_once:
  assumes "wiocp_new WSAIoctl sock cpus st = (c, st')" "\<And>s. sock = Some s \<Longrightarrow> s \<notin> ext_sockets st"
  shows "ext_sockets st' = ext_sockets st"
    and "extension_fns_initialized st' \<Longrightarrow> snd (wiocp_new WSAIoctl' sock' cpus' st') = st'"
    and "\<not> extension_fns_initialized st \<Longrightarrow> sock = Some s \<Longrightarrow> event_get_win32_extension_fns st'
      = \<lparr>lpfnAcceptEx = WSAIoctl s WSAID_ACCEPTEX, lpfnGetAcceptExSocketAddr = WSAIoctl s WSAID_GETACCEPTEXSOCKADDRS\<rparr>"
  using assms by (auto simp: wiocp_new_def init_extension_functions_def get_exten_sion_fun_def event_get_win32_extension_fns_def
      Let_def split: option.splits if_splits)

definition wiocp_start :: "wiocp \<Rightarrow> kernel \<Rightarrow> bool \<times> wiocp \<times> kernel" where
  "wiocp_start c k =
     (case create_handle k of (event, k) \<Rightarrow>
      case create_handle k of (port, k) \<Rightarrow>
      case create_handles (m_ithreads c) k of (hs, k) \<Rightarrow>
        (True, c\<lparr>m_handle_shutdown := event, m_handle_iocp := port, m_phandle_threads := Some hs\<rparr>, k))"

definition wiocp_destroy :: "wiocp \<Rightarrow> kernel \<Rightarrow> kernel res" where
  "wiocp_destroy c k =
     bindr (RELEASE_HANDLE (m_handle_iocp c) k) (\<lambda>k.
     bindr (release_threads (m_ithreads c) (m_phandle_threads c) k) (\<lambda>k.
       RELEASE_HANDLE (m_handle_shutdown c) k))"

definition wiocp_loop :: "packet \<Rightarrow> outcome" where
  "wiocp_loop p =
     (if p_key p \<noteq> EXIT_CODE \<and> p_overlapped p \<noteq> None then Handle
      else if p_overlapped p = None then Leave
      else Loop)"

text \<open>What \<open>shutdown\<close> puts into the queue of the port, before it waits for the workers.\<close>

definition wiocp_notify_all :: "wiocp \<Rightarrow> packet list \<Rightarrow> packet list" where
  "wiocp_notify_all c q = q @ replicate (m_ithreads c) exit_packet"

definition wiocp_associate :: "bool \<Rightarrow> bool" where
  "wiocp_associate hTemp = (if \<not> hTemp then False else True)"

section \<open>The contract holds for both\<close>

interpretation iocp: pool_dispatch iocp_WorkerThread
  by unfold_locales
    (auto simp: iocp_WorkerThread_def exit_packet_def split: option.split)

interpretation wiocp: pool_dispatch wiocp_loop
  by unfold_locales (auto simp: wiocp_loop_def exit_packet_def)

section \<open>Handles: lemmas and properties\<close>

text \<open>The handles of an object, and the objects whose handles are open and distinct.\<close>

definition handles_of :: "handle list \<Rightarrow> nat set" where
  "handles_of hs = {a. Some a \<in> set hs}"

definition owned :: "handle list \<Rightarrow> nat list" where
  "owned hs = List.map_filter id hs"

lemma owned_simps [simp]:
  "owned [] = []" "owned (None # hs) = owned hs" "owned (Some a # hs) = a # owned hs"
  "owned (xs @ ys) = owned xs @ owned ys"
  by (simp_all add: owned_def List.map_filter_def)

definition kernel_ok :: "kernel \<Rightarrow> bool" where
  "kernel_ok k = (\<forall>a \<in> k_open k. a < k_next k)"

lemma create_handle_cases:
  obtains bs where "create_handle k = (None, k\<lparr>k_fails := bs\<rparr>)"
  | bs where "create_handle k = (Some (k_next k), k\<lparr>k_next := Suc (k_next k),
      k_open := insert (k_next k) (k_open k), k_fails := bs\<rparr>)"
  by (cases "k_fails k"; cases "hd (k_fails k)") (auto simp: create_handle_def)

text \<open>What creating a list of handles adds to the kernel.\<close>

definition grown :: "kernel \<Rightarrow> nat list \<Rightarrow> kernel \<Rightarrow> bool" where
  "grown k as k' = (kernel_ok k' \<and> k_open k' = k_open k \<union> set as \<and> distinct as \<and>
     set as \<inter> k_open k = {} \<and> k_section k' = k_section k)"

lemma create_handle_grown:
  assumes "create_handle k = (h, k')" "kernel_ok k"
  shows "grown k (owned [h]) k'"
  using assms by (cases k rule: create_handle_cases) (auto simp: grown_def kernel_ok_def less_Suc_eq)

lemma grown_trans: "grown k as k' \<Longrightarrow> grown k' bs k'' \<Longrightarrow> grown k (as @ bs) k''"
  by (auto simp: grown_def)

lemma create_handles_grown:
  "create_handles n k = (hs, k') \<Longrightarrow> kernel_ok k \<Longrightarrow> grown k (owned hs) k' \<and> length hs = n"
proof (induction n arbitrary: k hs k')
  case 0
  then show ?case by (auto simp: grown_def)
next
  case (Suc n)
  obtain h k1 where h: "create_handle k = (h, k1)" by (cases "create_handle k")
  obtain hs1 k2 where hs: "create_handles n k1 = (hs1, k2)" by (cases "create_handles n k1")
  have g: "grown k (owned [h]) k1" using h Suc.prems(2) by (rule create_handle_grown)
  then have "grown k1 (owned hs1) k2 \<and> length hs1 = n" using Suc.IH [OF hs] by (simp add: grown_def)
  with grown_trans [OF g, of "owned hs1" k2] Suc.prems(1) h hs show ?case
    by (cases h) auto
qed

lemma release_all:
  assumes "distinct (owned hs)" "set (owned hs) \<subseteq> k_open k"
  shows "foldr_res RELEASE_HANDLE hs k = Inr (k\<lparr>k_open := k_open k - set (owned hs)\<rparr>)"
  using assms
proof (induction hs arbitrary: k)
  case (Cons h hs)
  show ?case
  proof (cases h)
    case None
    with Cons show ?thesis by (simp add: RELEASE_HANDLE_def)
  next
    case (Some a)
    let ?k = "k\<lparr>k_open := k_open k - {a}\<rparr>"
    have "RELEASE_HANDLE h k = Inr ?k" using Cons.prems Some by (simp add: RELEASE_HANDLE_def)
    moreover have "foldr_res RELEASE_HANDLE hs ?k = Inr (?k\<lparr>k_open := k_open ?k - set (owned hs)\<rparr>)"
      using Cons.prems Some by (intro Cons.IH) auto
    moreover have "k_open k - {a} - set (owned hs) = k_open k - set (owned (h # hs))" using Some by auto
    ultimately show ?thesis by simp
  qed
qed simp

lemma release_one: "set (owned [h]) \<subseteq> k_open k \<Longrightarrow>
    RELEASE_HANDLE h k = Inr (k\<lparr>k_open := k_open k - set (owned [h])\<rparr>)"
  by (cases h) (auto simp: RELEASE_HANDLE_def)


text \<open>A CIocp that was started has, after Stop, closed every handle that Start opened exactly
  once and no other, and deleted its critical section; a second Stop deletes the critical section
  again. When Start fails because there is no completion port, it leaves the event open, and Stop
  then reads the array of thread handles, which is still NULL.\<close>

theorem iocp_start_stop:
  assumes "kernel_ok k" "0 < n"
  shows "case iocp_Start (CIocp n) k of (ok, c, k') \<Rightarrow>
    if ok then
      \<exists>c' k''. iocp_Stop c k' = Inr (c', k'') \<and> k_open k'' = k_open k \<and> \<not> k_section k'' \<and>
        m_hShutdownEvent c' = None \<and> m_hIOCompletionPort c' = None \<and> m_phWorkerThreads c' = None \<and>
        iocp_Stop c' k'' = Inl Uninitialised
    else k_open k' = k_open k \<union> handles_of [m_hShutdownEvent c] \<and> iocp_Stop c k' = Inl Null_deref"
proof -
  let ?k = "InitializeCriticalSection k"
  obtain ev k1 where ev: "create_handle ?k = (ev, k1)" by (cases "create_handle ?k")
  obtain port k2 where port: "create_handle k1 = (port, k2)" by (cases "create_handle k1")
  obtain hs k3 where hs: "create_handles n k2 = (hs, k3)" by (cases "create_handles n k2")
  have g1: "grown ?k (owned [ev]) k1"
    using ev assms(1) by (intro create_handle_grown) (auto simp: kernel_ok_def InitializeCriticalSection_def)
  have g2: "grown k1 (owned [port]) k2"
    using port g1 by (intro create_handle_grown) (auto simp: grown_def)
  have g3: "grown k2 (owned hs) k3 \<and> length hs = n"
    using hs g2 by (intro create_handles_grown) (auto simp: grown_def)
  have k1: "k_section k1" "k_open k1 = k_open k \<union> set (owned [ev])" "set (owned [ev]) \<inter> k_open k = {}"
    using g1 by (auto simp: grown_def InitializeCriticalSection_def)
  have own: "set (owned [h]) = handles_of [h]" for h by (cases h) (auto simp: handles_of_def)
  show ?thesis
  proof (cases port)
    case None
    have k2: "k_open k2 = k_open k1" "k_section k2" using g2 None k1 by (auto simp: grown_def)
    let ?c = "(CIocp n)\<lparr>m_hShutdownEvent := ev, m_hIOCompletionPort := None\<rparr>"
    have "iocp_Start (CIocp n) k = (False, ?c, k2)"
      using ev port None by (simp add: iocp_Start_def iocp_InitializeIOCP_def CIocp_def Let_def)
    moreover have "RELEASE_HANDLE ev (k2\<lparr>k_section := False\<rparr>) =
        Inr (k2\<lparr>k_section := False, k_open := k_open k2 - set (owned [ev])\<rparr>)"
      using k1 k2 by (subst release_one) auto
    then have "iocp_Stop ?c k2 = Inl Null_deref"
      using k2 assms(2)
      by (simp add: iocp_Stop_def iocp_DeInitialize_def DeleteCriticalSection_def release_threads_def CIocp_def)
    ultimately show ?thesis using k1 k2 own by (simp add: CIocp_def)
  next
    case (Some q)
    let ?c = "(CIocp n)\<lparr>m_hShutdownEvent := ev, m_hIOCompletionPort := Some q, m_phWorkerThreads := Some hs,
        m_bStart := True\<rparr>"
    have start: "iocp_Start (CIocp n) k = (True, ?c, k3)"
      using ev port hs Some by (simp add: iocp_Start_def iocp_InitializeIOCP_def CIocp_def Let_def)
    have g: "grown ?k (owned [ev] @ owned [port] @ owned hs) k3"
      using grown_trans [OF g1 grown_trans [OF g2]] g3 by simp
    let ?k3 = "k3\<lparr>k_section := False\<rparr>"
    let ?k4 = "?k3\<lparr>k_open := k_open k3 - set (owned [ev])\<rparr>"
    let ?k5 = "?k4\<lparr>k_open := k_open ?k4 - set (owned hs)\<rparr>"
    let ?k6 = "?k5\<lparr>k_open := k_open ?k5 - set (owned [port])\<rparr>"
    have sec: "k_section k3" using g by (simp add: grown_def InitializeCriticalSection_def)
    have r1: "RELEASE_HANDLE ev ?k3 = Inr ?k4"
      using g by (subst release_one) (auto simp: grown_def)
    have r2: "foldr_res RELEASE_HANDLE hs ?k4 = Inr ?k5"
      using g by (intro release_all) (auto simp: grown_def)
    have r3: "RELEASE_HANDLE port ?k5 = Inr ?k6"
      using g by (intro release_one) (auto simp: grown_def)
    let ?c' = "?c\<lparr>m_hShutdownEvent := None, m_phWorkerThreads := None, m_hIOCompletionPort := None\<rparr>"
    have stop: "iocp_Stop ?c k3 = Inr (?c', ?k6)"
      using sec r1 r2 r3 g3 Some
      by (simp add: iocp_Stop_def iocp_DeInitialize_def DeleteCriticalSection_def release_threads_def CIocp_def)
    have op: "k_open ?k6 = k_open k"
      using g by (auto simp: grown_def InitializeCriticalSection_def)
    have again: "iocp_Stop ?c' ?k6 = Inl Uninitialised"
      by (simp add: iocp_Stop_def iocp_DeInitialize_def DeleteCriticalSection_def)
    show ?thesis using start stop op again by simp
  qed
qed

theorem iocp_start_stop_witness:
  "\<exists>c k' c' k''. iocp_Start (CIocp 2) \<lparr>k_next = 1, k_open = {0}, k_fails = [], k_section = False\<rparr> = (True, c, k') \<and>
     iocp_Stop c k' = Inr (c', k'') \<and> k_open k'' = {0}"
proof -
  let ?k = "\<lparr>k_next = 1, k_open = {0}, k_fails = [], k_section = False\<rparr>"
  have "fst (iocp_Start (CIocp 2) ?k)"
    by (simp add: iocp_Start_def iocp_InitializeIOCP_def CIocp_def create_handle_def
      InitializeCriticalSection_def numeral_2_eq_2)
  then show ?thesis
    using iocp_start_stop [of ?k 2]
    by (cases "iocp_Start (CIocp 2) ?k") (auto simp: kernel_ok_def)
qed

end
