(* ===== verification/IocpModel.thy ===== *)
theory IocpModel
  imports Iocp ByteOrder
begin

text \<open>
  Class \<open>CIocpModel\<close> (\<open>IOCPServer/IocpModel.cpp\<close>): the per-socket and per-operation contexts, the
  posting of accept, receive and send operations, the handlers of the workers, and the life of the
  server from its constructor to \<open>Stop\<close>.

  The network is a record: contexts by address, the outcomes of the coming \<open>WSASocket\<close> calls and of
  the coming calls that start an overlapped operation (behind the ends of the lists they succeed),
  the operations under way, the sockets closed and the data sent. A buffer of \<open>MAX_BUFFER_LEN\<close> bytes
  is the bytes written to it; the rest is zero.
\<close>

section \<open>Contexts\<close>

definition MAX_BUFFER_LEN :: nat where "MAX_BUFFER_LEN = 8192"
definition MAX_POST_ACCEPT :: nat where "MAX_POST_ACCEPT = 10"

text \<open>\<open>INVALID_SOCKET\<close> is \<open>None\<close>.\<close>

type_synonym socket = "nat option"

record io_context =
  m_sockAccept :: socket
  m_wsaBuf_len :: nat
  m_szBuffer :: string
  m_OpType :: operation_type
  m_busy :: bool

definition PER_IO_CONTEXT :: io_context where
  "PER_IO_CONTEXT = \<lparr>m_sockAccept = None, m_wsaBuf_len = MAX_BUFFER_LEN, m_szBuffer = [],
     m_OpType = POSTED_NULL, m_busy = False\<rparr>"

definition ResetBuffer :: "io_context \<Rightarrow> io_context" where
  "ResetBuffer c = c\<lparr>m_szBuffer := []\<rparr>"

text \<open>An address: \<open>sin_addr\<close> and \<open>sin_port\<close>, the port in network byte order.\<close>

type_synonym sockaddr = "uint32 \<times> uint16"

record socket_context =
  m_Socket :: socket
  m_ClientAddr :: sockaddr
  m_strIP :: string
  m_usPort :: uint16
  m_arrayIoContext :: "nat list"

definition PER_SOCKET_CONTEXT :: socket_context where
  "PER_SOCKET_CONTEXT = \<lparr>m_Socket = None, m_ClientAddr = (0, 0), m_strIP = [], m_usPort = 0,
     m_arrayIoContext = []\<rparr>"

record net =
  ios :: "nat \<Rightarrow> io_context option"
  scs :: "nat \<Rightarrow> socket_context option"
  n_fresh :: nat
  n_sock_fails :: "bool list"
  n_io_fails :: "bool list"
  n_pending :: "(operation_type \<times> nat) list"
  n_closed :: "nat list"
  n_sent :: "(socket \<times> string \<times> nat) list"

definition load_io :: "nat \<Rightarrow> net \<Rightarrow> io_context res" where
  "load_io i w = (case ios w i of None \<Rightarrow> Inl Use_after_free | Some c \<Rightarrow> Inr c)"

definition load_sc :: "nat \<Rightarrow> net \<Rightarrow> socket_context res" where
  "load_sc s w = (case scs w s of None \<Rightarrow> Inl Use_after_free | Some c \<Rightarrow> Inr c)"

definition upd_io :: "nat \<Rightarrow> (io_context \<Rightarrow> io_context) \<Rightarrow> net \<Rightarrow> net res" where
  "upd_io i f w = bindr (load_io i w) (\<lambda>c. Inr (w\<lparr>ios := (ios w)(i \<mapsto> f c)\<rparr>))"

definition upd_sc :: "nat \<Rightarrow> (socket_context \<Rightarrow> socket_context) \<Rightarrow> net \<Rightarrow> net res" where
  "upd_sc s f w = bindr (load_sc s w) (\<lambda>c. Inr (w\<lparr>scs := (scs w)(s \<mapsto> f c)\<rparr>))"

definition closesocket :: "socket \<Rightarrow> net \<Rightarrow> net" where
  "closesocket s w = (case s of None \<Rightarrow> w | Some a \<Rightarrow> w\<lparr>n_closed := n_closed w @ [a]\<rparr>)"

text \<open>\<open>delete\<close> of an operation context: its destructor closes its socket.\<close>

definition delete_io :: "nat \<Rightarrow> net \<Rightarrow> net res" where
  "delete_io i w = bindr (load_io i w) (\<lambda>c.
     let w = closesocket (m_sockAccept c) w in Inr (w\<lparr>ios := (ios w)(i := None)\<rparr>))"

definition delete_sc :: "nat \<Rightarrow> net \<Rightarrow> net res" where
  "delete_sc s w = bindr (load_sc s w) (\<lambda>c.
     let w = closesocket (m_Socket c) w in
     bindr (foldr_res delete_io (m_arrayIoContext c) w) (\<lambda>w.
       Inr (w\<lparr>scs := (scs w)(s := None)\<rparr>)))"

definition GetNewIoContext :: "nat \<Rightarrow> net \<Rightarrow> (nat \<times> net) res" where
  "GetNewIoContext s w =
     (let i = n_fresh w;
          w = w\<lparr>n_fresh := Suc i, ios := (ios w)(i \<mapsto> PER_IO_CONTEXT)\<rparr>
      in bindr (upd_sc s (\<lambda>c. c\<lparr>m_arrayIoContext := m_arrayIoContext c @ [i]\<rparr>) w) (\<lambda>w. Inr (i, w)))"

definition RemoveContext :: "nat \<Rightarrow> nat \<Rightarrow> net \<Rightarrow> net res" where
  "RemoveContext s i w =
     bindr (load_sc s w) (\<lambda>c.
       if i \<in> set (m_arrayIoContext c) then
         bindr (delete_io i w) (\<lambda>w.
           upd_sc s (\<lambda>c. c\<lparr>m_arrayIoContext := remove1 i (m_arrayIoContext c)\<rparr>) w)
       else Inr w)"

section \<open>Posting operations\<close>

text \<open>\<open>WSASocket\<close>, and the start of an overlapped operation.\<close>

definition WSASocket :: "net \<Rightarrow> socket \<times> net" where
  "WSASocket w =
     (case n_sock_fails w of
        True # bs \<Rightarrow> (None, w\<lparr>n_sock_fails := bs\<rparr>)
      | bs \<Rightarrow> (Some (n_fresh w), w\<lparr>n_fresh := Suc (n_fresh w), n_sock_fails := tl bs\<rparr>))"

definition start_io :: "operation_type \<Rightarrow> nat \<Rightarrow> net \<Rightarrow> bool \<times> net" where
  "start_io ty i w =
     (case n_io_fails w of
        True # bs \<Rightarrow> (False, w\<lparr>n_io_fails := bs\<rparr>)
      | bs \<Rightarrow> (True, w\<lparr>n_io_fails := tl bs, n_pending := n_pending w @ [(ty, i)]\<rparr>))"

text \<open>\<open>acceptex\<close> says whether the address of \<open>AcceptEx\<close> could be obtained.\<close>

definition PostAccept :: "bool \<Rightarrow> nat \<Rightarrow> net \<Rightarrow> (bool \<times> net) res" where
  "PostAccept acceptex i w =
     bindr (load_io i w) (\<lambda>c.
       if m_sockAccept c \<noteq> None then Inr (False, w)
       else
         bindr (upd_io i (\<lambda>c. c\<lparr>m_OpType := POSTED_ACCEPT\<rparr>) w) (\<lambda>w.
         case WSASocket w of (s, w) \<Rightarrow>
         bindr (upd_io i (\<lambda>c. c\<lparr>m_sockAccept := s\<rparr>) w) (\<lambda>w.
           if s = None then Inr (False, w)
           else
             bindr (upd_io i (\<lambda>c. c\<lparr>m_wsaBuf_len := (16 + 16) * 2 + 1\<rparr>) w) (\<lambda>w.
               if \<not> acceptex then Inl Null_deref
               else Inr (start_io POSTED_ACCEPT i w)))))"

definition PostRecv :: "nat \<Rightarrow> net \<Rightarrow> (bool \<times> net) res" where
  "PostRecv i w =
     bindr (upd_io i ResetBuffer w) (\<lambda>w.
     bindr (upd_io i (\<lambda>c. c\<lparr>m_OpType := POSTED_RECV\<rparr>) w) (\<lambda>w.
       Inr (start_io POSTED_RECV i w)))"

definition PostSend :: "nat \<Rightarrow> net \<Rightarrow> bool \<times> net" where
  "PostSend i w = (True, w)"

section \<open>The reply\<close>

definition crlf :: string where "crlf = [CHR 0x0D, CHR 0x0A]"

definition CustomHtml :: string where
  "CustomHtml =
     ''<html>'' @ crlf @
     ''<head>'' @ crlf @
     ''<title></title>'' @ crlf @
     ''</head>'' @ crlf @
     ''<body>'' @ crlf @
     ''<p align=/'' @ [CHR 0x22] @ ''center/'' @ [CHR 0x22] @ ''>'' @
     [CHR 0xBB, CHR 0xB6, CHR 0xD3, CHR 0xAD, CHR 0xB7, CHR 0xC3, CHR 0xCE, CHR 0xCA,
      CHR 0xCE, CHR 0xD2, CHR 0xB5, CHR 0xC4, CHR 0xD6, CHR 0xF7, CHR 0xD2, CHR 0xB3] @ ''</p>'' @ crlf @
     ''<h3 align=/'' @ [CHR 0x22] @ ''center/'' @ [CHR 0x22] @ ''><a href=Default.htm>'' @
     [CHR 0xBF, CHR 0xEC, CHR 0xC0, CHR 0xD6, CHR 0xCC, CHR 0xEC, CHR 0xB5, CHR 0xD8] @ ''</a></h3>'' @ crlf @
     ''<p>'' @ [CHR 0xBD, CHR 0xE1, CHR 0xCA, CHR 0xF8] @ ''</p>'' @ crlf @
     ''<p>'' @ [CHR 0xA1, CHR 0xA1] @ ''</p>'' @ crlf @
     ''</body></html>'' @ crlf @ crlf"

text \<open>\<open>hdrFmt\<close> with its three arguments.\<close>

definition hdrFmt :: "string \<Rightarrow> nat \<Rightarrow> string \<Rightarrow> string" where
  "hdrFmt date len body =
     ''HTTP/1.0 200 OK'' @ crlf @
     ''Server: MySocket Server'' @ crlf @
     ''Date: '' @ date @ crlf @
     ''Content-Type: text/html'' @ crlf @
     ''Accept-Encoding: gzip, deflate'' @ crlf @
     ''Accept-Ranges: bytes'' @ crlf @
     ''Content-Length: '' @ decimal len @ crlf @ crlf @ body"

definition strGmtNow :: string where
  "strGmtNow = ''16/07/14 09:31:00 GMT''"

definition reply :: string where
  "reply = hdrFmt strGmtNow (length CustomHtml) CustomHtml"

section \<open>Handlers\<close>

text \<open>
  A function of Winsock that is handed out at run time, and the association of a socket with the port, which no handler
  calls: the packets of an accepted socket never reach the workers.
\<close>

definition GetExtenSionFun :: "(nat \<Rightarrow> guid \<Rightarrow> nat option) \<Rightarrow> nat \<Rightarrow> guid \<Rightarrow> nat option" where
  "GetExtenSionFun WSAIoctl s which_fn = (case WSAIoctl s which_fn of None \<Rightarrow> None | Some ptr \<Rightarrow> Some ptr)"

definition model_AssociateWithIOCP :: "bool \<Rightarrow> bool" where
  "model_AssociateWithIOCP hTemp = (if \<not> hTemp then False else True)"

text \<open>
  \<open>inet_ntoa\<close> is a parameter; \<open>ntohs\<close> swaps the bytes on the little-endian hosts of Windows. \<open>ClientAddr\<close> is
  what \<open>GetAcceptExSockaddrs\<close> stores for the accepted connection; where it stores nothing the pointer stays null.
\<close>

definition DoAccept :: "(uint32 \<Rightarrow> string) \<Rightarrow> bool \<Rightarrow> sockaddr option \<Rightarrow> nat \<Rightarrow> net \<Rightarrow> (bool \<times> net) res" where
  "DoAccept inet_ntoa acceptex pClientAddr i w =
     bindr (load_io i w) (\<lambda>pIoContext.
     bindr (case pClientAddr of None \<Rightarrow> Inl Null_deref | Some a \<Rightarrow> Inr a) (\<lambda>ClientAddr.
     let s = n_fresh w;
         w = w\<lparr>n_fresh := Suc s, scs := (scs w)(s \<mapsto> PER_SOCKET_CONTEXT\<lparr>m_Socket := m_sockAccept pIoContext,
           m_ClientAddr := ClientAddr, m_strIP := inet_ntoa (fst ClientAddr),
           m_usPort := hton16 False (snd ClientAddr)\<rparr>)\<rparr>
     in
     bindr (GetNewIoContext s w) (\<lambda>(a, w).
     bindr (load_sc s w) (\<lambda>pNewSocketContext.
     bindr (upd_io a (\<lambda>c. c\<lparr>m_OpType := POSTED_SEND, m_sockAccept := m_Socket pNewSocketContext\<rparr>) w) (\<lambda>w.
     bindr (if length reply < MAX_BUFFER_LEN then upd_io a (\<lambda>c. c\<lparr>m_szBuffer := reply\<rparr>) w
            else Inl Out_of_bounds) (\<lambda>w.
     bindr (load_io a w) (\<lambda>c.
     let w = snd (start_io POSTED_SEND a w);
         w = w\<lparr>n_sent := n_sent w @ [(m_sockAccept c, m_szBuffer c, m_wsaBuf_len c)]\<rparr>
     in
     bindr (GetNewIoContext s w) (\<lambda>(b, w).
     bindr (upd_io b (\<lambda>c. ResetBuffer (c\<lparr>m_OpType := POSTED_RECV,
       m_sockAccept := m_Socket pNewSocketContext\<rparr>)) w) (\<lambda>w.
     bindr (PostRecv b w) (\<lambda>(ok, w).
       if \<not> ok then bindr (RemoveContext s b w) (\<lambda>w. Inr (False, w))
       else
         bindr (upd_io i ResetBuffer w) (\<lambda>w. PostAccept acceptex i w)))))))))))"

definition DoRecv :: "nat \<Rightarrow> net \<Rightarrow> bool \<times> net" where
  "DoRecv i w = (True, w)"

definition DoSend :: "nat \<Rightarrow> net \<Rightarrow> bool \<times> net" where
  "DoSend i w = (True, w)"

definition WAIT_TIMEOUT :: uint32 where "WAIT_TIMEOUT = 258"
definition ERROR_NETNAME_DELETED :: uint32 where "ERROR_NETNAME_DELETED = 64"

text \<open>The loop of the workers.\<close>

definition model_WorkerThread :: "packet \<Rightarrow> outcome" where
  "model_WorkerThread p =
     (if EXIT_CODE = p_key p then Leave
      else if \<not> p_success p then
        (if p_error p \<noteq> WAIT_TIMEOUT \<and> p_error p \<noteq> ERROR_NETNAME_DELETED then Leave else Loop)
      else
        (case p_overlapped p of
           None \<Rightarrow> Crash
         | Some io \<Rightarrow>
             if p_bytes p = 0 \<and> (p_op p = POSTED_RECV \<or> p_op p = POSTED_SEND) then Loop
             else (case p_op p of
                     POSTED_ACCEPT \<Rightarrow> Handle
                   | POSTED_RECV \<Rightarrow> Handle
                   | POSTED_SEND \<Rightarrow> Handle
                   | POSTED_NULL \<Rightarrow> Loop)))"

text \<open>What a worker that handles a packet does to the network.\<close>

definition handle_packet :: "(uint32 \<Rightarrow> string) \<Rightarrow> bool \<Rightarrow> sockaddr option \<Rightarrow> packet \<Rightarrow> net \<Rightarrow> (bool \<times> net) res" where
  "handle_packet inet_ntoa acceptex addr p w =
     (case p_overlapped p of
        None \<Rightarrow> Inl Null_deref
      | Some i \<Rightarrow>
          (case p_op p of
             POSTED_ACCEPT \<Rightarrow> DoAccept inet_ntoa acceptex addr i w
           | POSTED_RECV \<Rightarrow> Inr (DoRecv i w)
           | POSTED_SEND \<Rightarrow> Inr (DoSend i w)
           | POSTED_NULL \<Rightarrow> Inr (True, w)))"

interpretation model: pool_dispatch model_WorkerThread
  by unfold_locales
    (auto simp: model_WorkerThread_def exit_packet_def split: option.splits operation_type.splits if_splits)

section \<open>The life of the server\<close>

text \<open>\<open>m_pListenContext\<close> is not set by the constructor: \<open>None\<close> is an uninitialised pointer.\<close>

record iocp_model =
  sv_event :: handle
  sv_port :: handle
  sv_threads :: "handle list option"
  sv_nThreads :: nat
  sv_bStart :: bool
  sv_acceptex :: bool
  sv_listen :: "nat option option"

definition CIocpModel :: iocp_model where
  "CIocpModel = \<lparr>sv_event = None, sv_port = None, sv_threads = None, sv_nThreads = 0,
     sv_bStart = False, sv_acceptex = False, sv_listen = None\<rparr>"

text \<open>The outcomes of the system calls in \<open>_InitializeListenSocket\<close> that are not modelled further.\<close>

record listen_results =
  r_associate :: bool
  r_bind :: bool
  r_listen :: bool
  r_acceptex :: bool

definition model_InitializeIOCP :: "nat \<Rightarrow> iocp_model \<Rightarrow> kernel \<Rightarrow> bool \<times> iocp_model \<times> kernel" where
  "model_InitializeIOCP cpus sv k =
     (case create_handle k of (port, k) \<Rightarrow>
        let sv = sv\<lparr>sv_port := port\<rparr> in
        if port = None then (False, sv, k)
        else
          (let sv = sv\<lparr>sv_nThreads := 2 * cpus + 2\<rparr> in
           case create_handles (sv_nThreads sv) k of (hs, k) \<Rightarrow>
             (True, sv\<lparr>sv_threads := Some hs\<rparr>, k)))"

fun post_accepts :: "nat \<Rightarrow> bool \<Rightarrow> nat \<Rightarrow> net \<Rightarrow> (bool \<times> net) res" where
  "post_accepts 0 acceptex s w = Inr (True, w)"
| "post_accepts (Suc n) acceptex s w =
     bindr (GetNewIoContext s w) (\<lambda>(i, w).
     bindr (PostAccept acceptex i w) (\<lambda>(ok, w).
       if \<not> ok then bindr (RemoveContext s i w) (\<lambda>w. Inr (False, w))
       else post_accepts n acceptex s w))"

definition InitializeListenSocket ::
  "listen_results \<Rightarrow> iocp_model \<Rightarrow> net \<Rightarrow> (bool \<times> iocp_model \<times> net) res" where
  "InitializeListenSocket r sv w =
     (let s = n_fresh w;
          w = w\<lparr>n_fresh := Suc s, scs := (scs w)(s \<mapsto> PER_SOCKET_CONTEXT)\<rparr>;
          sv = sv\<lparr>sv_listen := Some (Some s)\<rparr>
      in case WSASocket w of (sock, w) \<Rightarrow>
         bindr (upd_sc s (\<lambda>c. c\<lparr>m_Socket := sock\<rparr>) w) (\<lambda>w.
           if sock = None then Inr (False, sv, w)
           else if \<not> r_associate r then
             bindr (delete_sc s w) (\<lambda>w. Inr (False, sv\<lparr>sv_listen := Some None\<rparr>, w))
           else if \<not> r_bind r then Inr (False, sv, w)
           else if \<not> r_listen r then Inr (False, sv, w)
           else
             (let sv = sv\<lparr>sv_acceptex := r_acceptex r\<rparr> in
              bindr (post_accepts MAX_POST_ACCEPT (sv_acceptex sv) s w) (\<lambda>(ok, w). Inr (ok, sv, w)))))"

definition release_listen :: "iocp_model \<Rightarrow> net \<Rightarrow> net res" where
  "release_listen sv w =
     (case sv_listen sv of
        None \<Rightarrow> Inl Uninitialised
      | Some None \<Rightarrow> Inr w
      | Some (Some s) \<Rightarrow> delete_sc s w)"

definition model_DeInitialize :: "iocp_model \<Rightarrow> kernel \<Rightarrow> net \<Rightarrow> (iocp_model \<times> kernel \<times> net) res" where
  "model_DeInitialize sv k w =
     bindr (DeleteCriticalSection k) (\<lambda>k.
     bindr (RELEASE_HANDLE (sv_event sv) k) (\<lambda>k.
     bindr (release_threads (sv_nThreads sv) (sv_threads sv) k) (\<lambda>k.
     bindr (RELEASE_HANDLE (sv_port sv) k) (\<lambda>k.
     bindr (release_listen sv w) (\<lambda>w.
       Inr (sv\<lparr>sv_event := None, sv_threads := None, sv_port := None, sv_listen := Some None\<rparr>, k, w))))))"

definition model_Start ::
  "nat \<Rightarrow> listen_results \<Rightarrow> iocp_model \<Rightarrow> kernel \<Rightarrow> net \<Rightarrow> (bool \<times> iocp_model \<times> kernel \<times> net) res" where
  "model_Start cpus r sv k w =
     (let k = InitializeCriticalSection k in
      case create_handle k of (event, k) \<Rightarrow>
      let sv = sv\<lparr>sv_event := event\<rparr> in
      case model_InitializeIOCP cpus sv k of (ok, sv, k) \<Rightarrow>
        if \<not> ok then Inr (False, sv, k, w)
        else
          bindr (InitializeListenSocket r sv w) (\<lambda>(ok, sv, w).
            if \<not> ok then bindr (model_DeInitialize sv k w) (\<lambda>(sv, k, w). Inr (False, sv, k, w))
            else Inr (True, sv\<lparr>sv_bStart := True\<rparr>, k, w)))"

text \<open>\<open>Stop\<close>, without the exit of the workers that WorkerPool describes, and the destructor.\<close>

definition model_Stop :: "iocp_model \<Rightarrow> kernel \<Rightarrow> net \<Rightarrow> (iocp_model \<times> kernel \<times> net) res" where
  "model_Stop sv k w =
     (case sv_listen sv of
        None \<Rightarrow> Inl Uninitialised
      | Some None \<Rightarrow> Inr (sv, k, w)
      | Some (Some s) \<Rightarrow>
          bindr (load_sc s w) (\<lambda>c.
            if m_Socket c \<noteq> None then model_DeInitialize sv k w else Inr (sv, k, w)))"

definition model_destroy :: "iocp_model \<Rightarrow> kernel \<Rightarrow> net \<Rightarrow> (iocp_model \<times> kernel \<times> net) res" where
  "model_destroy sv k w = model_Stop sv k w"

section \<open>Accepting connections\<close>

definition accepts :: "net \<Rightarrow> (operation_type \<times> nat) list" where
  "accepts w = filter (\<lambda>x. fst x = POSTED_ACCEPT) (n_pending w)"

definition net_ok :: "net \<Rightarrow> bool" where
  "net_ok w = (dom (ios w) \<subseteq> {..<n_fresh w} \<and> dom (scs w) \<subseteq> {..<n_fresh w})"

text \<open>The operation context still holds the socket of the accept it was posted with.\<close>

definition holds_socket :: "net \<Rightarrow> nat \<Rightarrow> bool" where
  "holds_socket w i = (\<exists>c. ios w i = Some c \<and> m_sockAccept c \<noteq> None)"

definition accepts_ok :: "net \<Rightarrow> bool" where
  "accepts_ok w = (\<forall>x \<in> set (accepts w). holds_socket w (snd x))"

definition starts :: "net \<Rightarrow> bool" where
  "starts w = (n_io_fails w = [] \<or> \<not> hd (n_io_fails w))"

lemma start_io_eq:
  "start_io ty i w = (starts w, w\<lparr>n_io_fails := tl (n_io_fails w),
     n_pending := n_pending w @ (if starts w then [(ty, i)] else [])\<rparr>)"
  by (cases "n_io_fails w") (auto simp: start_io_def starts_def split: bool.splits)

lemma length_reply: "length reply = 367"
  by code_simp

lemma io_simps [simp]:
  "ios w i = Some c \<Longrightarrow> load_io i w = Inr c" "scs w s = Some d \<Longrightarrow> load_sc s w = Inr d"
  "ios w i = Some c \<Longrightarrow> upd_io i f w = Inr (w\<lparr>ios := (ios w)(i \<mapsto> f c)\<rparr>)"
  "scs w s = Some d \<Longrightarrow> upd_sc s g w = Inr (w\<lparr>scs := (scs w)(s \<mapsto> g d)\<rparr>)"
  by (simp_all add: load_io_def load_sc_def upd_io_def upd_sc_def)

lemma PostAccept_busy:
  "ios w i = Some c \<Longrightarrow> m_sockAccept c = Some q \<Longrightarrow> PostAccept acceptex i w = Inr (False, w)"
  by (simp add: PostAccept_def)

lemma DoAccept_effect:
  assumes "ios w i = Some c" "m_sockAccept c = Some q" "net_ok w"
  shows "\<exists>w'. DoAccept ntoa acceptex (Some addr) i w = Inr (False, w') \<and> accepts w' = accepts w \<and>
    net_ok w' \<and> (\<forall>j. holds_socket w j \<longrightarrow> holds_socket w' j)"
proof -
  have i: "i < n_fresh w" using assms(1,3) by (auto simp: net_ok_def)
  then have ne: "i \<noteq> Suc (n_fresh w)" "i \<noteq> Suc (Suc (n_fresh w))" by auto
  have below: "j < n_fresh w" if "ios w j = Some d" for j d
    using that assms(3) by (auto simp: net_ok_def)
  have dom: "dom (ios w) \<subseteq> {..<n_fresh w}" "dom (scs w) \<subseteq> {..<n_fresh w}"
    using assms(3) by (auto simp: net_ok_def)
  show ?thesis
    using assms(1,2) i ne dom
    by (simp add: DoAccept_def GetNewIoContext_def PostRecv_def start_io_eq length_reply MAX_BUFFER_LEN_def
        Let_def RemoveContext_def delete_io_def PostAccept_busy ResetBuffer_def PER_SOCKET_CONTEXT_def
        PER_IO_CONTEXT_def closesocket_def)
      (auto simp: accepts_def holds_socket_def net_ok_def less_Suc_eq dest: below)
qed

definition creates :: "net \<Rightarrow> bool" where
  "creates w = (n_sock_fails w = [] \<or> \<not> hd (n_sock_fails w))"

lemma WSASocket_eq:
  "WSASocket w =
     (if creates w then (Some (n_fresh w), w\<lparr>n_fresh := Suc (n_fresh w), n_sock_fails := tl (n_sock_fails w)\<rparr>)
      else (None, w\<lparr>n_sock_fails := tl (n_sock_fails w)\<rparr>))"
  by (cases "n_sock_fails w") (auto simp: WSASocket_def creates_def split: bool.splits)

text \<open>A socket context whose operation contexts all exist, each listed once.\<close>

definition sc_ok :: "net \<Rightarrow> nat \<Rightarrow> bool" where
  "sc_ok w s = (\<exists>c. scs w s = Some c \<and> m_Socket c \<noteq> None \<and> distinct (m_arrayIoContext c) \<and>
     (\<forall>i \<in> set (m_arrayIoContext c). ios w i \<noteq> None))"

text \<open>The accepts under way belong to contexts of this socket.\<close>

definition accepts_in :: "net \<Rightarrow> nat \<Rightarrow> bool" where
  "accepts_in w s = (\<exists>c. scs w s = Some c \<and> snd ` set (accepts w) \<subseteq> set (m_arrayIoContext c))"

text \<open>One round of the loop that posts the accepts.\<close>

lemma post_one:
  assumes "net_ok w" "sc_ok w s" "accepts_ok w"
  shows "\<exists>ok w'. bindr (GetNewIoContext s w) (\<lambda>(i, w).
      bindr (PostAccept True i w) (\<lambda>(ok, w).
        if \<not> ok then bindr (RemoveContext s i w) (\<lambda>w. Inr (False, w)) else Inr (True, w))) = Inr (ok, w') \<and>
    net_ok w' \<and> sc_ok w' s \<and> accepts_ok w' \<and> (accepts_in w s \<longrightarrow> accepts_in w' s) \<and>
    length (accepts w') = length (accepts w) + (if ok then 1 else 0)"
proof -
  obtain c where c: "scs w s = Some c" "m_Socket c \<noteq> None" "distinct (m_arrayIoContext c)"
    "\<forall>i \<in> set (m_arrayIoContext c). ios w i \<noteq> None"
    using assms(2) by (auto simp: sc_ok_def)
  have dom: "dom (ios w) \<subseteq> {..<n_fresh w}" "dom (scs w) \<subseteq> {..<n_fresh w}"
    using assms(1) by (auto simp: net_ok_def)
  have below: "j < n_fresh w" if "ios w j = Some d" for j d using that dom by auto
  have s: "s < n_fresh w" using c(1) dom by auto
  have new: "n_fresh w \<notin> set (m_arrayIoContext c)" using c(4) below by fastforce
  have acc: "holds_socket w (snd x)" if "x \<in> set (n_pending w)" "fst x = POSTED_ACCEPT" for x
    using that assms(3) by (cases x) (auto simp: accepts_ok_def accepts_def)
  have old: "\<exists>c. ios w (snd x) = Some c \<and> m_sockAccept c \<noteq> None \<and> snd x \<noteq> n_fresh w"
    if "x \<in> set (n_pending w)" "fst x = POSTED_ACCEPT" for x
    using acc [OF that] below by (fastforce simp: holds_socket_def)
  let ?i = "n_fresh w"
  let ?prog = "bindr (GetNewIoContext s w) (\<lambda>(i, w).
      bindr (PostAccept True i w) (\<lambda>(ok, w).
        if \<not> ok then bindr (RemoveContext s i w) (\<lambda>w. Inr (False, w)) else Inr (True, w)))"
  have cleared: "(ios w)(?i := None) = ios w" using below [of ?i] by (cases "ios w ?i") (auto simp: fun_eq_iff)
  show ?thesis
  proof (cases "creates w \<and> starts w")
    case True
    let ?w = "w\<lparr>n_fresh := Suc (Suc ?i), n_sock_fails := tl (n_sock_fails w), n_io_fails := tl (n_io_fails w),
      scs := (scs w)(s \<mapsto> c\<lparr>m_arrayIoContext := m_arrayIoContext c @ [?i]\<rparr>),
      ios := (ios w)(?i \<mapsto> \<lparr>m_sockAccept = Some (Suc ?i), m_wsaBuf_len = 65, m_szBuffer = [],
        m_OpType = POSTED_ACCEPT, m_busy = False\<rparr>), n_pending := n_pending w @ [(POSTED_ACCEPT, ?i)]\<rparr>"
    have "?prog = Inr (True, ?w)"
      using True c(1) by (simp add: GetNewIoContext_def PostAccept_def WSASocket_eq start_io_eq Let_def
          PER_IO_CONTEXT_def creates_def starts_def)
    moreover have "net_ok ?w" using dom s by (auto simp: net_ok_def less_Suc_eq)
    moreover have "sc_ok ?w s" using c new by (auto simp: sc_ok_def)
    moreover have "\<exists>d. ios w b = Some d \<and> m_sockAccept d \<noteq> None \<and> b \<noteq> ?i"
      if "(POSTED_ACCEPT, b) \<in> set (n_pending w)" for b using old [OF that] by simp
    then have "accepts_ok ?w" by (fastforce simp: accepts_ok_def accepts_def holds_socket_def)
    moreover have "length (accepts ?w) = Suc (length (accepts w))" by (simp add: accepts_def)
    moreover have "accepts_in w s \<longrightarrow> accepts_in ?w s" using c(1) by (auto simp: accepts_in_def accepts_def)
    ultimately show ?thesis by (intro exI [of _ True] exI [of _ ?w]) simp
  next
    case False
    have "\<exists>w'. ?prog = Inr (False, w') \<and> ios w' = ios w \<and> scs w' = (scs w)(s \<mapsto> c) \<and>
        n_pending w' = n_pending w \<and> n_fresh w \<le> n_fresh w'"
      using False c(1) new cleared
      by (cases "creates w") (auto simp: GetNewIoContext_def PostAccept_def WSASocket_eq start_io_eq Let_def
          RemoveContext_def delete_io_def PER_IO_CONTEXT_def closesocket_def remove1_append creates_def starts_def)
    then obtain w' where w': "?prog = Inr (False, w')" "ios w' = ios w" "scs w' = (scs w)(s \<mapsto> c)"
      "n_pending w' = n_pending w" "n_fresh w \<le> n_fresh w'" by blast
    have "net_ok w'" using dom s w' by (auto simp: net_ok_def)
    moreover have "sc_ok w' s" using c w' by (auto simp: sc_ok_def)
    moreover have "accepts w' = accepts w" using w' by (simp add: accepts_def)
    moreover have "accepts_ok w'" using assms(3) w' by (auto simp: accepts_ok_def accepts_def holds_socket_def)
    moreover have "accepts_in w s \<longrightarrow> accepts_in w' s" using c(1) w' by (simp add: accepts_in_def accepts_def)
    ultimately show ?thesis using w'(1) by (intro exI [of _ False] exI [of _ w']) simp
  qed
qed

lemma post_accepts_effect:
  assumes "net_ok w" "sc_ok w s" "accepts_ok w"
  shows "\<exists>ok w'. post_accepts n True s w = Inr (ok, w') \<and> net_ok w' \<and> sc_ok w' s \<and> accepts_ok w' \<and>
    (accepts_in w s \<longrightarrow> accepts_in w' s) \<and> (ok \<longrightarrow> length (accepts w') = length (accepts w) + n)"
  using assms
proof (induction n arbitrary: w)
  case (Suc n)
  let ?step = "\<lambda>w. bindr (GetNewIoContext s w) (\<lambda>(i, w).
      bindr (PostAccept True i w) (\<lambda>(ok, w).
        if \<not> ok then bindr (RemoveContext s i w) (\<lambda>w. Inr (False, w)) else Inr (True, w)))"
  have unfold: "post_accepts (Suc n) True s w =
      bindr (?step w) (\<lambda>(ok, w). if ok then post_accepts n True s w else Inr (False, w))"
    by (simp add: bindr_assoc case_prod_unfold if_distrib [where f = "\<lambda>m. bindr m _"] cong: if_cong)
  obtain ok w1 where w1: "?step w = Inr (ok, w1)" "net_ok w1" "sc_ok w1 s" "accepts_ok w1"
    "accepts_in w s \<longrightarrow> accepts_in w1 s" "length (accepts w1) = length (accepts w) + (if ok then 1 else 0)"
    using post_one [OF Suc.prems] by blast
  show ?case
  proof (cases ok)
    case True
    with Suc.IH [OF w1(2-4)] w1 show ?thesis unfolding unfold by auto
  next
    case False
    with w1 show ?thesis unfolding unfold by auto
  qed
qed auto

text \<open>The accept completions the workers handle, one after the other: each takes the pending
  operation off the port and runs \<open>DoAccept\<close> on its context.\<close>

fun serve :: "(uint32 \<Rightarrow> string) \<Rightarrow> bool \<Rightarrow> (nat \<times> sockaddr) list \<Rightarrow> net \<Rightarrow> net res" where
  "serve ntoa acceptex [] w = Inr w"
| "serve ntoa acceptex ((i, addr) # conns) w =
     (if (POSTED_ACCEPT, i) \<in> set (n_pending w) then
        bindr (DoAccept ntoa acceptex (Some addr) i (w\<lparr>n_pending := remove1 (POSTED_ACCEPT, i) (n_pending w)\<rparr>))
          (\<lambda>(ok, w). serve ntoa acceptex conns w)
      else Inl Assert_failed)"

lemma serve_effect:
  assumes "net_ok w" "accepts_ok w" "distinct (map fst conns)"
    "\<forall>x \<in> set conns. (POSTED_ACCEPT, fst x) \<in> set (n_pending w)"
  shows "\<exists>w'. serve ntoa acceptex conns w = Inr w' \<and> length conns + length (accepts w') = length (accepts w)"
  using assms
proof (induction conns arbitrary: w)
  case (Cons x conns)
  obtain i addr where x: "x = (i, addr)" by (cases x)
  let ?w = "w\<lparr>n_pending := remove1 (POSTED_ACCEPT, i) (n_pending w)\<rparr>"
  have p: "(POSTED_ACCEPT, i) \<in> set (n_pending w)" using Cons.prems(4) x by simp
  then have pa: "(POSTED_ACCEPT, i) \<in> set (accepts w)" by (simp add: accepts_def)
  then have "holds_socket w i" using Cons.prems(2) by (force simp: accepts_ok_def)
  then obtain c q where c: "ios ?w i = Some c" "m_sockAccept c = Some q"
    by (auto simp: holds_socket_def)
  have "net_ok ?w" using Cons.prems(1) by (simp add: net_ok_def)
  from DoAccept_effect [OF c this] obtain w1 where
    w1: "DoAccept ntoa acceptex (Some addr) i ?w = Inr (False, w1)" "accepts w1 = accepts ?w" "net_ok w1"
      "\<And>j. holds_socket ?w j \<Longrightarrow> holds_socket w1 j" by blast
  have rem: "accepts ?w = remove1 (POSTED_ACCEPT, i) (accepts w)"
    by (simp add: accepts_def filter_remove1)
  have "accepts_ok w1"
    using Cons.prems(2) w1(4) notin_set_remove1
    by (fastforce simp: accepts_ok_def w1(2) rem holds_socket_def)
  moreover have "(POSTED_ACCEPT, fst y) \<in> set (n_pending w1)" if y: "y \<in> set conns" for y
  proof -
    have "fst y \<noteq> i" using Cons.prems(3) x y by force
    moreover have "(POSTED_ACCEPT, fst y) \<in> set (accepts w)"
      using Cons.prems(4) y by (simp add: accepts_def)
    ultimately have "(POSTED_ACCEPT, fst y) \<in> set (accepts w1)" by (simp add: w1(2) rem)
    then show ?thesis by (simp add: accepts_def)
  qed
  ultimately obtain w' where w': "serve ntoa acceptex conns w1 = Inr w'"
    "length conns + length (accepts w') = length (accepts w1)"
    using Cons.IH [of w1] w1(3) Cons.prems(3) by auto
  have "0 < length (accepts w)" using pa by (rule length_pos_if_in_set)
  then have "Suc (length (accepts w1)) = length (accepts w)"
    using pa by (simp add: w1(2) rem length_remove1)
  with w' p x w1(1) show ?case by simp
qed simp

lemma InitializeListenSocket_effect:
  assumes "net_ok w" "accepts w = []" "r_acceptex r"
  shows "\<exists>ok sv' w'. InitializeListenSocket r sv w = Inr (ok, sv', w') \<and> net_ok w' \<and> accepts_ok w' \<and>
    sv_event sv' = sv_event sv \<and> sv_port sv' = sv_port sv \<and> sv_threads sv' = sv_threads sv \<and>
    sv_nThreads sv' = sv_nThreads sv \<and>
    (ok \<longrightarrow> length (accepts w') = MAX_POST_ACCEPT \<and> (\<exists>s. sv_listen sv' = Some (Some s) \<and> sc_ok w' s \<and> accepts_in w' s)) \<and>
    (\<not> ok \<longrightarrow> (\<exists>p. sv_listen sv' = Some p \<and> (\<forall>s. p = Some s \<longrightarrow> (\<exists>c. scs w' s = Some c \<and>
       distinct (m_arrayIoContext c) \<and> (\<forall>i \<in> set (m_arrayIoContext c). ios w' i \<noteq> None)))))"
proof -
  let ?s = "n_fresh w"
  have dom: "dom (ios w) \<subseteq> {..<n_fresh w}" "dom (scs w) \<subseteq> {..<n_fresh w}"
    using assms(1) by (auto simp: net_ok_def)
  show ?thesis
  proof (cases "creates (w\<lparr>n_fresh := Suc ?s, scs := (scs w)(?s \<mapsto> PER_SOCKET_CONTEXT)\<rparr>) \<and>
      r_associate r \<and> r_bind r \<and> r_listen r")
    case True
    let ?w = "w\<lparr>n_fresh := Suc (Suc ?s), n_sock_fails := tl (n_sock_fails w),
      scs := (scs w)(?s \<mapsto> PER_SOCKET_CONTEXT\<lparr>m_Socket := Some (Suc ?s)\<rparr>)\<rparr>"
    let ?sv = "sv\<lparr>sv_listen := Some (Some ?s), sv_acceptex := True\<rparr>"
    have e: "InitializeListenSocket r sv w =
        bindr (post_accepts MAX_POST_ACCEPT True ?s ?w) (\<lambda>(ok, w). Inr (ok, ?sv, w))"
      using True assms(3) by (simp add: InitializeListenSocket_def WSASocket_eq Let_def)
    have "net_ok ?w" "sc_ok ?w ?s" "accepts_ok ?w" "accepts ?w = []" "accepts_in ?w ?s"
      using dom assms(2)
      by (auto simp: net_ok_def sc_ok_def PER_SOCKET_CONTEXT_def accepts_ok_def accepts_in_def accepts_def less_Suc_eq)
    from post_accepts_effect [OF this(1-3), of MAX_POST_ACCEPT] this(4,5) obtain ok w' where
      w': "post_accepts MAX_POST_ACCEPT True ?s ?w = Inr (ok, w')" "net_ok w'" "sc_ok w' ?s" "accepts_ok w'" "accepts_in w' ?s"
        "ok \<longrightarrow> length (accepts w') = MAX_POST_ACCEPT" by auto
    from w'(3) have "\<exists>c. scs w' ?s = Some c \<and> distinct (m_arrayIoContext c) \<and>
        (\<forall>i \<in> set (m_arrayIoContext c). ios w' i \<noteq> None)" by (auto simp: sc_ok_def)
    with w' show ?thesis unfolding e by (intro exI [of _ ok] exI [of _ ?sv] exI [of _ w']) auto
  next
    case False
    let ?w0 = "w\<lparr>n_fresh := Suc ?s, n_sock_fails := tl (n_sock_fails w), scs := (scs w)(?s \<mapsto> PER_SOCKET_CONTEXT)\<rparr>"
    have acc: "accepts_ok v" "net_ok v"
      if "n_pending v = n_pending w" "ios v = ios w" "dom (scs v) \<subseteq> insert ?s (dom (scs w))" "Suc ?s \<le> n_fresh v" for v
    proof -
      have "insert ?s (dom (scs w)) \<subseteq> {..<n_fresh v}" "dom (ios w) \<subseteq> {..<n_fresh v}"
        using dom that(4) by auto
      then show "net_ok v" using that(2,3) unfolding net_ok_def by (metis subset_trans)
      show "accepts_ok v" using that(1) assms(2) by (simp add: accepts_ok_def accepts_def)
    qed
    have "\<exists>sv' w'. InitializeListenSocket r sv w = Inr (False, sv', w') \<and>
      sv_event sv' = sv_event sv \<and> sv_port sv' = sv_port sv \<and> sv_threads sv' = sv_threads sv \<and>
      sv_nThreads sv' = sv_nThreads sv \<and> n_pending w' = n_pending w \<and> ios w' = ios w \<and>
      dom (scs w') \<subseteq> insert ?s (dom (scs w)) \<and> Suc ?s \<le> n_fresh w' \<and>
      (sv_listen sv' = Some None \<or> sv_listen sv' = Some (Some ?s) \<and>
        (\<exists>c. scs w' ?s = Some c \<and> m_arrayIoContext c = []))"
      using False
      by (cases "creates w"; cases "r_associate r"; cases "r_bind r")
        (auto simp: InitializeListenSocket_def WSASocket_eq Let_def delete_sc_def closesocket_def
          PER_SOCKET_CONTEXT_def creates_def)
    then obtain sv' w' where w': "InitializeListenSocket r sv w = Inr (False, sv', w')"
      "sv_event sv' = sv_event sv \<and> sv_port sv' = sv_port sv \<and> sv_threads sv' = sv_threads sv \<and>
       sv_nThreads sv' = sv_nThreads sv" "n_pending w' = n_pending w" "ios w' = ios w"
      "dom (scs w') \<subseteq> insert ?s (dom (scs w))" "Suc ?s \<le> n_fresh w'"
      "sv_listen sv' = Some None \<or> sv_listen sv' = Some (Some ?s) \<and>
        (\<exists>c. scs w' ?s = Some c \<and> m_arrayIoContext c = [])" by blast
    with acc [OF w'(3-6)] show ?thesis
      by (intro exI [of _ False] exI [of _ sv'] exI [of _ w']) auto
  qed
qed

text \<open>C18: the server accepts at most ten connections in its life: a successful
  _InitializeListenSocket leaves ten accepts pending, and handling any number of their completions
  uses them up one by one, because the handler never posts another accept: _PostAccept rejects a
  context that still holds the accepted socket.\<close>

theorem at_most_ten_connections:
  assumes "net_ok w" "accepts w = []" "r_acceptex r"
    and "InitializeListenSocket r sv w = Inr (True, sv', w1)"
    and "distinct (map fst conns)" "\<forall>x \<in> set conns. (POSTED_ACCEPT, fst x) \<in> set (n_pending w1)"
  shows "\<exists>w2. serve ntoa acceptex conns w1 = Inr w2 \<and>
    length conns + length (accepts w2) = MAX_POST_ACCEPT"
  using InitializeListenSocket_effect [OF assms(1-3), of sv] serve_effect [OF _ _ assms(5,6)] assms(4)
  by auto

definition empty_net :: net where
  "empty_net = \<lparr>ios = (\<lambda>i. None), scs = (\<lambda>s. None), n_fresh = 0, n_sock_fails = [], n_io_fails = [],
     n_pending = [], n_closed = [], n_sent = []\<rparr>"

definition all_succeed :: listen_results where
  "all_succeed = \<lparr>r_associate = True, r_bind = True, r_listen = True, r_acceptex = True\<rparr>"

theorem at_most_ten_connections_witness:
  "\<exists>sv w1 w2. InitializeListenSocket all_succeed CIocpModel empty_net = Inr (True, sv, w1) \<and>
    serve (\<lambda>a. ''1.2.3.4'') True [(2, (0, 80)), (4, (0, 80))] w1 = Inr w2 \<and> length (accepts w2) = 8"
proof -
  have "\<exists>sv w1. InitializeListenSocket all_succeed CIocpModel empty_net = Inr (True, sv, w1) \<and>
      {(POSTED_ACCEPT, 2), (POSTED_ACCEPT, 4)} \<subseteq> set (n_pending w1)"
    by (simp add: InitializeListenSocket_def all_succeed_def empty_net_def WSASocket_eq creates_def
        MAX_POST_ACCEPT_def eval_nat_numeral GetNewIoContext_def PostAccept_def start_io_eq starts_def
        PER_IO_CONTEXT_def PER_SOCKET_CONTEXT_def)
  then obtain sv w1 where w1: "InitializeListenSocket all_succeed CIocpModel empty_net = Inr (True, sv, w1)"
    "(POSTED_ACCEPT, 2) \<in> set (n_pending w1)" "(POSTED_ACCEPT, 4) \<in> set (n_pending w1)" by auto
  have "net_ok empty_net" "accepts empty_net = []" "r_acceptex all_succeed"
    by (auto simp: net_ok_def accepts_def empty_net_def all_succeed_def)
  from at_most_ten_connections [OF this w1(1), of "[(2, (0, 80)), (4, (0, 80))]" "\<lambda>a. ''1.2.3.4''" True] w1
  show ?thesis by (auto simp: MAX_POST_ACCEPT_def)
qed

section \<open>Starting and stopping\<close>

lemma delete_ios_ok:
  assumes "distinct is" "\<forall>i \<in> set is. ios w i \<noteq> None"
  shows "\<exists>w'. foldr_res delete_io is w = Inr w' \<and> scs w' = scs w \<and>
    ios w' = (\<lambda>i. if i \<in> set is then None else ios w i)"
  using assms
proof (induction "is" arbitrary: w)
  case (Cons i "is")
  then obtain c where c: "ios w i = Some c" by auto
  let ?w = "(closesocket (m_sockAccept c) w)\<lparr>ios := (ios w)(i := None)\<rparr>"
  have same: "ios (closesocket q w) = ios w" "scs (closesocket q w) = scs w" for q
    by (simp_all add: closesocket_def split: option.split)
  have "delete_io i w = Inr ?w" using c by (simp add: delete_io_def same)
  moreover have "\<exists>w'. foldr_res delete_io is ?w = Inr w' \<and> scs w' = scs ?w \<and>
      ios w' = (\<lambda>i. if i \<in> set is then None else ios ?w i)"
    using Cons.prems by (intro Cons.IH) auto
  ultimately show ?case by (auto simp: same fun_eq_iff)
qed simp

lemma delete_sc_ok:
  assumes "scs w s = Some c" "distinct (m_arrayIoContext c)" "\<forall>i \<in> set (m_arrayIoContext c). ios w i \<noteq> None"
  shows "\<exists>w'. delete_sc s w = Inr w' \<and> (\<forall>i \<in> set (m_arrayIoContext c). ios w' i = None)"
proof -
  have "ios (closesocket q w) = ios w" for q by (simp add: closesocket_def split: option.split)
  then have "\<forall>i \<in> set (m_arrayIoContext c). ios (closesocket (m_Socket c) w) i \<noteq> None" using assms(3) by simp
  from delete_ios_ok [OF assms(2) this] assms(1) show ?thesis by (auto simp: delete_sc_def)
qed

text \<open>\<open>_DeInitialize\<close> after the handles were created.\<close>

lemma model_DeInitialize_ok:
  assumes "grown k (owned [sv_event sv] @ owned [sv_port sv] @ owned hs) k'" "k_section k'"
    and "sv_threads sv = Some hs" "length hs = sv_nThreads sv" "release_listen sv w = Inr w'"
  shows "\<exists>k''. model_DeInitialize sv k' w =
      Inr (sv\<lparr>sv_event := None, sv_threads := None, sv_port := None, sv_listen := Some None\<rparr>, k'', w') \<and>
    k_open k'' = k_open k"
proof -
  let ?k3 = "k'\<lparr>k_section := False\<rparr>"
  let ?k4 = "?k3\<lparr>k_open := k_open k' - set (owned [sv_event sv])\<rparr>"
  let ?k5 = "?k4\<lparr>k_open := k_open ?k4 - set (owned hs)\<rparr>"
  let ?k6 = "?k5\<lparr>k_open := k_open ?k5 - set (owned [sv_port sv])\<rparr>"
  have r1: "RELEASE_HANDLE (sv_event sv) ?k3 = Inr ?k4"
    using assms(1) by (subst release_one) (auto simp: grown_def)
  have r2: "foldr_res RELEASE_HANDLE hs ?k4 = Inr ?k5"
    using assms(1) by (intro release_all) (auto simp: grown_def)
  have r3: "RELEASE_HANDLE (sv_port sv) ?k5 = Inr ?k6"
    using assms(1) by (intro release_one) (auto simp: grown_def)
  have "model_DeInitialize sv k' w =
      Inr (sv\<lparr>sv_event := None, sv_threads := None, sv_port := None, sv_listen := Some None\<rparr>, ?k6, w')"
    using assms(2-5) r1 r2 r3
    by (simp add: model_DeInitialize_def DeleteCriticalSection_def release_threads_def)
  moreover have "k_open ?k6 = k_open k" using assms(1) by (auto simp: grown_def)
  ultimately show ?thesis by blast
qed

text \<open>Start always returns; when it succeeds, Stop closes every handle Start opened and a second
  Stop does nothing; when it fails after the port was created, it has closed every handle again,
  although the worker threads are still running on them; and Stop of an object that was never
  started (or whose Start found no port) reads the pointer to the listening context, which the
  constructor does not set.\<close>

theorem model_start_stop:
  assumes "kernel_ok k" "net_ok w" "accepts w = []" "r_acceptex r"
  shows "\<exists>ok sv k' w'. model_Start cpus r CIocpModel k w = Inr (ok, sv, k', w') \<and>
    (if ok then \<exists>sv' k'' w''. model_Stop sv k' w' = Inr (sv', k'', w'') \<and> k_open k'' = k_open k \<and>
        model_Stop sv' k'' w'' = Inr (sv', k'', w'')
     else if sv_port CIocpModel = sv_port sv \<and> sv_nThreads sv = 0
     then k_open k' = k_open k \<union> handles_of [sv_event sv] \<and> model_Stop sv k' w' = Inl Uninitialised
     else k_open k' = k_open k \<and> sv_nThreads sv = 2 * cpus + 2) \<and>
    model_Stop CIocpModel k w = Inl Uninitialised"
proof -
  let ?k = "InitializeCriticalSection k"
  obtain ev k1 where ev: "create_handle ?k = (ev, k1)" by (cases "create_handle ?k")
  obtain port k2 where port: "create_handle k1 = (port, k2)" by (cases "create_handle k1")
  let ?n = "2 * cpus + 2"
  obtain hs k3 where hs: "create_handles ?n k2 = (hs, k3)" by (cases "create_handles ?n k2")
  have g1: "grown ?k (owned [ev]) k1"
    using ev assms(1) by (intro create_handle_grown) (auto simp: kernel_ok_def InitializeCriticalSection_def)
  have g2: "grown k1 (owned [port]) k2"
    using port g1 by (intro create_handle_grown) (auto simp: grown_def)
  have g3: "grown k2 (owned hs) k3 \<and> length hs = ?n"
    using hs g2 by (intro create_handles_grown) (auto simp: grown_def)
  have own: "set (owned [h]) = handles_of [h]" for h by (cases h) (auto simp: handles_of_def)
  have fresh: "model_Stop CIocpModel k w = Inl Uninitialised" by (simp add: model_Stop_def CIocpModel_def)
  show ?thesis
  proof (cases port)
    case None
    let ?sv = "CIocpModel\<lparr>sv_event := ev\<rparr>"
    have "model_Start cpus r CIocpModel k w = Inr (False, ?sv, k2, w)"
      using ev port None by (simp add: model_Start_def model_InitializeIOCP_def CIocpModel_def Let_def)
    moreover have "k_open k2 = k_open k \<union> handles_of [ev]"
      using g1 g2 None own [of ev] by (simp add: grown_def InitializeCriticalSection_def)
    ultimately show ?thesis using fresh
      by (intro exI [of _ False] exI [of _ ?sv] exI [of _ k2] exI [of _ w])
        (simp add: model_Stop_def CIocpModel_def)
  next
    case (Some q)
    let ?sv = "CIocpModel\<lparr>sv_event := ev, sv_port := Some q, sv_nThreads := ?n, sv_threads := Some hs\<rparr>"
    have g: "grown ?k (owned [ev] @ owned [port] @ owned hs) k3"
      using grown_trans [OF g1 grown_trans [OF g2]] g3 by simp
    have sec: "k_section k3" and op: "k_open ?k = k_open k"
      using g by (simp_all add: grown_def InitializeCriticalSection_def)
    obtain ok sv w' where l: "InitializeListenSocket r ?sv w = Inr (ok, sv, w')"
      "sv_event sv = ev" "sv_port sv = Some q" "sv_threads sv = Some hs" "sv_nThreads sv = ?n"
      "ok \<longrightarrow> (\<exists>s. sv_listen sv = Some (Some s) \<and> sc_ok w' s)"
      "\<not> ok \<longrightarrow> (\<exists>p. sv_listen sv = Some p \<and> (\<forall>s. p = Some s \<longrightarrow> (\<exists>c. scs w' s = Some c \<and>
         distinct (m_arrayIoContext c) \<and> (\<forall>i \<in> set (m_arrayIoContext c). ios w' i \<noteq> None))))"
      using InitializeListenSocket_effect [OF assms(2-4), of ?sv] by auto
    have start: "model_Start cpus r CIocpModel k w =
        (if ok then Inr (True, sv\<lparr>sv_bStart := True\<rparr>, k3, w')
         else bindr (model_DeInitialize sv k3 w') (\<lambda>(sv, k, w). Inr (False, sv, k, w)))"
      using ev port hs Some l(1)
      by (simp add: model_Start_def model_InitializeIOCP_def CIocpModel_def Let_def)
    show ?thesis
    proof (cases ok)
      case True
      then obtain s c where s: "sv_listen sv = Some (Some s)" "scs w' s = Some c" "m_Socket c \<noteq> None"
        "distinct (m_arrayIoContext c)" "\<forall>i \<in> set (m_arrayIoContext c). ios w' i \<noteq> None"
        using l(6) by (auto simp: sc_ok_def)
      obtain w'' where w'': "delete_sc s w' = Inr w''" using delete_sc_ok [OF s(2,4,5)] by blast
      let ?t = "sv\<lparr>sv_bStart := True\<rparr>"
      obtain k'' where d: "model_DeInitialize ?t k3 w' = Inr (?t\<lparr>sv_event := None, sv_threads := None,
          sv_port := None, sv_listen := Some None\<rparr>, k'', w'')" "k_open k'' = k_open k"
        using model_DeInitialize_ok [of ?k ?t hs k3 w' w''] g sec l s(1) w'' op g3 Some
        by (auto simp: release_listen_def)
      have "model_Stop ?t k3 w' = model_DeInitialize ?t k3 w'"
        using s by (simp add: model_Stop_def)
      with True start d fresh show ?thesis
        by (intro exI [of _ True] exI [of _ ?t] exI [of _ k3] exI [of _ w']) (simp add: model_Stop_def)
    next
      case False
      then obtain p where p: "sv_listen sv = Some p" "\<forall>s. p = Some s \<longrightarrow> (\<exists>c. scs w' s = Some c \<and>
          distinct (m_arrayIoContext c) \<and> (\<forall>i \<in> set (m_arrayIoContext c). ios w' i \<noteq> None))"
        using l(7) by blast
      have "\<exists>w''. release_listen sv w' = Inr w''"
        using p delete_sc_ok by (cases p) (fastforce simp: release_listen_def)+
      then obtain w'' where "release_listen sv w' = Inr w''" ..
      with model_DeInitialize_ok [of ?k sv hs k3 w' w''] g sec l op g3 Some obtain k'' where
        d: "model_DeInitialize sv k3 w' = Inr (sv\<lparr>sv_event := None, sv_threads := None,
          sv_port := None, sv_listen := Some None\<rparr>, k'', w'')" "k_open k'' = k_open k" by auto
      with False start fresh l(5) show ?thesis
        by (intro exI [of _ False] exI [of _ "sv\<lparr>sv_event := None, sv_threads := None,
          sv_port := None, sv_listen := Some None\<rparr>"] exI [of _ k''] exI [of _ w'']) simp
    qed
  qed
qed

theorem model_start_stop_witness:
  "\<exists>ok sv k' w'. model_Start 4 all_succeed CIocpModel
      \<lparr>k_next = 0, k_open = {}, k_fails = [], k_section = False\<rparr> empty_net = Inr (ok, sv, k', w') \<and>
    model_Stop CIocpModel \<lparr>k_next = 0, k_open = {}, k_fails = [], k_section = False\<rparr> empty_net = Inl Uninitialised"
  using model_start_stop [of "\<lparr>k_next = 0, k_open = {}, k_fails = [], k_section = False\<rparr>" empty_net all_succeed 4]
  by (auto simp: kernel_ok_def net_ok_def accepts_def empty_net_def all_succeed_def)

section \<open>The pools of the three classes\<close>

text \<open>The code of the workers in the three classes.\<close>

definition worker_loops :: "(packet \<Rightarrow> outcome) list" where
  "worker_loops = [iocp_WorkerThread, wiocp_loop, model_WorkerThread]"

text \<open>C19: in each of the three pools, with at most 64 workers and a wait that behaves as documented, whatever
  operations complete meanwhile:
  once Stop waits for the workers, some worker can always go on until all of them have left their
  loops, which takes at most three steps each, and then Stop goes on; and when Stop has released
  the event and the port, no worker is left that could use them.\<close>

theorem pools_stop:
  assumes "waits_as_documented F" "d \<in> set worker_loops" "n \<le> MAXIMUM_WAIT_OBJECTS" "reachable F d n s"
  shows "(p_stop s = Joining \<longrightarrow> (\<exists>t k. (worker_step d ^^ k) s t \<and> k \<le> 3 * n \<and>
      list_all (\<lambda>w. w = Gone) (p_workers t) \<and> other_step F t (t\<lparr>p_stop := Released\<rparr>))) \<and>
    (p_stop s = Joining \<and> \<not> list_all (\<lambda>w. w = Gone) (p_workers s) \<longrightarrow> (\<exists>t. worker_step d s t)) \<and>
    (p_stop s = Released \<longrightarrow> list_all (\<lambda>w. w = Gone) (p_workers s))"
proof -
  have "\<not> F n" using assms(1,3) by (simp add: waits_as_documented_def)
  then show ?thesis
    using assms(2,4) iocp.stop_returns [of F n s] wiocp.stop_returns [of F n s] model.stop_returns [of F n s]
      iocp.not_stuck [of F n s] wiocp.not_stuck [of F n s] model.not_stuck [of F n s]
      iocp.inv_reachable [of F n s] wiocp.inv_reachable [of F n s] model.inv_reachable [of F n s]
      iocp.released_all_gone [of F n s] wiocp.released_all_gone [of F n s] model.released_all_gone [of F n s]
    unfolding worker_loops_def by auto
qed

theorem pools_stop_witness:
  "\<exists>t k. (worker_step model_WorkerThread ^^ k) (joining 10) t \<and> k \<le> 30 \<and>
     list_all (\<lambda>w. w = Gone) (p_workers t)"
proof -
  have "waits_as_documented (\<lambda>n. MAXIMUM_WAIT_OBJECTS < n)" "model_WorkerThread \<in> set worker_loops"
    "10 \<le> MAXIMUM_WAIT_OBJECTS"
    by (simp_all add: waits_as_documented_def worker_loops_def MAXIMUM_WAIT_OBJECTS_def)
  from pools_stop [OF this joining_reachable] show ?thesis by (auto simp: joining_def)
qed

section \<open>More workers than Stop can wait for\<close>

lemma create_handles_succeed:
  "k_fails k = [] \<Longrightarrow> create_handles n k = (hs, k') \<Longrightarrow> None \<notin> set hs \<and> k_fails k' = []"
proof (induction n arbitrary: k hs k')
  case (Suc n)
  obtain h k1 where h: "create_handle k = (h, k1)" by (cases "create_handle k")
  obtain hs1 k2 where hs: "create_handles n k1 = (hs1, k2)" by (cases "create_handles n k1")
  have "h \<noteq> None" "k_fails k1 = []" using h Suc.prems(1) by (auto simp: create_handle_def)
  with Suc.IH [OF _ hs] Suc.prems(2) h hs show ?case by auto
qed simp

lemma length_owned: "None \<notin> set hs \<Longrightarrow> length (owned hs) = length hs"
proof (induction hs)
  case (Cons h hs)
  then show ?case by (cases h) auto
qed simp

text \<open>What a successful \<open>Start\<close> leaves behind, and that \<open>Stop\<close> then releases it.\<close>

lemma model_Start_succeeds:
  assumes k: "kernel_ok k" "k_fails k = []" and w: "net_ok w" "accepts w = []" "r_acceptex r"
    and start: "model_Start cpus r CIocpModel k w = Inr (True, sv, k', w')"
  shows "(\<exists>hs. sv_threads sv = Some hs \<and> None \<notin> set hs \<and> length hs = 2 * cpus + 2) \<and>
    (\<exists>sv'' k'' w''. model_Stop sv k' w' = Inr (sv'', k'', w'') \<and> k_open k'' = k_open k \<and>
      (\<forall>x \<in> set (accepts w'). ios w'' (snd x) = None))"
proof -
  let ?k = "InitializeCriticalSection k"
  obtain ev k1 where ev: "create_handle ?k = (ev, k1)" by (cases "create_handle ?k")
  obtain port k2 where port: "create_handle k1 = (port, k2)" by (cases "create_handle k1")
  obtain hs k3 where hs: "create_handles (2 * cpus + 2) k2 = (hs, k3)" by (cases "create_handles (2 * cpus + 2) k2")
  have f: "k_fails k1 = []" "k_fails k2 = []" "port \<noteq> None"
    using ev port k(2) by (auto simp: create_handle_def InitializeCriticalSection_def)
  have g1: "grown ?k (owned [ev]) k1"
    using ev k(1) by (intro create_handle_grown) (auto simp: kernel_ok_def InitializeCriticalSection_def)
  have g2: "grown k1 (owned [port]) k2" using port g1 by (intro create_handle_grown) (auto simp: grown_def)
  have g3: "grown k2 (owned hs) k3 \<and> length hs = 2 * cpus + 2"
    using hs g2 by (intro create_handles_grown) (auto simp: grown_def)
  have g: "grown ?k (owned [ev] @ owned [port] @ owned hs) k3" using grown_trans [OF g1 grown_trans [OF g2]] g3 by simp
  then have sec: "k_section k3" and op: "k_open ?k = k_open k" by (simp_all add: grown_def InitializeCriticalSection_def)
  let ?sv = "CIocpModel\<lparr>sv_event := ev, sv_port := port, sv_nThreads := 2 * cpus + 2, sv_threads := Some hs\<rparr>"
  have run: "model_Start cpus r CIocpModel k w = bindr (InitializeListenSocket r ?sv w) (\<lambda>(ok, sv, w).
      if \<not> ok then bindr (model_DeInitialize sv k3 w) (\<lambda>(sv, k, w). Inr (False, sv, k, w))
      else Inr (True, sv\<lparr>sv_bStart := True\<rparr>, k3, w))"
    using ev port hs f(3) by (auto simp: model_Start_def model_InitializeIOCP_def CIocpModel_def Let_def simp del: create_handles.simps)
  obtain ok sv1 w1 where l: "InitializeListenSocket r ?sv w = Inr (ok, sv1, w1)"
    "sv_event sv1 = ev" "sv_port sv1 = port" "sv_threads sv1 = Some hs" "sv_nThreads sv1 = 2 * cpus + 2"
    "ok \<longrightarrow> (\<exists>s. sv_listen sv1 = Some (Some s) \<and> sc_ok w1 s \<and> accepts_in w1 s)"
    using InitializeListenSocket_effect [OF w, of ?sv] by auto
  have "ok" using start run l(1) by (cases ok) (auto simp: bindr_def split: sum.splits)
  then have sv: "sv = sv1\<lparr>sv_bStart := True\<rparr>" "k' = k3" "w' = w1" using start run l(1) by auto
  obtain s c where s: "sv_listen sv1 = Some (Some s)" "scs w1 s = Some c" "m_Socket c \<noteq> None"
    "distinct (m_arrayIoContext c)" "\<forall>i \<in> set (m_arrayIoContext c). ios w1 i \<noteq> None"
    "snd ` set (accepts w1) \<subseteq> set (m_arrayIoContext c)"
    using l(6) \<open>ok\<close> by (auto simp: sc_ok_def accepts_in_def)
  obtain w2 where w2: "delete_sc s w1 = Inr w2" "\<forall>i \<in> set (m_arrayIoContext c). ios w2 i = None"
    using delete_sc_ok [OF s(2,4,5)] by blast
  obtain sv2 k4 where "model_DeInitialize sv k3 w1 = Inr (sv2, k4, w2)" "k_open k4 = k_open k"
    using model_DeInitialize_ok [of ?k sv hs k3 w1 w2] g sec l s(1) w2(1) op g3 sv
    by (auto simp: release_listen_def)
  then have "model_Stop sv k3 w1 = Inr (sv2, k4, w2) \<and> k_open k4 = k_open k"
    using s sv by (simp add: model_Stop_def)
  moreover have "\<forall>x \<in> set (accepts w1). ios w2 (snd x) = None" using s(6) w2(2) by blast
  moreover have "None \<notin> set hs" using create_handles_succeed [OF f(2) hs] by simp
  ultimately show ?thesis using sv l(4) g3 by auto
qed

text \<open>A packet for an accept under way, as the port hands it to a worker.\<close>

definition accept_packet :: "nat \<Rightarrow> packet" where
  "accept_packet i = \<lparr>p_key = 1, p_bytes = 0, p_overlapped = Some i, p_op = POSTED_ACCEPT, p_success = True, p_error = 0\<rparr>"

lemma accept_packet_simps [simp]: "p_op (accept_packet i) = POSTED_ACCEPT" "p_overlapped (accept_packet i) = Some i"
  by (simp_all add: accept_packet_def)

lemma accept_packet_handled: "model_WorkerThread (accept_packet i) = Handle"
  by (simp add: model_WorkerThread_def accept_packet_def EXIT_CODE_def)

text \<open>C34: Start creates two workers per processor and two more. If the call that waits for them behaves as
  documented, Stop can release everything while a worker is in the handler of an accept that Start has
  posted exactly when there are 32 processors or more. What Stop releases is the event, the port, the
  threads and the listening context with the contexts of its accepts, so that the handler, whatever address
  it finds, then uses a context that has been deleted.\<close>

theorem model_releases_too_early:
  assumes "waits_as_documented F" "kernel_ok k" "k_fails k = []" "net_ok w" "accepts w = []" "r_acceptex r"
    and "model_Start cpus r CIocpModel k w = Inr (True, sv, k', w')" "sv_threads sv = Some hs"
    and "(POSTED_ACCEPT, i) \<in> set (n_pending w')"
  shows "((\<exists>s p. reachable F model_WorkerThread (length (owned hs)) s \<and> p_stop s = Released \<and>
      Handling p \<in> set (p_workers s) \<and> p_op p = POSTED_ACCEPT \<and> p_overlapped p = Some i) \<longleftrightarrow> 32 \<le> cpus) \<and>
    (\<exists>sv'' k'' w''. model_Stop sv k' w' = Inr (sv'', k'', w'') \<and> k_open k'' = k_open k \<and>
      (\<forall>p addr. p_op p = POSTED_ACCEPT \<and> p_overlapped p = Some i \<longrightarrow>
        handle_packet ntoa acceptex addr p w'' = Inl Use_after_free))"
proof -
  let ?n = "2 * cpus + 2"
  note start = model_Start_succeeds [OF assms(2-7)]
  have st: "None \<notin> set hs" "length hs = ?n" using conjunct1 [OF start] unfolding assms(8) by simp_all
  note stop = conjunct2 [OF start]
  have n: "length (owned hs) = ?n" by (rule trans [OF length_owned [OF st(1)] st(2)])
  have fails: "F ?n \<longleftrightarrow> 32 \<le> cpus" using assms(1) unfolding waits_as_documented_def MAXIMUM_WAIT_OBJECTS_def by presburger
  have "(\<exists>s p. reachable F model_WorkerThread ?n s \<and> p_stop s = Released \<and>
      Handling p \<in> set (p_workers s) \<and> p_op p = POSTED_ACCEPT \<and> p_overlapped p = Some i) \<longleftrightarrow> F ?n" (is "?race \<longleftrightarrow> _")
  proof
    assume "?race"
    then obtain s p where s: "reachable F model_WorkerThread ?n s" "p_stop s = Released" "Handling p \<in> set (p_workers s)"
      by blast
    show "F ?n"
    proof (rule ccontr)
      assume "\<not> F ?n"
      from model.released_all_gone [OF s(1) this s(2)] s(3) show False by (auto simp: list_all_iff)
    qed
  next
    assume "F ?n"
    have "p_overlapped (accept_packet i) \<noteq> None" by simp
    from handler_overtaken [where F = F and n = ?n and d = model_WorkerThread, OF this accept_packet_handled] \<open>F ?n\<close> obtain s where
      "reachable F model_WorkerThread ?n s" "p_stop s = Released" "Handling (accept_packet i) \<in> set (p_workers s)"
      by auto
    then show "?race" by (intro exI [of _ s] exI [of _ "accept_packet i"]) simp
  qed
  moreover obtain sv'' k'' w'' where "model_Stop sv k' w' = Inr (sv'', k'', w'')" "k_open k'' = k_open k" "ios w'' i = None"
  proof -
    have "(POSTED_ACCEPT, i) \<in> set (accepts w')" using assms(9) by (simp add: accepts_def)
    then show ?thesis using that stop by force
  qed
  ultimately show ?thesis
    unfolding n fails by (simp add: handle_packet_def DoAccept_def load_io_def)
qed

theorem model_releases_too_early_witness:
  "\<exists>sv k' w' hs s p. model_Start 32 all_succeed CIocpModel \<lparr>k_next = 0, k_open = {}, k_fails = [], k_section = False\<rparr>
      empty_net = Inr (True, sv, k', w') \<and> sv_threads sv = Some hs \<and>
    reachable (\<lambda>n. MAXIMUM_WAIT_OBJECTS < n) model_WorkerThread (length (owned hs)) s \<and>
    p_stop s = Released \<and> Handling p \<in> set (p_workers s) \<and> p_overlapped p = Some 2"
proof -
  let ?k = "\<lparr>k_next = 0, k_open = {}, k_fails = [], k_section = False\<rparr>"
  obtain hs k3 where hs: "create_handles (2 * 32 + 2) (snd (create_handle (snd (create_handle (InitializeCriticalSection ?k))))) = (hs, k3)"
    by fastforce
  have "\<exists>sv k' w'. model_Start 32 all_succeed CIocpModel ?k empty_net = Inr (True, sv, k', w') \<and>
      sv_threads sv = Some hs \<and> (POSTED_ACCEPT, 2) \<in> set (n_pending w')"
    using hs by (simp add: model_Start_def model_InitializeIOCP_def create_handle_def InitializeCriticalSection_def CIocpModel_def
        InitializeListenSocket_def all_succeed_def empty_net_def WSASocket_eq creates_def
        MAX_POST_ACCEPT_def eval_nat_numeral GetNewIoContext_def PostAccept_def start_io_eq starts_def
        PER_IO_CONTEXT_def PER_SOCKET_CONTEXT_def del: create_handles.simps)
  then obtain sv k' w' where st: "model_Start 32 all_succeed CIocpModel ?k empty_net = Inr (True, sv, k', w')"
    "sv_threads sv = Some hs" "(POSTED_ACCEPT, 2) \<in> set (n_pending w')" by blast
  have "waits_as_documented (\<lambda>n. MAXIMUM_WAIT_OBJECTS < n)" "kernel_ok ?k" "k_fails ?k = []" "net_ok empty_net"
    "accepts empty_net = []" "r_acceptex all_succeed"
    by (auto simp: waits_as_documented_def kernel_ok_def net_ok_def accepts_def empty_net_def all_succeed_def)
  from conjunct1 [OF model_releases_too_early [OF this st]] obtain s p where
    "reachable (\<lambda>n. MAXIMUM_WAIT_OBJECTS < n) model_WorkerThread (length (owned hs)) s" "p_stop s = Released"
    "Handling p \<in> set (p_workers s)" "p_overlapped p = Some 2" by auto
  with st(1,2) show ?thesis by blast
qed

end
