(* ===== verification/TinyStr.thy ===== *)
theory TinyStr
  imports Prelude
begin

text \<open>
  \<open>TiXmlString\<close> (\<open>tinystr.h\<close>, \<open>tinystr.cpp\<close>) on an explicit heap of its \<open>Rep\<close> blocks. A string
  object is the address its \<open>rep_\<close> holds; address 0 is the static \<open>nullrep_\<close> that all empty
  strings share. The \<open>const char*\<close> arguments say what they point to, so a string appended to
  itself is the aliasing it is in the code. Sizes are 32-bit words and wrap.
\<close>

section \<open>Blocks and pointers\<close>

text \<open>\<open>struct Rep\<close>; the bytes of \<open>str\<close> that were never written are \<open>None\<close>.\<close>

record rep =
  rsize :: size_t
  rcapacity :: size_t
  rstr :: "char option list"

definition nullrep :: rep where
  "nullrep = \<lparr>rsize = 0, rcapacity = 0, rstr = [Some NUL]\<rparr>"

record strheap =
  reps :: "nat \<rightharpoonup> rep"
  fresh :: nat

text \<open>What a \<open>const char*\<close> argument points to: characters outside the heap, or into a block.\<close>

datatype char_ptr = Literal string | Inside nat nat

definition rep_at :: "strheap \<Rightarrow> nat \<Rightarrow> rep res" where
  "rep_at h s = (case reps h s of None \<Rightarrow> Inl Use_after_free | Some r \<Rightarrow> Inr r)"

definition mem_read :: "strheap \<Rightarrow> char_ptr \<Rightarrow> nat \<Rightarrow> char option list res" where
  "mem_read h p n = (case p of
      Literal s \<Rightarrow> if n \<le> length s + 1 then Inr (take n (map Some (s @ [NUL]))) else Inl Out_of_bounds
    | Inside a off \<Rightarrow> bindr (rep_at h a) (\<lambda>r.
        if off + n \<le> length (rstr r) then Inr (take n (drop off (rstr r))) else Inl Out_of_bounds))"

definition mem_write :: "strheap \<Rightarrow> nat \<Rightarrow> nat \<Rightarrow> char option list \<Rightarrow> strheap res" where
  "mem_write h a off bs = bindr (rep_at h a) (\<lambda>r.
     if off + length bs \<le> length (rstr r)
     then Inr (h\<lparr>reps := (reps h)(a \<mapsto> r\<lparr>rstr := take off (rstr r) @ bs @ drop (off + length bs) (rstr r)\<rparr>)\<rparr>)
     else Inl Out_of_bounds)"

text \<open>\<open>memcpy\<close> and \<open>memmove\<close> into a block: all bytes are read before any is written.\<close>

definition mem_move :: "strheap \<Rightarrow> nat \<Rightarrow> nat \<Rightarrow> char_ptr \<Rightarrow> size_t \<Rightarrow> strheap res" where
  "mem_move h a off p n = bindr (mem_read h p (unat n)) (mem_write h a off)"

section \<open>Operations\<close>

definition set_size :: "strheap \<Rightarrow> nat \<Rightarrow> size_t \<Rightarrow> strheap res" where
  "set_size h s sz = bindr (rep_at h s) (\<lambda>r.
     mem_write (h\<lparr>reps := (reps h)(s \<mapsto> r\<lparr>rsize := sz\<rparr>)\<rparr>) s (unat sz) [Some NUL])"

text \<open>\<open>sizeof(Rep)\<close> is 12 and \<open>str\<close> starts at byte 8; the allocation is a whole number of ints.\<close>

definition str_room :: "size_t \<Rightarrow> nat" where
  "str_room cap = (let bytesNeeded = 12 + cap; intsNeeded = (bytesNeeded + 4 - 1) div 4
                   in unat intsNeeded * 4 - 8)"

definition ts_init :: "size_t \<Rightarrow> size_t \<Rightarrow> strheap \<Rightarrow> (strheap \<times> nat) res" where
  "ts_init sz cap h =
     (if cap \<noteq> 0
      then let a = fresh h; r = \<lparr>rsize = sz, rcapacity = cap, rstr = replicate (str_room cap) None\<rparr>
           in bindr (mem_write (h\<lparr>reps := (reps h)(a \<mapsto> r), fresh := Suc a\<rparr>) a (unat sz) [Some NUL])
                (\<lambda>h'. Inr (h', a))
      else Inr (h, 0))"

definition ts_quit :: "nat \<Rightarrow> strheap \<Rightarrow> strheap res" where
  "ts_quit s h =
     (if s \<noteq> 0
      then (case reps h s of None \<Rightarrow> Inl Double_free | Some r \<Rightarrow> Inr (h\<lparr>reps := (reps h)(s := None)\<rparr>))
      else Inr h)"

definition ts_clear :: "strheap \<Rightarrow> nat \<Rightarrow> (strheap \<times> nat) res" where
  "ts_clear h s = bindr (ts_quit s h) (ts_init 0 0)"

text \<open>The local \<open>tmp\<close> takes the old block in the \<open>swap\<close> and its destructor releases it.\<close>

definition ts_reserve :: "size_t \<Rightarrow> strheap \<Rightarrow> nat \<Rightarrow> (strheap \<times> nat) res" where
  "ts_reserve cap h s = bindr (rep_at h s) (\<lambda>r.
     if cap > rcapacity r
     then bindr (ts_init (rsize r) cap h) (\<lambda>(h1, tmp).
          bindr (mem_move h1 tmp 0 (Inside s 0) (rsize r)) (\<lambda>h2.
          bindr (ts_quit s h2) (\<lambda>h3. Inr (h3, tmp))))
     else Inr (h, s))"

definition ts_assign :: "char_ptr \<Rightarrow> size_t \<Rightarrow> strheap \<Rightarrow> nat \<Rightarrow> (strheap \<times> nat) res" where
  "ts_assign p len h s = bindr (rep_at h s) (\<lambda>r.
     let cap = rcapacity r in
     if len > cap \<or> cap > 3 * (len + 8)
     then bindr (ts_init len len h) (\<lambda>(h1, tmp).
          bindr (mem_move h1 tmp 0 p len) (\<lambda>h2.
          bindr (ts_quit s h2) (\<lambda>h3. Inr (h3, tmp))))
     else bindr (mem_move h s 0 p len) (\<lambda>h1.
          bindr (set_size h1 s len) (\<lambda>h2. Inr (h2, s))))"

definition ts_append :: "char_ptr \<Rightarrow> size_t \<Rightarrow> strheap \<Rightarrow> nat \<Rightarrow> (strheap \<times> nat) res" where
  "ts_append p len h s = bindr (rep_at h s) (\<lambda>r.
     let newsize = rsize r + len in
     bindr (if newsize > rcapacity r then ts_reserve (newsize + rcapacity r) h s else Inr (h, s))
       (\<lambda>(h1, s1). bindr (rep_at h1 s1) (\<lambda>r1.
          bindr (mem_move h1 s1 (unat (rsize r1)) p len) (\<lambda>h2.
          bindr (set_size h2 s1 newsize) (\<lambda>h3. Inr (h3, s1))))))"

definition strlen32 :: "string \<Rightarrow> size_t" where
  "strlen32 c = of_nat (length (cstr c))"

text \<open>Constructors and the operators, each on the string's own block or a C string.\<close>

definition ts_new :: "string \<Rightarrow> strheap \<Rightarrow> (strheap \<times> nat) res" where
  "ts_new c h = bindr (ts_init (strlen32 c) (strlen32 c) h) (\<lambda>(h1, s).
     bindr (rep_at h1 s) (\<lambda>r. bindr (mem_move h1 s 0 (Literal (cstr c)) (rsize r)) (\<lambda>h2. Inr (h2, s))))"

definition ts_copy :: "nat \<Rightarrow> strheap \<Rightarrow> (strheap \<times> nat) res" where
  "ts_copy c h = bindr (rep_at h c) (\<lambda>rc. bindr (ts_init (rsize rc) (rsize rc) h) (\<lambda>(h1, s).
     bindr (rep_at h1 s) (\<lambda>r. bindr (mem_move h1 s 0 (Inside c 0) (rsize r)) (\<lambda>h2. Inr (h2, s)))))"

definition ts_add_lit :: "string \<Rightarrow> strheap \<Rightarrow> nat \<Rightarrow> (strheap \<times> nat) res" where
  "ts_add_lit c = ts_append (Literal (cstr c)) (strlen32 c)"

definition ts_add_char :: "char \<Rightarrow> strheap \<Rightarrow> nat \<Rightarrow> (strheap \<times> nat) res" where
  "ts_add_char c = ts_append (Literal [c]) 1"

definition ts_add_str :: "nat \<Rightarrow> strheap \<Rightarrow> nat \<Rightarrow> (strheap \<times> nat) res" where
  "ts_add_str suffix h s = bindr (rep_at h suffix) (\<lambda>r. ts_append (Inside suffix 0) (rsize r) h s)"

definition ts_set_lit :: "string \<Rightarrow> strheap \<Rightarrow> nat \<Rightarrow> (strheap \<times> nat) res" where
  "ts_set_lit c = ts_assign (Literal (cstr c)) (strlen32 c)"

definition ts_set_str :: "nat \<Rightarrow> strheap \<Rightarrow> nat \<Rightarrow> (strheap \<times> nat) res" where
  "ts_set_str c h s = bindr (rep_at h c) (\<lambda>r. ts_assign (Inside c 0) (rsize r) h s)"

text \<open>\<open>operator +\<close>: a temporary with room for both, then both appended.\<close>

definition ts_plus :: "nat \<Rightarrow> nat \<Rightarrow> strheap \<Rightarrow> (strheap \<times> nat) res" where
  "ts_plus a b h = bindr (rep_at h a) (\<lambda>ra. bindr (rep_at h b) (\<lambda>rb.
     bindr (ts_reserve (rsize ra + rsize rb) h 0) (\<lambda>(h1, t).
     bindr (ts_add_str a h1 t) (\<lambda>(h2, t2). ts_add_str b h2 t2))))"

section \<open>Reading\<close>

text \<open>The characters before the terminator, with the faults of reading on past what is there.\<close>

fun read_cstr :: "char option list \<Rightarrow> string res" where
  "read_cstr [] = Inl Out_of_bounds"
| "read_cstr (None # bs) = Inl Uninitialised"
| "read_cstr (Some c # bs) = (if c = NUL then Inr [] else bindr (read_cstr bs) (\<lambda>r. Inr (c # r)))"

definition c_str :: "strheap \<Rightarrow> nat \<Rightarrow> string res" where
  "c_str h s = bindr (rep_at h s) (\<lambda>r. read_cstr (rstr r))"

definition ts_at :: "strheap \<Rightarrow> nat \<Rightarrow> size_t \<Rightarrow> char res" where
  "ts_at h s i = bindr (rep_at h s) (\<lambda>r. if i < rsize r
     then (case rstr r ! unat i of None \<Rightarrow> Inl Uninitialised | Some c \<Rightarrow> Inr c)
     else Inl Assert_failed)"

fun find_loop :: "char option list \<Rightarrow> char \<Rightarrow> size_t \<Rightarrow> size_t res" where
  "find_loop [] x p = Inl Out_of_bounds"
| "find_loop (None # bs) x p = Inl Uninitialised"
| "find_loop (Some c # bs) x p =
     (if c = NUL then Inr (-1) else if c = x then Inr p else find_loop bs x (p + 1))"

definition ts_find :: "strheap \<Rightarrow> nat \<Rightarrow> char \<Rightarrow> size_t \<Rightarrow> size_t res" where
  "ts_find h s x offset = bindr (rep_at h s) (\<lambda>r.
     if offset \<ge> rsize r then Inr (-1)
     else find_loop (drop (unat offset) (rstr r)) x offset)"

text \<open>\<open>strcmp\<close> compares the characters as unsigned values.\<close>

fun strcmp :: "string \<Rightarrow> string \<Rightarrow> int" where
  "strcmp [] [] = 0"
| "strcmp [] (d # ds) = -1"
| "strcmp (c # cs) [] = 1"
| "strcmp (c # cs) (d # ds) = (if c = d then strcmp cs ds
     else if (of_char c :: nat) < of_char d then -1 else 1)"

definition ts_eq :: "strheap \<Rightarrow> nat \<Rightarrow> nat \<Rightarrow> bool res" where
  "ts_eq h a b = bindr (rep_at h a) (\<lambda>ra. bindr (rep_at h b) (\<lambda>rb.
     if rsize ra = rsize rb
     then bindr (c_str h a) (\<lambda>x. bindr (c_str h b) (\<lambda>y. Inr (strcmp x y = 0)))
     else Inr False))"

definition ts_less :: "strheap \<Rightarrow> nat \<Rightarrow> nat \<Rightarrow> bool res" where
  "ts_less h a b = bindr (c_str h a) (\<lambda>x. bindr (c_str h b) (\<lambda>y. Inr (strcmp x y < 0)))"

section \<open>The list a string stands for\<close>

definition heap_ok :: "strheap \<Rightarrow> bool" where
  "heap_ok h \<longleftrightarrow> reps h 0 = Some nullrep \<and> 0 < fresh h \<and> (\<forall>a \<ge> fresh h. reps h a = None)"

text \<open>The block of the string holds the characters and a terminator, within its capacity.\<close>

definition rep_holds :: "rep \<Rightarrow> string \<Rightarrow> bool" where
  "rep_holds r xs \<longleftrightarrow> unat (rsize r) = length xs \<and> rsize r \<le> rcapacity r
     \<and> unat (rcapacity r) < length (rstr r)
     \<and> (\<exists>rest. rstr r = map Some xs @ Some NUL # rest)"

definition holds :: "strheap \<Rightarrow> nat \<Rightarrow> string \<Rightarrow> bool" where
  "holds h s xs \<longleftrightarrow> (\<exists>r. reps h s = Some r \<and> rep_holds r xs)"

text \<open>What the source pointer of a copy delivers.\<close>

definition delivers :: "strheap \<Rightarrow> char_ptr \<Rightarrow> size_t \<Rightarrow> string \<Rightarrow> bool" where
  "delivers h p n ys \<longleftrightarrow> mem_read h p (unat n) = Inr (map Some ys)"

lemma str_room: "unat cap < 2 ^ 32 - 16 \<Longrightarrow> unat cap < str_room cap"
proof -
  assume a: "unat cap < 2 ^ 32 - 16"
  have "unat (12 + cap + 4 - 1) = unat cap + 15"
  proof -
    have "12 + cap + 4 - 1 = cap + 15" by simp
    moreover have "unat (cap + 15) = unat cap + 15"
      using a by (subst unat_add_lem [THEN iffD1]) (auto simp: )
    ultimately show ?thesis by metis
  qed
  then have "unat ((12 + cap + 4 - 1) div 4) = (unat cap + 15) div 4"
    by (simp add: unat_div_distrib del: add_diff_eq)
  then have "str_room cap = (unat cap + 15) div 4 * 4 - 8"
    by (simp only: str_room_def Let_def)
  then show ?thesis by presburger
qed

lemma rep_holdsD: "rep_holds r xs \<Longrightarrow> length xs < length (rstr r)"
  by (auto simp: rep_holds_def word_le_nat_alt)

lemma rep_holds_read: "rep_holds r xs \<Longrightarrow> take (length xs) (rstr r) = map Some xs"
  by (auto simp: rep_holds_def)

section \<open>Every operation refines its list operation\<close>

text \<open>
  \<open>becomes h s h' s' ys\<close>: the operation on the string \<open>s\<close> left it as \<open>s'\<close> with the
  characters \<open>ys\<close>, kept the heap well formed and every other block as it was.
\<close>

definition becomes :: "strheap \<Rightarrow> nat \<Rightarrow> strheap \<Rightarrow> nat \<Rightarrow> string \<Rightarrow> bool" where
  "becomes h s h' s' ys \<longleftrightarrow> heap_ok h' \<and> holds h' s' ys \<and>
     (\<forall>u r. (u \<noteq> s \<or> u = 0) \<and> reps h u = Some r \<longrightarrow> reps h' u = Some r \<and> (u = s' \<longrightarrow> u = 0))"

lemma becomes_trans:
  "becomes h s h1 s1 xs \<Longrightarrow> becomes h1 s1 h2 s2 ys \<Longrightarrow> becomes h s h2 s2 ys"
  unfolding becomes_def by metis

lemma becomes_frame:
  "becomes h s h' s' ys \<Longrightarrow> u \<noteq> s \<or> u = 0 \<Longrightarrow> holds h u zs \<Longrightarrow> holds h' u zs"
  unfolding becomes_def holds_def by metis

lemma becomes_delivers:
  "becomes h s h' s' xs \<Longrightarrow> (\<And>a off. p = Inside a off \<Longrightarrow> a \<noteq> s \<or> a = 0) \<Longrightarrow>
    delivers h p n ys \<Longrightarrow> delivers h' p n ys"
  by (fastforce simp: becomes_def delivers_def mem_read_def rep_at_def
      split: char_ptr.splits option.splits)

lemma heap_ok_null [heap_simps]: "heap_ok h \<Longrightarrow> holds h 0 xs \<longleftrightarrow> xs = []"
  by (auto simp: heap_ok_def holds_def nullrep_def rep_holds_def)

lemma heap_ok_fresh: "heap_ok h \<Longrightarrow> reps h a = Some r \<Longrightarrow> a \<noteq> fresh h"
  by (auto simp: heap_ok_def)

lemma mem_write_at [heap_simps]:
  "reps h a = Some r \<Longrightarrow> off + length bs \<le> length (rstr r) \<Longrightarrow> mem_write h a off bs =
    Inr (h\<lparr>reps := (reps h)(a \<mapsto> r\<lparr>rstr := take off (rstr r) @ bs @ drop (off + length bs) (rstr r)\<rparr>)\<rparr>)"
  by (simp add: mem_write_def rep_at_def)

lemma mem_move_at [heap_simps]:
  "delivers h p n ys \<Longrightarrow> mem_move h a off p n = mem_write h a off (map Some ys)"
  by (simp add: mem_move_def delivers_def)

text \<open>Writing the characters behind a prefix and then the size with its terminator.\<close>

lemma write_then_size:
  assumes r: "reps h s = Some r" "take (length xs) (rstr r) = map Some xs"
    and n: "unat n = length xs + length ys" "n \<le> rcapacity r" "unat (rcapacity r) < length (rstr r)"
    and p: "delivers h p len ys"
  obtains r' where "rep_holds r' (xs @ ys)" "rcapacity r' = rcapacity r" "r = nullrep \<Longrightarrow> r' = r"
    "\<And>F. bindr (mem_move h s (length xs) p len) (\<lambda>h2. bindr (set_size h2 s n) F)
          = F (h\<lparr>reps := (reps h)(s \<mapsto> r')\<rparr>)"
proof
  let ?k = "length xs + length ys"
  let ?r = "r\<lparr>rsize := n, rstr := map Some (xs @ ys) @ Some NUL # drop (Suc ?k) (rstr r)\<rparr>"
  have k: "?k < length (rstr r)" using n by (simp add: word_le_nat_alt)
  show "rep_holds ?r (xs @ ys)" "rcapacity ?r = rcapacity r"
    using n k by (auto simp: rep_holds_def)
  show "?r = r" if "r = nullrep"
  proof -
    have "n = 0" using n(2) that by (simp add: nullrep_def)
    then show ?thesis using n(1) that by (simp add: nullrep_def)
  qed
  have "take ?k (map Some xs @ map Some ys @ drop ?k (rstr r)) = map Some (xs @ ys)"
    by simp
  then show "bindr (mem_move h s (length xs) p len) (\<lambda>h2. bindr (set_size h2 s n) F)
      = F (h\<lparr>reps := (reps h)(s \<mapsto> ?r)\<rparr>)" for F
    using r p k n by (simp add: heap_simps set_size_def rep_at_def add.commute)
qed

text \<open>A fresh block of capacity \<open>cap\<close> filled from a pointer.\<close>

lemma fill_fresh:
  assumes ok: "heap_ok h" and n: "unat n = length ys" "n \<le> cap" "unat cap < 2 ^ 32 - 16"
    and p: "delivers h p n ys"
  obtains h2 t r where "heap_ok h2" "reps h2 t = Some r" "rep_holds r ys" "rcapacity r = cap"
    "\<And>u q. reps h u = Some q \<Longrightarrow> reps h2 u = Some q \<and> (u = t \<longrightarrow> u = 0)"
    "\<And>F. bindr (ts_init n cap h) (\<lambda>(h1, a). bindr (mem_move h1 a 0 p n) (\<lambda>h2. F h2 a)) = F h2 t"
proof (cases "cap = 0")
  case True
  then have "n = 0" using n by simp
  then have "ys = []" using n by simp
  show ?thesis
  proof (rule that [of h 0 nullrep])
    show "bindr (ts_init n cap h) (\<lambda>(h1, a). bindr (mem_move h1 a 0 p n) (\<lambda>h2. F h2 a)) = F h 0" for F
      using ok p True \<open>ys = []\<close> by (simp add: ts_init_def heap_simps heap_ok_def nullrep_def fun_upd_idem)
  qed (use ok True \<open>ys = []\<close> in \<open>auto simp: heap_ok_def nullrep_def rep_holds_def\<close>)
next
  case False
  let ?room = "replicate (str_room cap) None :: char option list"
  let ?blank = "take (unat n) ?room @ [Some NUL] @ drop (Suc (unat n)) ?room"
  let ?h1 = "h\<lparr>reps := (reps h)(fresh h \<mapsto> \<lparr>rsize = n, rcapacity = cap, rstr = ?blank\<rparr>), fresh := Suc (fresh h)\<rparr>"
  let ?r = "\<lparr>rsize = n, rcapacity = cap, rstr = map Some ys @ [Some NUL] @ drop (Suc (unat n)) ?room\<rparr>"
  let ?h2 = "h\<lparr>reps := (reps h)(fresh h \<mapsto> ?r), fresh := Suc (fresh h)\<rparr>"
  have room: "unat n < str_room cap" "unat cap < str_room cap"
    using str_room [OF n(3)] n(2) by (auto simp: word_le_nat_alt)
  have i: "ts_init n cap h = Inr (?h1, fresh h)"
    using False room by (simp add: ts_init_def Let_def heap_simps)
  have d: "delivers ?h1 p n ys"
    using p ok by (auto simp: delivers_def mem_read_def rep_at_def heap_ok_def
        split: char_ptr.splits option.splits)
  have w: "mem_move ?h1 (fresh h) 0 p n = Inr ?h2"
    unfolding mem_move_at [OF d] using room n(1) by (simp add: mem_write_at)
  show ?thesis
  proof (rule that [of ?h2 "fresh h" ?r])
    show "heap_ok ?h2" using ok by (auto simp: heap_ok_def)
    show "rep_holds ?r ys" using n room by (auto simp: rep_holds_def)
    show "reps ?h2 u = Some q \<and> (u = fresh h \<longrightarrow> u = 0)" if "reps h u = Some q" for u q
      using that heap_ok_fresh [OF ok that] by simp
    show "bindr (ts_init n cap h) (\<lambda>(h1, a). bindr (mem_move h1 a 0 p n) (\<lambda>h2. F h2 a)) = F ?h2 (fresh h)" for F
      unfolding i using w by (simp only: bindr_Inr prod.case)
  qed simp_all
qed

text \<open>The old block is released once the new one is filled.\<close>

lemma replace_block:
  assumes ok: "heap_ok h" and s: "reps h s = Some q" and n: "unat n = length ys" "n \<le> cap" "unat cap < 2 ^ 32 - 16"
    and p: "delivers h p n ys"
  obtains h3 t r where "becomes h s h3 t ys" "reps h3 t = Some r" "rcapacity r = cap"
    "s \<noteq> 0 \<Longrightarrow> reps h3 s = None"
    "bindr (ts_init n cap h) (\<lambda>(h1, a). bindr (mem_move h1 a 0 p n) (\<lambda>h2.
       bindr (ts_quit s h2) (\<lambda>h3. Inr (h3, a)))) = Inr (h3, t)"
proof (rule fill_fresh [OF ok n p])
  fix h2 t r
  assume a: "heap_ok h2" "reps h2 t = Some r" "rep_holds r ys" "rcapacity r = cap"
    and keep: "\<And>u q. reps h u = Some q \<Longrightarrow> reps h2 u = Some q \<and> (u = t \<longrightarrow> u = 0)"
    and run: "\<And>F :: strheap \<Rightarrow> nat \<Rightarrow> (strheap \<times> nat) res.
      bindr (ts_init n cap h) (\<lambda>(h1, a). bindr (mem_move h1 a 0 p n) (\<lambda>h2. F h2 a)) = F h2 t"
  let ?h3 = "if s = 0 then h2 else h2\<lparr>reps := (reps h2)(s := None)\<rparr>"
  have q: "ts_quit s h2 = Inr ?h3" using keep [OF s] by (simp add: ts_quit_def)
  have t: "s \<noteq> 0 \<Longrightarrow> t \<noteq> s" using keep [OF s] by auto
  show thesis
  proof (rule that [of ?h3 t r])
    show "becomes h s ?h3 t ys"
      using a keep t by (auto simp: becomes_def heap_ok_def holds_def)
    show "reps ?h3 t = Some r" using a t by auto
  qed (use a run q in simp_all)
qed

lemma reserve_spec:
  assumes ok: "heap_ok h" and r: "reps h s = Some r" "rep_holds r xs" and c: "unat cap < 2 ^ 32 - 16"
  obtains h' s' r' where "ts_reserve cap h s = Inr (h', s')" "becomes h s h' s' xs"
    "reps h' s' = Some r'" "rcapacity r' = max cap (rcapacity r)"
    "rcapacity r < cap \<Longrightarrow> s \<noteq> 0 \<Longrightarrow> reps h' s = None"
proof -
  show thesis
  proof (cases "cap > rcapacity r")
    case False
    then have "max cap (rcapacity r) = rcapacity r" "ts_reserve cap h s = Inr (h, s)"
      using r by (auto simp: max_def ts_reserve_def rep_at_def)
    then show thesis
      using that [of h s r] r ok False by (auto simp: becomes_def holds_def)
  next
    case True
    have "unat (rsize r) = length xs" "rsize r \<le> cap"
      using r(2) True by (auto simp: rep_holds_def)
    moreover have "delivers h (Inside s 0) (rsize r) xs"
      using r by (auto simp: delivers_def mem_read_def rep_at_def rep_holds_def)
    ultimately show thesis
    proof (rule replace_block [OF ok r(1) _ _ c])
      fix h3 t r'
      assume "becomes h s h3 t xs" "reps h3 t = Some r'" "rcapacity r' = cap"
        "s \<noteq> 0 \<Longrightarrow> reps h3 s = None"
        "bindr (ts_init (rsize r) cap h) (\<lambda>(h1, a). bindr (mem_move h1 a 0 (Inside s 0) (rsize r)) (\<lambda>h2.
           bindr (ts_quit s h2) (\<lambda>h3. Inr (h3, a)))) = Inr (h3, t)"
      moreover have "max cap (rcapacity r) = cap" using True by (simp add: max_absorb1 less_imp_le)
      ultimately show thesis
        using that [of h3 t r'] r True by (simp add: ts_reserve_def rep_at_def)
    qed
  qed
qed

lemma write_in_place:
  assumes ok: "heap_ok h" and r: "reps h s = Some r" "take (length xs) (rstr r) = map Some xs"
    and n: "unat n = length xs + length ys" "n \<le> rcapacity r" "unat (rcapacity r) < length (rstr r)"
    and p: "delivers h p len ys"
  obtains h' r' where "becomes h s h' s (xs @ ys)" "reps h' s = Some r'" "rcapacity r' = rcapacity r"
    "bindr (mem_move h s (length xs) p len) (\<lambda>h2. bindr (set_size h2 s n) (\<lambda>h3. Inr (h3, s))) = Inr (h', s)"
proof (rule write_then_size [OF r n p])
  fix r'
  assume a: "rep_holds r' (xs @ ys)" "rcapacity r' = rcapacity r" "r = nullrep \<Longrightarrow> r' = r"
    and run: "\<And>F :: strheap \<Rightarrow> (strheap \<times> nat) res.
      bindr (mem_move h s (length xs) p len) (\<lambda>h2. bindr (set_size h2 s n) F)
        = F (h\<lparr>reps := (reps h)(s \<mapsto> r')\<rparr>)"
  show thesis
  proof (rule that [of "h\<lparr>reps := (reps h)(s \<mapsto> r')\<rparr>" r'])
    show "becomes h s (h\<lparr>reps := (reps h)(s \<mapsto> r')\<rparr>) s (xs @ ys)"
      using ok a r by (auto simp: becomes_def heap_ok_def holds_def)
  qed (use run a in simp_all)
qed

lemma assign_spec:
  assumes ok: "heap_ok h" and s: "holds h s xs" and n: "unat len = length ys" "unat len < 2 ^ 32 - 16"
    and p: "delivers h p len ys"
  obtains h' s' where "ts_assign p len h s = Inr (h', s')" "becomes h s h' s' ys"
proof -
  obtain r where r: "reps h s = Some r" "rep_holds r xs" using s by (auto simp: holds_def)
  show thesis
  proof (cases "len > rcapacity r \<or> rcapacity r > 3 * (len + 8)")
    case True
    then show thesis
      using replace_block [OF ok r(1) n(1) order_refl n(2) p] that r
      by (fastforce simp: ts_assign_def rep_at_def)
  next
    case False
    then have "len \<le> rcapacity r" using linorder_not_less by blast
    moreover have "unat (rcapacity r) < length (rstr r)" using r by (simp add: rep_holds_def)
    ultimately show thesis
      using write_in_place [OF ok r(1), of "[]" len ys p len] False that r n p
      by (fastforce simp: ts_assign_def rep_at_def)
  qed
qed

lemma append_spec:
  assumes ok: "heap_ok h" and s: "reps h s = Some r" "rep_holds r xs"
    and n: "unat len = length ys" "length xs + length ys + unat (rcapacity r) < 2 ^ 32 - 16"
    and p: "delivers h p len ys"
    and apart: "\<And>a off. p = Inside a off \<Longrightarrow> a \<noteq> s \<or> a = 0 \<or> length xs + length ys \<le> unat (rcapacity r)"
  obtains h' s' r' where "ts_append p len h s = Inr (h', s')" "becomes h s h' s' (xs @ ys)"
    "reps h' s' = Some r'" "unat (rcapacity r') = (let m = length (xs @ ys); c = unat (rcapacity r)
       in if m > c then m + c else c)"
proof -
  let ?n = "rsize r + len"
  have xs: "unat (rsize r) = length xs" using s by (simp add: rep_holds_def)
  have un: "unat ?n = length xs + length ys"
    using n xs by (simp add: unat_word_ariths)
  have uc: "unat (?n + rcapacity r) = length xs + length ys + unat (rcapacity r)"
    using n un by (simp add: unat_word_ariths)
  obtain h1 s1 r1 where 1: "(if ?n > rcapacity r then ts_reserve (?n + rcapacity r) h s else Inr (h, s)) = Inr (h1, s1)"
    "becomes h s h1 s1 xs" "reps h1 s1 = Some r1" "delivers h1 p len ys"
    "rcapacity r1 = (if ?n > rcapacity r then ?n + rcapacity r else rcapacity r)"
  proof (cases "?n > rcapacity r")
    case True
    have "length xs + length ys > unat (rcapacity r)" using True un by (simp add: word_less_nat_alt)
    then have al: "\<And>a off. p = Inside a off \<Longrightarrow> a \<noteq> s \<or> a = 0" using apart by force
    have c: "unat (?n + rcapacity r) < 2 ^ 32 - 16" using uc n(2) by simp
    show thesis
    proof (rule reserve_spec [OF ok s c])
      fix h1 s1 r1
      assume a: "ts_reserve (?n + rcapacity r) h s = Inr (h1, s1)" "becomes h s h1 s1 xs"
        "reps h1 s1 = Some r1" "rcapacity r1 = max (?n + rcapacity r) (rcapacity r)"
      have "rcapacity r \<le> ?n + rcapacity r" using un uc by (simp add: word_le_nat_alt)
      then have "rcapacity r1 = ?n + rcapacity r" using a(4) by (simp add: max_def)
      then show thesis using that [of h1 s1 r1] a True becomes_delivers [OF a(2) al p] by simp
    qed
  next
    case False
    then show thesis
      using that [of h s r] s ok p by (auto simp: becomes_def holds_def)
  qed
  have le: "?n \<le> rcapacity r1" using 1(5) un uc by (auto simp: word_le_nat_alt word_less_nat_alt split: if_splits)
  have cap: "unat (rcapacity r1) = (let m = length (xs @ ys); c = unat (rcapacity r) in if m > c then m + c else c)"
    using 1(5) un uc by (simp add: Let_def word_less_nat_alt)
  have r1: "rep_holds r1 xs" using 1(2,3) by (auto simp: becomes_def holds_def)
  then have "unat (rcapacity r1) < length (rstr r1)" "take (length xs) (rstr r1) = map Some xs"
    "unat (rsize r1) = length xs" by (auto simp: rep_holds_def)
  moreover have "heap_ok h1" using 1(2) by (simp add: becomes_def)
  ultimately obtain h' r' where w: "becomes h1 s1 h' s1 (xs @ ys)" "reps h' s1 = Some r'"
    "rcapacity r' = rcapacity r1"
    "bindr (mem_move h1 s1 (length xs) p len) (\<lambda>h2. bindr (set_size h2 s1 ?n) (\<lambda>h3. Inr (h3, s1))) = Inr (h', s1)"
    using write_in_place [of h1 s1 r1 xs ?n ys p len] 1 un le by metis
  show thesis
  proof (rule that [of h' s1 r'])
    show "ts_append p len h s = Inr (h', s1)"
      using 1(1,3) w(4) s(1) \<open>unat (rsize r1) = length xs\<close> by (simp add: ts_append_def rep_at_def Let_def)
  qed (use w cap becomes_trans [OF 1(2) w(1)] in simp_all)
qed

section \<open>Reading\<close>

lemma read_cstr_str: "read_cstr (map Some xs @ Some NUL # rest) = Inr (cstr xs)"
  by (induction xs) (auto simp: cstr_def)

lemma c_str_holds [heap_simps]: "holds h s xs \<Longrightarrow> c_str h s = Inr (cstr xs)"
  by (auto simp: c_str_def rep_at_def holds_def rep_holds_def read_cstr_str)

lemma strcmp_0 [simp]: "strcmp xs ys = 0 \<longleftrightarrow> xs = ys"
  by (induction xs ys rule: strcmp.induct) auto

lemma ts_eq_holds [heap_simps]:
  assumes "holds h a xs" "holds h b ys"
  shows "ts_eq h a b = Inr (length xs = length ys \<and> cstr xs = cstr ys)"
proof -
  obtain ra rb where "reps h a = Some ra" "rep_holds ra xs" "reps h b = Some rb" "rep_holds rb ys"
    using assms by (auto simp: holds_def)
  moreover from this have "rsize ra = rsize rb \<longleftrightarrow> length xs = length ys"
    by (auto simp: rep_holds_def word_unat_eq_iff)
  ultimately show ?thesis
    using c_str_holds [OF assms(1)] c_str_holds [OF assms(2)] by (simp add: ts_eq_def rep_at_def)
qed

lemma find_loop_str:
  assumes "NUL \<notin> set xs" "unat p + length xs < 2 ^ 32"
  shows "find_loop (map Some xs @ Some NUL # rest) x p =
    Inr (if x \<in> set xs then p + of_nat (length (takeWhile (\<lambda>c. c \<noteq> x) xs)) else - 1)"
  using assms
proof (induction xs arbitrary: p)
  case (Cons c xs)
  have "unat (p + 1) = unat p + 1" using Cons.prems by (simp add: unat_word_ariths)
  then show ?case using Cons by (auto simp: ac_simps)
qed simp

section \<open>Appending piece by piece\<close>

text \<open>
  The contract of an output buffer: a good buffer takes another C string while the total stays
  within the limit, and the text grows by exactly that. \<open>TiXmlOutStream\<close>, the streams the
  printer writes to and \<open>operator +\<close> rely on nothing else.
\<close>

locale sink =
  fixes good :: "'h \<Rightarrow> 's \<Rightarrow> string \<Rightarrow> bool"
    and put :: "string \<Rightarrow> 'h \<Rightarrow> 's \<Rightarrow> ('h \<times> 's) res"
    and limit :: nat
  assumes put_ok: "good h s xs \<Longrightarrow> length (xs @ cstr c) \<le> limit \<Longrightarrow>
    \<exists>h' s'. put c h s = Inr (h', s') \<and> good h' s' (xs @ cstr c)"
begin

fun puts :: "string list \<Rightarrow> 'h \<Rightarrow> 's \<Rightarrow> ('h \<times> 's) res" where
  "puts [] h s = Inr (h, s)"
| "puts (c # cs) h s = bindr (put c h s) (\<lambda>(h, s). puts cs h s)"

lemma puts_ok:
  "good h s xs \<Longrightarrow> length (xs @ concat (map cstr cs)) \<le> limit \<Longrightarrow>
    \<exists>h' s'. puts cs h s = Inr (h', s') \<and> good h' s' (xs @ concat (map cstr cs))"
proof (induction cs arbitrary: h s xs)
  case (Cons c cs)
  from Cons.prems have "length (xs @ cstr c) \<le> limit" by simp
  with Cons.prems obtain h1 s1 where "put c h s = Inr (h1, s1)" "good h1 s1 (xs @ cstr c)"
    using put_ok by blast
  moreover from this Cons.prems Cons.IH [of h1 s1 "xs @ cstr c"]
  obtain h2 s2 where "puts cs h1 s1 = Inr (h2, s2)" "good h2 s2 (xs @ concat (map cstr (c # cs)))"
    by auto
  ultimately show ?case by auto
qed simp

end

text \<open>A string that was only ever appended to wastes at most as much again as it holds.\<close>

definition grown :: "strheap \<Rightarrow> nat \<Rightarrow> string \<Rightarrow> bool" where
  "grown h s xs \<longleftrightarrow> heap_ok h \<and>
     (\<exists>r. reps h s = Some r \<and> rep_holds r xs \<and> unat (rcapacity r) \<le> 2 * length xs)"

lemma strlen32_cstr: "length (cstr c) < 2 ^ 32 \<Longrightarrow> unat (strlen32 c) = length (cstr c)"
  by (simp add: strlen32_def unat_of_nat)

lemma delivers_literal [heap_simps]: "delivers h (Literal ys) n ys \<longleftrightarrow> unat n = length ys"
  by (auto simp: delivers_def mem_read_def dest: arg_cong [where f = length])

lemma grown_put:
  assumes "grown h s xs" "length (xs @ cstr c) \<le> 2 ^ 30"
  shows "\<exists>h' s'. ts_add_lit c h s = Inr (h', s') \<and> grown h' s' (xs @ cstr c)"
proof -
  obtain r where r: "reps h s = Some r" "rep_holds r xs" "unat (rcapacity r) \<le> 2 * length xs"
    and ok: "heap_ok h" using assms(1) by (auto simp: grown_def)
  have l: "unat (strlen32 c) = length (cstr c)" using assms(2) by (simp add: strlen32_cstr)
  have m: "length xs + length (cstr c) + unat (rcapacity r) < 2 ^ 32 - 16"
    using r(3) assms(2) by simp
  show ?thesis
  proof (rule append_spec [OF ok r(1,2) l m])
    show "delivers h (Literal (cstr c)) (strlen32 c) (cstr c)" using l by (simp add: heap_simps)
    fix h' s' r'
    assume a: "ts_append (Literal (cstr c)) (strlen32 c) h s = Inr (h', s')" "becomes h s h' s' (xs @ cstr c)"
      "reps h' s' = Some r'" "unat (rcapacity r') =
        (let m = length (xs @ cstr c); c = unat (rcapacity r) in if m > c then m + c else c)"
    have "unat (rcapacity r') \<le> 2 * length (xs @ cstr c)"
      using a(4) r(3) by (auto simp: Let_def split: if_splits)
    then have "grown h' s' (xs @ cstr c)"
      using a(2,3) by (auto simp: grown_def becomes_def holds_def)
    then show ?thesis using a(1) by (auto simp: ts_add_lit_def)
  qed simp
qed

interpretation os: sink grown ts_add_lit "2 ^ 30"
  by unfold_locales (rule grown_put)


section \<open>The operations on TiXmlString\<close>

lemma plus_spec:
  assumes ok: "heap_ok h" and a: "holds h a xs" and b: "holds h b ys"
    and n: "2 * (length xs + length ys) < 2 ^ 32 - 16"
  obtains h' t where "ts_plus a b h = Inr (h', t)" "becomes h 0 h' t (xs @ ys)"
proof -
  obtain ra rb where r: "reps h a = Some ra" "rep_holds ra xs" "reps h b = Some rb" "rep_holds rb ys"
    using a b by (auto simp: holds_def)
  then have un: "unat (rsize ra) = length xs" "unat (rsize rb) = length ys"
    by (auto simp: rep_holds_def)
  have c: "unat (rsize ra + rsize rb) = length xs + length ys"
    using un n by (simp add: unat_word_ariths)
  have d: "delivers h (Inside a 0) (rsize ra) xs" "delivers h (Inside b 0) (rsize rb) ys"
    using r by (auto simp: delivers_def mem_read_def rep_at_def rep_holds_def)
  have c0: "unat (rsize ra + rsize rb) < 2 ^ 32 - 16" using n c by simp
  have null: "reps h 0 = Some nullrep" "rep_holds nullrep []"
    using ok by (auto simp: heap_ok_def nullrep_def rep_holds_def)
  show thesis
  proof (rule reserve_spec [OF ok null c0])
    fix h1 t r1
    assume 1: "ts_reserve (rsize ra + rsize rb) h 0 = Inr (h1, t)" "becomes h 0 h1 t []"
      "reps h1 t = Some r1" "rcapacity r1 = max (rsize ra + rsize rb) (rcapacity nullrep)"
    have r1: "rep_holds r1 []" "heap_ok h1" using 1(2,3) by (auto simp: becomes_def holds_def)
    have c1: "unat (rcapacity r1) = length xs + length ys" using 1(4) c by (simp add: nullrep_def)
    have d1: "delivers h1 (Inside a 0) (rsize ra) xs" "delivers h1 (Inside b 0) (rsize rb) ys"
      using d becomes_delivers [OF 1(2)] by (metis)+
    have t: "a \<noteq> t \<or> a = 0" "b \<noteq> t \<or> b = 0" "reps h1 a = Some ra" "reps h1 b = Some rb"
      using 1(2) r by (auto simp: becomes_def)
    show thesis
    proof (rule append_spec [OF r1(2) 1(3) r1(1) un(1) _ d1(1)])
      fix h2 t2 r2
      assume 2: "ts_append (Inside a 0) (rsize ra) h1 t = Inr (h2, t2)" "becomes h1 t h2 t2 ([] @ xs)"
        "reps h2 t2 = Some r2" "unat (rcapacity r2) =
          (let m = length ([] @ xs); c = unat (rcapacity r1) in if m > c then m + c else c)"
      have r2: "rep_holds r2 xs" "heap_ok h2" using 2(2,3) by (auto simp: becomes_def holds_def)
      have c2: "unat (rcapacity r2) = length xs + length ys" using 2(4) c1 by simp
      have d2: "delivers h2 (Inside b 0) (rsize rb) ys"
        by (rule becomes_delivers [OF 2(2) _ d1(2)]) (use t in auto)
      have b2: "b \<noteq> t2 \<or> b = 0" "reps h2 b = Some rb" using 2(2) t by (auto simp: becomes_def)
      show thesis
      proof (rule append_spec [OF r2(2) 2(3) r2(1) un(2) _ d2])
        fix h3 t3 r3
        assume 3: "ts_append (Inside b 0) (rsize rb) h2 t2 = Inr (h3, t3)" "becomes h2 t2 h3 t3 (xs @ ys)"
        show thesis
          using that [of h3 t3] 3 2(1) 1(1) t b2 r becomes_trans [OF becomes_trans [OF 1(2) 2(2)] 3(2)]
          by (simp add: ts_plus_def ts_add_str_def rep_at_def)
      qed (use n c2 b2 in auto)
    qed (use n c1 t in auto)
  qed
qed

lemma clear_spec:
  assumes ok: "heap_ok h" and s: "holds h s xs"
  obtains h' s' where "ts_clear h s = Inr (h', s')" "becomes h s h' s' []"
proof (cases "s = 0")
  case True
  then show thesis
    using that [of h 0] ok by (simp add: ts_clear_def ts_quit_def ts_init_def becomes_def heap_simps)
next
  case False
  let ?h = "h\<lparr>reps := (reps h)(s := None)\<rparr>"
  have ok': "heap_ok ?h" using ok False by (simp add: heap_ok_def)
  show thesis
    using that [of ?h 0] ok' False s heap_ok_null [OF ok', of "[]"]
    by (auto simp: ts_clear_def ts_quit_def ts_init_def becomes_def holds_def)
qed

text \<open>C15:
  A TiXmlString is its list of characters. On a well-formed heap append leaves the string with
  the old characters and then the new ones, assign with the new ones, clear with none, and
  \<open>operator +\<close> makes a string of both; every other string keeps its block; \<open>c_str\<close> reads the
  characters up to the first NUL, and \<open>==\<close> compares the lengths and those.
  The characters may come from anywhere but the string's own block.\<close>

theorem tixml_string_refines_list:
  assumes "heap_ok h" "reps h s = Some r" "rep_holds r xs" "delivers h p len ys" "unat len = length ys"
    and "length xs + length ys + unat (rcapacity r) < 2 ^ 32 - 16"
    and "\<forall>off. p = Inside s off \<longrightarrow> s = 0"
    and "holds h t zs" "2 * (length xs + length zs) < 2 ^ 32 - 16"
  shows "(\<exists>h' s'. ts_append p len h s = Inr (h', s') \<and> becomes h s h' s' (xs @ ys))
    \<and> (\<exists>h' s'. ts_assign p len h s = Inr (h', s') \<and> becomes h s h' s' ys)
    \<and> (\<exists>h' s'. ts_clear h s = Inr (h', s') \<and> becomes h s h' s' [])
    \<and> (\<exists>h' u. ts_plus s t h = Inr (h', u) \<and> becomes h 0 h' u (xs @ zs))
    \<and> c_str h s = Inr (cstr xs)
    \<and> ts_eq h s t = Inr (length xs = length zs \<and> cstr xs = cstr zs)"
proof (intro conjI)
  have s: "holds h s xs" using assms(2,3) by (auto simp: holds_def)
  show "\<exists>h' s'. ts_append p len h s = Inr (h', s') \<and> becomes h s h' s' (xs @ ys)"
    using append_spec [OF assms(1,2,3,5,6,4)] assms(7) by metis
  have "unat len < 2 ^ 32 - 16" using assms(5,6) by simp
  then show "\<exists>h' s'. ts_assign p len h s = Inr (h', s') \<and> becomes h s h' s' ys"
    using assign_spec [OF assms(1) s assms(5) _ assms(4)] by metis
  show "\<exists>h' s'. ts_clear h s = Inr (h', s') \<and> becomes h s h' s' []"
    using clear_spec [OF assms(1) s] by metis
  show "\<exists>h' u. ts_plus s t h = Inr (h', u) \<and> becomes h 0 h' u (xs @ zs)"
    using plus_spec [OF assms(1) s assms(8,9)] by metis
  show "c_str h s = Inr (cstr xs)" by (rule c_str_holds [OF s])
  show "ts_eq h s t = Inr (length xs = length zs \<and> cstr xs = cstr zs)"
    by (rule ts_eq_holds [OF s assms(8)])
qed

definition sample_heap :: strheap where
  "sample_heap = \<lparr>reps = [0 \<mapsto> nullrep,
     1 \<mapsto> \<lparr>rsize = 2, rcapacity = 3, rstr = [Some CHR ''a'', Some CHR ''b'', Some NUL, None, None]\<rparr>],
     fresh = 2\<rparr>"

lemma sample_heap:
  "heap_ok sample_heap" "reps sample_heap 0 = Some nullrep" "holds sample_heap 1 ''ab''"
  "reps sample_heap 1 = Some \<lparr>rsize = 2, rcapacity = 3, rstr = [Some CHR ''a'', Some CHR ''b'', Some NUL, None, None]\<rparr>"
  by (auto simp: sample_heap_def heap_ok_def holds_def rep_holds_def)

theorem tixml_string_refines_list_witness:
  "\<exists>h' s'. ts_append (Literal ''cde'') 3 sample_heap 1 = Inr (h', s')
     \<and> becomes sample_heap 1 h' s' (''ab'' @ ''cde'')"
  using tixml_string_refines_list [of sample_heap 1 _ "''ab''" "Literal ''cde''" 3 "''cde''" 1 "''ab''",
      OF sample_heap(1,4)] sample_heap(3)
  by (simp add: heap_simps rep_holds_def)

text \<open>
  Appending a string to itself (\<open>s += s\<close>) works as long as the block has room for both copies.
  Otherwise \<open>append\<close> reads the characters through the pointer it was given after \<open>reserve\<close> has
  released the block that pointer leads into.\<close>

theorem append_to_itself:
  assumes ok: "heap_ok h" and r: "reps h s = Some r" "rep_holds r xs"
    and n: "2 * length xs + unat (rcapacity r) < 2 ^ 32 - 16"
  shows "if 2 * length xs \<le> unat (rcapacity r)
    then \<exists>h' s'. ts_add_str s h s = Inr (h', s') \<and> becomes h s h' s' (xs @ xs)
    else ts_add_str s h s = Inl Use_after_free"
proof -
  have x: "unat (rsize r) = length xs" using r by (simp add: rep_holds_def)
  have m: "length xs + length xs + unat (rcapacity r) < 2 ^ 32 - 16" using n by simp
  have d: "delivers h (Inside s 0) (rsize r) xs"
    using r by (auto simp: delivers_def mem_read_def rep_at_def rep_holds_def)
  show ?thesis
  proof (cases "2 * length xs \<le> unat (rcapacity r)")
    case True
    then show ?thesis
      using append_spec [OF ok r x m d] r by (simp add: ts_add_str_def rep_at_def) metis
  next
    case False
    let ?n = "rsize r + rsize r"
    have un: "unat ?n = 2 * length xs" "unat (?n + rcapacity r) = 2 * length xs + unat (rcapacity r)"
      using n x by (simp_all add: unat_word_ariths)
    have gt: "rcapacity r < ?n" "rcapacity r < ?n + rcapacity r"
      using False un by (auto simp: word_less_nat_alt)
    have "holds h s xs" using r by (auto simp: holds_def)
    then have s0: "s \<noteq> 0" using False heap_ok_null [OF ok, of xs] by (metis gr0I list.size(3) mult_0_right zero_le)
    have c: "unat (?n + rcapacity r) < 2 ^ 32 - 16" using n un by simp
    show ?thesis
    proof (rule reserve_spec [OF ok r c])
      fix h1 s1 r1
      assume "ts_reserve (?n + rcapacity r) h s = Inr (h1, s1)" "reps h1 s1 = Some r1"
        "rcapacity r < ?n + rcapacity r \<Longrightarrow> s \<noteq> 0 \<Longrightarrow> reps h1 s = None"
      then show ?thesis
        using False gt s0 r
        by (simp add: ts_add_str_def ts_append_def rep_at_def mem_move_def mem_read_def)
    qed
  qed
qed

theorem append_to_itself_witness:
  "ts_add_str 1 sample_heap 1 = Inl Use_after_free"
  using append_to_itself [of sample_heap 1 _ "''ab''", OF sample_heap(1,4)]
  by (simp add: rep_holds_def)

end
