(* ===== verification/XmlText.thy ===== *)
theory XmlText
  imports Prelude
begin

text \<open>
  The text level of TinyXML: \<open>TiXmlBase\<close> (\<open>tinyxml.h\<close>, \<open>tinyxmlparser.cpp\<close> 25-637 without the
  STL parts) and \<open>EncodeString\<close> (\<open>tinyxml.cpp\<close>). A \<open>const char*\<close> into the document is the list of
  the characters from there to the terminator, and a pointer that may be 0 is an option. Reading
  on behind the terminator is the fault \<open>Out_of_bounds\<close>.
\<close>

unbundle bit_operations_syntax

section \<open>Characters\<close>

datatype encoding = TIXML_ENCODING_UNKNOWN | TIXML_ENCODING_UTF8 | TIXML_ENCODING_LEGACY

definition uchar :: "char \<Rightarrow> nat" where
  "uchar c = of_char c"

text \<open>\<open>isspace\<close>, \<open>isalpha\<close>, \<open>isalnum\<close> and \<open>tolower\<close> in the C locale.\<close>

definition c_isspace :: "nat \<Rightarrow> bool" where
  "c_isspace n \<longleftrightarrow> n = 32 \<or> 9 \<le> n \<and> n \<le> 13"

definition c_isalpha :: "nat \<Rightarrow> bool" where
  "c_isalpha n \<longleftrightarrow> 65 \<le> n \<and> n \<le> 90 \<or> 97 \<le> n \<and> n \<le> 122"

definition c_isalnum :: "nat \<Rightarrow> bool" where
  "c_isalnum n \<longleftrightarrow> c_isalpha n \<or> 48 \<le> n \<and> n \<le> 57"

definition c_tolower :: "int \<Rightarrow> int" where
  "c_tolower v = (if 65 \<le> v \<and> v \<le> 90 then v + 32 else v)"

definition IsWhiteSpace :: "char \<Rightarrow> bool" where
  "IsWhiteSpace c \<longleftrightarrow> c_isspace (uchar c) \<or> c = CHR 0x0A \<or> c = CHR 0x0D"

definition IsAlpha :: "char \<Rightarrow> bool" where
  "IsAlpha c = (if uchar c < 127 then c_isalpha (uchar c) else True)"

definition IsAlphaNum :: "char \<Rightarrow> bool" where
  "IsAlphaNum c = (if uchar c < 127 then c_isalnum (uchar c) else True)"

text \<open>The argument is a \<open>char\<close> promoted to int, so it is negative from 0x80 on.\<close>

definition ToLower :: "encoding \<Rightarrow> char \<Rightarrow> int" where
  "ToLower enc c = (let v = schar c in
     if enc = TIXML_ENCODING_UTF8 then (if v < 128 then c_tolower v else v) else c_tolower v)"

definition utf8ByteTable :: "char \<Rightarrow> nat" where
  "utf8ByteTable c = (let n = uchar c in
     if n < 0xC2 then 1 else if n < 0xE0 then 2 else if n < 0xF0 then 3 else if n < 0xF5 then 4 else 1)"

definition bom :: "string \<Rightarrow> bool" where
  "bom p \<longleftrightarrow> take 3 p = [CHR 0xEF, CHR 0xBB, CHR 0xBF] \<or> take 3 p = [CHR 0xEF, CHR 0xBF, CHR 0xBE]
     \<or> take 3 p = [CHR 0xEF, CHR 0xBF, CHR 0xBF]"

function skip_utf8 :: "string \<Rightarrow> string" where
  "skip_utf8 p = (case p of [] \<Rightarrow> []
     | c # r \<Rightarrow> if bom p then skip_utf8 (drop 3 p) else if IsWhiteSpace c then skip_utf8 r else p)"
  by auto
termination by (relation "measure length") auto

declare skip_utf8.simps [simp del]

lemma skip_utf8_Nil [simp]: "skip_utf8 [] = []"
  by (simp add: skip_utf8.simps)

lemma skip_utf8_Cons: "skip_utf8 (c # r) =
    (if bom (c # r) then skip_utf8 (drop 2 r) else if IsWhiteSpace c then skip_utf8 r else c # r)"
  by (simp add: skip_utf8.simps [of "c # r"])

lemma skip_utf8_length: "length (skip_utf8 p) \<le> length p"
proof (induction p rule: length_induct)
  case (1 p)
  show ?case
  proof (cases p)
    case (Cons c r)
    have "length (skip_utf8 (drop 2 r)) \<le> length r" "length (skip_utf8 r) \<le> length r"
      using 1 [rule_format, of "drop 2 r"] 1 [rule_format, of r] Cons by (simp_all add: less_Suc_eq_le)
    then show ?thesis using Cons by (simp add: skip_utf8_Cons)
  qed simp
qed

definition SkipWhiteSpace :: "string option \<Rightarrow> encoding \<Rightarrow> string option" where
  "SkipWhiteSpace p enc = (case p of None \<Rightarrow> None | Some [] \<Rightarrow> None
     | Some p \<Rightarrow> Some (if enc = TIXML_ENCODING_UTF8 then skip_utf8 p else dropWhile IsWhiteSpace p))"

section \<open>Names\<close>

definition name_start :: "char \<Rightarrow> bool" where
  "name_start c \<longleftrightarrow> IsAlpha c \<or> c = CHR ''_''"

definition name_char :: "char \<Rightarrow> bool" where
  "name_char c \<longleftrightarrow> IsAlphaNum c \<or> c = CHR ''_'' \<or> c = CHR ''-'' \<or> c = CHR ''.'' \<or> c = CHR '':''"

text \<open>The name read and the pointer behind it; a null argument stops at the assertion.\<close>

definition ReadName :: "string option \<Rightarrow> (string \<times> string option) res" where
  "ReadName p = (case p of None \<Rightarrow> Inl Assert_failed
     | Some [] \<Rightarrow> Inr ([], None)
     | Some (c # r) \<Rightarrow> Inr (if name_start c
         then (takeWhile name_char (c # r), Some (dropWhile name_char (c # r))) else ([], None)))"

section \<open>Character references and entities\<close>

text \<open>The case labels fall through, so the last byte is written first.\<close>

definition low_byte :: "uint32 \<Rightarrow> char" where
  "low_byte w = char_of_byte (ucast w)"

definition FIRST_BYTE_MARK :: "uint32 list" where
  "FIRST_BYTE_MARK = [0x00, 0x00, 0xC0, 0xE0, 0xF0, 0xF8, 0xFC]"

fun utf8_bytes :: "nat \<Rightarrow> uint32 \<Rightarrow> nat \<Rightarrow> string" where
  "utf8_bytes 0 i n = []"
| "utf8_bytes (Suc 0) i n = [low_byte (i OR FIRST_BYTE_MARK ! n)]"
| "utf8_bytes (Suc (Suc k)) i n = utf8_bytes (Suc k) (drop_bit 6 i) n @ [low_byte ((i OR 0x80) AND 0xBF)]"

definition utf8_length :: "uint32 \<Rightarrow> nat" where
  "utf8_length i = (if i < 0x80 then 1 else if i < 0x800 then 2 else if i < 0x10000 then 3
     else if i < 0x200000 then 4 else 0)"

definition ConvertUTF32ToUTF8 :: "uint32 \<Rightarrow> string" where
  "ConvertUTF32ToUTF8 i = utf8_bytes (utf8_length i) i (utf8_length i)"

definition hex_value :: "char \<Rightarrow> int option" where
  "hex_value c = (if 48 \<le> schar c \<and> schar c \<le> 57 then Some (schar c - 48)
     else if 97 \<le> schar c \<and> schar c \<le> 102 then Some (schar c - 97 + 10)
     else if 65 \<le> schar c \<and> schar c \<le> 70 then Some (schar c - 65 + 10) else None)"

definition dec_value :: "char \<Rightarrow> int option" where
  "dec_value c = (if 48 \<le> schar c \<and> schar c \<le> 57 then Some (schar c - 48) else None)"

text \<open>
  Both loops run backwards from the semicolon to the nearest stop character (the \<open>x\<close> or the
  \<open>#\<close>), which need not be the one the reference starts with. The list is what lies before the
  semicolon, last character first.
\<close>

fun ref_loop :: "(char \<Rightarrow> int option) \<Rightarrow> char \<Rightarrow> uint32 \<Rightarrow> string \<Rightarrow> uint32 \<Rightarrow> uint32 \<Rightarrow> uint32 option" where
  "ref_loop value stop base [] ucs mult = Some ucs"
| "ref_loop value stop base (c # cs) ucs mult =
     (if c = stop then Some ucs
      else case value c of None \<Rightarrow> None
        | Some v \<Rightarrow> ref_loop value stop base cs (ucs + mult * of_int v) (mult * base))"

definition entity :: "(string \<times> char) list" where
  "entity = [(''&amp;'', CHR ''&''), (''&lt;'', CHR ''<''), (''&gt;'', CHR ''>''),
     (''&quot;'', CHR 0x22), (''&apos;'', CHR 0x27)]"

definition is_prefix :: "string \<Rightarrow> string \<Rightarrow> bool" where
  "is_prefix s p \<longleftrightarrow> take (length s) p = s"

text \<open>
  The digits from \<open>start\<close> up to the first semicolon; \<open>None\<close> is the return of 0. The length is set
  to 0 first, so a failed or unknown entity delivers no characters.
\<close>

definition char_reference :: "string \<Rightarrow> encoding \<Rightarrow> string \<times> string option" where
  "char_reference p enc =
     (let body = drop 2 p; q = dropWhile (\<lambda>c. c \<noteq> CHR '';'') body;
          digits = rev (takeWhile (\<lambda>c. c \<noteq> CHR '';'') body);
          hexadecimal = (take 1 body = ''x'')
      in if q = [] then ([], None)
         else case (if hexadecimal then ref_loop hex_value (CHR ''x'') 16 digits 0 1
                    else ref_loop dec_value (CHR ''#'') 10 digits 0 1) of
             None \<Rightarrow> ([], None)
           | Some ucs \<Rightarrow> (if enc = TIXML_ENCODING_UTF8 then ConvertUTF32ToUTF8 ucs else [low_byte ucs],
                          Some (tl q)))"

definition GetEntity :: "string \<Rightarrow> encoding \<Rightarrow> string \<times> string option" where
  "GetEntity p enc =
     (if 3 \<le> length p \<and> p ! 1 = CHR ''#'' then char_reference p enc
      else case find (\<lambda>e. is_prefix (fst e) p) entity of
          Some e \<Rightarrow> ([snd e], Some (drop (length (fst e)) p))
        | None \<Rightarrow> ([], Some (tl p)))"

text \<open>
  The characters are copied up to the terminator, but the pointer always moves by the length the
  lead byte announces: behind the terminator where the sequence is cut off.
\<close>

definition GetChar :: "string \<Rightarrow> encoding \<Rightarrow> (string \<times> string option) res" where
  "GetChar p enc = (case p of [] \<Rightarrow> Inl Out_of_bounds
     | c # r \<Rightarrow> let n = (if enc = TIXML_ENCODING_UTF8 then utf8ByteTable c else 1) in
         if n = 1 then Inr (if c = CHR ''&'' then GetEntity p enc else ([c], Some r))
         else if n \<le> length p then Inr (take n p, Some (drop n p))
         else Inl Out_of_bounds)"

fun match_from :: "(char \<Rightarrow> char \<Rightarrow> bool) \<Rightarrow> string \<Rightarrow> string \<Rightarrow> bool" where
  "match_from eq q [] = True"
| "match_from eq [] (t # ts) = False"
| "match_from eq (q # qs) (t # ts) = (eq q t \<and> match_from eq qs ts)"

definition StringEqual :: "string \<Rightarrow> string \<Rightarrow> bool \<Rightarrow> encoding \<Rightarrow> bool res" where
  "StringEqual p tag ignoreCase enc =
     (if p = [] then Inl Assert_failed
      else Inr (match_from (if ignoreCase then (\<lambda>a b. ToLower enc a = ToLower enc b) else (=)) p tag))"

section \<open>Text\<close>

lemma utf8ByteTable_bounds: "1 \<le> utf8ByteTable c" "utf8ByteTable c \<le> 4"
  by (auto simp: utf8ByteTable_def Let_def)

lemma char_reference_shorter: "char_reference p enc = (cs, Some q) \<Longrightarrow> length q < length p"
proof -
  have "length (tl (dropWhile P (drop 2 p))) < length p" if "dropWhile P (drop 2 p) \<noteq> []" for P :: "char \<Rightarrow> bool"
    using that length_dropWhile_le [of P "drop 2 p"] by (cases "dropWhile P (drop 2 p)") auto
  then show "char_reference p enc = (cs, Some q) \<Longrightarrow> length q < length p"
    by (auto simp: char_reference_def Let_def split: if_splits option.splits)
qed

lemma entity_length: "find P entity = Some e \<Longrightarrow> 4 \<le> length (fst e)"
  by (auto simp: entity_def split: if_splits)

lemma GetEntity_shorter:
  assumes "p \<noteq> []" "GetEntity p enc = (cs, Some q)"
  shows "length q < length p"
proof (cases "3 \<le> length p \<and> p ! 1 = CHR ''#''")
  case True
  then show ?thesis using assms by (simp add: GetEntity_def char_reference_shorter)
next
  case False
  then have "(case find (\<lambda>e. is_prefix (fst e) p) entity of Some e \<Rightarrow> ([snd e], Some (drop (length (fst e)) p))
        | None \<Rightarrow> ([], Some (tl p))) = (cs, Some q)"
    using assms(2) by (simp only: GetEntity_def if_False)
  then show ?thesis
  proof (cases "find (\<lambda>e. is_prefix (fst e) p) entity")
    case (Some e)
    then have "4 \<le> length (fst e)" by (rule entity_length)
    then show ?thesis using Some \<open>(case find _ _ of Some e \<Rightarrow> _ e | None \<Rightarrow> _) = _\<close> assms(1) by (cases p) auto
  qed (use assms(1) in auto)
qed

definition char_length :: "encoding \<Rightarrow> char \<Rightarrow> nat" where
  "char_length enc c = (if enc = TIXML_ENCODING_UTF8 then utf8ByteTable c else 1)"

lemma char_length_bounds: "1 \<le> char_length enc c" "char_length enc c \<le> 4"
  using utf8ByteTable_bounds [of c] by (simp_all add: char_length_def)

lemma GetChar_Cons:
  "GetChar (c # r) enc = (if char_length enc c = 1
     then Inr (if c = CHR ''&'' then GetEntity (c # r) enc else ([c], Some r))
     else if char_length enc c \<le> length (c # r)
     then Inr (take (char_length enc c) (c # r), Some (drop (char_length enc c) (c # r)))
     else Inl Out_of_bounds)"
  unfolding GetChar_def char_length_def Let_def list.case by (rule refl)

lemma GetChar_shorter: "GetChar p enc = Inr (cs, Some q) \<Longrightarrow> length q < length p"
proof (cases p)
  case (Cons c r)
  assume g: "GetChar p enc = Inr (cs, Some q)"
  show ?thesis
  proof (cases "char_length enc c = 1")
    case True
    with g Cons have e: "(if c = CHR ''&'' then GetEntity (c # r) enc else ([c], Some r)) = (cs, Some q)"
      unfolding Cons GetChar_Cons by simp
    show ?thesis
    proof (cases "c = CHR ''&''")
      case True
      have "GetEntity (c # r) enc = (cs, Some q)" using e unfolding if_P [OF True] .
      then show ?thesis using Cons by (intro GetEntity_shorter) simp_all
    next
      case False
      then show ?thesis using e Cons by simp
    qed
  next
    case False
    then have "q = drop (char_length enc c) (c # r)"
      using g unfolding Cons GetChar_Cons by (simp split: if_splits)
    then show ?thesis using char_length_bounds [of enc c] Cons by simp
  qed
qed (simp add: GetChar_def)

text \<open>The loop that keeps the white space, and the one that condenses it.\<close>

function keep_loop :: "string option \<Rightarrow> string \<Rightarrow> bool \<Rightarrow> encoding \<Rightarrow> string \<Rightarrow> (string \<times> string option) res" where
  "keep_loop p endTag ci enc text = (case p of
      None \<Rightarrow> Inr (text, None)
    | Some [] \<Rightarrow> Inr (text, Some [])
    | Some (c # r) \<Rightarrow> (case StringEqual (c # r) endTag ci enc of
          Inl e \<Rightarrow> Inl e
        | Inr True \<Rightarrow> Inr (text, p)
        | Inr False \<Rightarrow> (case GetChar (c # r) enc of
              Inl e \<Rightarrow> Inl e
            | Inr (cs, q) \<Rightarrow> keep_loop q endTag ci enc (text @ cs))))"
  by pat_completeness auto
termination
  by (relation "measure (\<lambda>(p, _). case p of None \<Rightarrow> 0 | Some p \<Rightarrow> Suc (length p))")
    (auto dest: GetChar_shorter split: option.splits)

function condense_loop :: "string option \<Rightarrow> string \<Rightarrow> bool \<Rightarrow> encoding \<Rightarrow> string \<Rightarrow> bool \<Rightarrow> (string \<times> string option) res" where
  "condense_loop p endTag ci enc text whitespace = (case p of
      None \<Rightarrow> Inr (text, None)
    | Some [] \<Rightarrow> Inr (text, Some [])
    | Some (c # r) \<Rightarrow> (case StringEqual (c # r) endTag ci enc of
          Inl e \<Rightarrow> Inl e
        | Inr True \<Rightarrow> Inr (text, p)
        | Inr False \<Rightarrow>
            if c = CHR 0x0D \<or> c = CHR 0x0A then condense_loop (Some r) endTag ci enc text True
            else if IsWhiteSpace c then condense_loop (Some r) endTag ci enc text True
            else (case GetChar (c # r) enc of
                Inl e \<Rightarrow> Inl e
              | Inr (cs, q) \<Rightarrow>
                  condense_loop q endTag ci enc (text @ (if whitespace then '' '' else []) @ cs) False)))"
  by pat_completeness auto
termination
  by (relation "measure (\<lambda>(p, _). case p of None \<Rightarrow> 0 | Some p \<Rightarrow> Suc (length p))")
    (auto dest: GetChar_shorter split: option.splits)

declare keep_loop.simps [simp del] condense_loop.simps [simp del]

text \<open>
  \<open>condenseWhiteSpace\<close> is a static of the class. The end tag is skipped, and a text that ends
  with the document is reported as 0.
\<close>

definition ReadText :: "bool \<Rightarrow> string option \<Rightarrow> bool \<Rightarrow> string \<Rightarrow> bool \<Rightarrow> encoding \<Rightarrow> (string \<times> string option) res" where
  "ReadText condenseWhiteSpace p trimWhiteSpace endTag ci enc =
     bindr (if \<not> trimWhiteSpace \<or> \<not> condenseWhiteSpace
            then keep_loop p endTag ci enc []
            else condense_loop (SkipWhiteSpace p enc) endTag ci enc [] False)
       (\<lambda>(text, p). case p of None \<Rightarrow> Inr (text, None) | Some [] \<Rightarrow> Inr (text, None)
          | Some q \<Rightarrow> if length endTag \<le> length q
              then Inr (text, if drop (length endTag) q = [] then None else Some (drop (length endTag) q))
              else Inl Out_of_bounds)"

section \<open>EncodeString\<close>

definition hex_digit :: "nat \<Rightarrow> char" where
  "hex_digit n = (if n < 10 then char_of (n + 48) else char_of (n + 55))"

text \<open>The loop that passes a hexadecimal reference through: it stops at the semicolon or before the last character.\<close>

fun pass_through :: "string \<Rightarrow> string \<times> string" where
  "pass_through (c # d # r) = (if d = CHR '';'' then ([c], d # r)
     else (let (out, rest) = pass_through (d # r) in (c # out, rest)))"
| "pass_through s = ([], s)"

definition encode_char :: "char \<Rightarrow> string" where
  "encode_char c =
     (if c = CHR ''&'' then fst (entity ! 0) else if c = CHR ''<'' then fst (entity ! 1)
      else if c = CHR ''>'' then fst (entity ! 2) else if c = CHR 0x22 then fst (entity ! 3)
      else if c = CHR 0x27 then fst (entity ! 4)
      else if uchar c < 32 then ''&#x'' @ [hex_digit (uchar c div 16), hex_digit (uchar c mod 16), CHR '';'']
      else [c])"

lemma pass_through_shorter: "length (snd (pass_through s)) \<le> length s"
  by (induction s rule: pass_through.induct) (auto split: prod.splits)

function EncodeString :: "string \<Rightarrow> string" where
  "EncodeString s = (case s of [] \<Rightarrow> []
     | c # r \<Rightarrow> if c = CHR ''&'' \<and> 3 \<le> length s \<and> take 2 r = ''#x''
         then (let (out, rest) = pass_through s in out @ EncodeString rest)
         else encode_char c @ EncodeString r)"
  by auto
termination
proof (relation "measure length")
  fix s r :: string and c :: char and x out rest
  assume s: "s = c # r" and g: "c = CHR ''&'' \<and> 3 \<le> length s \<and> take 2 r = ''#x''"
    and x: "x = pass_through s" "(out, rest) = x"
  from s g obtain d r' where r: "r = d # r'" "d \<noteq> CHR '';''" by (cases r) auto
  have "length (snd (pass_through (d # r'))) \<le> length (d # r')" by (rule pass_through_shorter)
  then show "(rest, s) \<in> measure length"
    using x s r by (auto split: prod.splits)
qed auto

declare EncodeString.simps [simp del]

section \<open>Positions\<close>

record cursor =
  row :: int
  col :: int

text \<open>
  One turn of the loop of \<open>Stamp\<close> at the pointer \<open>p\<close>: how far it moves and the new row and
  column, or \<open>None\<close> at the terminator. The lead byte 0xEF of a UTF-8 text that is followed by a
  terminator within two bytes moves nothing at all.
\<close>

definition stamp_step :: "encoding \<Rightarrow> int \<Rightarrow> string \<Rightarrow> int \<Rightarrow> int \<Rightarrow> (nat \<times> int \<times> int) option" where
  "stamp_step enc tabsize p rw cl = (case p of [] \<Rightarrow> None
     | c # r \<Rightarrow> Some
        (if c = CHR 0x0D then (if take 1 r = [CHR 0x0A] then 2 else 1, rw + 1, 0)
         else if c = CHR 0x0A then (if take 1 r = [CHR 0x0D] then 2 else 1, rw + 1, 0)
         else if c = CHR 0x09 then (1, rw, ((if cl < 0 then - (- cl div tabsize) else cl div tabsize) + 1) * tabsize)
         else if c = CHR 0xEF then
           (if enc = TIXML_ENCODING_UTF8
            then (if 2 \<le> length r then (3, rw, if bom p then cl else cl + 1) else (0, rw, cl))
            else (1, rw, cl + 1))
         else if enc = TIXML_ENCODING_UTF8 then (utf8ByteTable c, rw, cl + 1)
         else (1, rw, cl + 1)))"

text \<open>
  The loop from position \<open>stamp\<close> of the buffer to \<open>now\<close>; \<open>None\<close> is a loop that never ends, and
  \<open>Some None\<close> the early return at the terminator.
\<close>

partial_function (option) stamp_loop ::
  "encoding \<Rightarrow> int \<Rightarrow> string \<Rightarrow> nat \<Rightarrow> nat \<Rightarrow> int \<Rightarrow> int \<Rightarrow> (nat \<times> int \<times> int) option option" where
  "stamp_loop enc tabsize buf p now rw cl =
     (if p < now
      then (case stamp_step enc tabsize (drop p buf) rw cl of
          None \<Rightarrow> Some None
        | Some (k, rw', cl') \<Rightarrow> stamp_loop enc tabsize buf (p + k) now rw' cl')
      else Some (Some (p, rw, cl)))"

record parsing_data =
  cursor :: cursor
  stamp :: nat
  tabsize :: int

definition TiXmlParsingData :: "nat \<Rightarrow> int \<Rightarrow> int \<Rightarrow> int \<Rightarrow> parsing_data" where
  "TiXmlParsingData start tab rw cl = \<lparr>cursor = \<lparr>row = rw, col = cl\<rparr>, stamp = start, tabsize = tab\<rparr>"

definition Stamp :: "encoding \<Rightarrow> string \<Rightarrow> nat \<Rightarrow> parsing_data \<Rightarrow> parsing_data option" where
  "Stamp enc buf now d =
     (if tabsize d < 1 then Some d
      else (case stamp_loop enc (tabsize d) buf (stamp d) now (row (cursor d)) (col (cursor d)) of
          None \<Rightarrow> None
        | Some None \<Rightarrow> Some d
        | Some (Some (p, rw, cl)) \<Rightarrow> Some (d\<lparr>cursor := \<lparr>row = rw, col = cl\<rparr>, stamp := p\<rparr>)))"

section \<open>What EncodeString writes is read back\<close>

lemma entity_simps:
  "fst (entity ! 0) = ''&amp;''" "fst (entity ! 1) = ''&lt;''" "fst (entity ! 2) = ''&gt;''"
  "fst (entity ! 3) = ''&quot;''" "fst (entity ! 4) = ''&apos;''"
  by (simp_all add: entity_def numeral_nat)

lemma GetEntity_named:
  "GetEntity (''&amp;'' @ w) enc = (''&'', Some w)" "GetEntity (''&lt;'' @ w) enc = (''<'', Some w)"
  "GetEntity (''&gt;'' @ w) enc = (''>'', Some w)" "GetEntity (''&quot;'' @ w) enc = ([CHR 0x22], Some w)"
  "GetEntity (''&apos;'' @ w) enc = ([CHR 0x27], Some w)"
  by (simp_all add: GetEntity_def entity_def is_prefix_def)

lemma schar_char_of: "k < 128 \<Longrightarrow> schar (char_of (k :: nat)) = int k"
proof -
  assume "k < 128"
  then have "(of_char (char_of k :: char) :: nat) = k" by simp
  then have "(of_char (char_of k :: char) :: int) = int k" by (metis of_nat_of_char)
  then show ?thesis using \<open>k < 128\<close> by (simp add: schar_def Let_def)
qed

lemma hex_digit_value: "k < 16 \<Longrightarrow> hex_value (hex_digit k) = Some (int k)"
  by (cases "k < 10") (simp_all add: hex_value_def hex_digit_def schar_char_of)

lemma hex_digit_stop: "k < 16 \<Longrightarrow> hex_digit k \<noteq> CHR ''x''" "k < 16 \<Longrightarrow> hex_digit k \<noteq> CHR '';''"
  by (auto simp: hex_digit_def dest: arg_cong [where f = "of_char :: char \<Rightarrow> nat"] split: if_splits)

lemma low_byte_of_nat: "low_byte (of_nat (uchar c)) = c"
proof -
  have "ucast (word_of_nat (of_char c) :: uint32) = byte_of_char c"
    using nat_of_char_less_256 [of c]
    by (simp add: byte_of_char_def word_unat_eq_iff unsigned_ucast_eq unsigned_of_nat take_bit_nat_eq_self)
  then show ?thesis by (simp add: low_byte_def uchar_def)
qed

lemma Convert_ascii: "i < 0x80 \<Longrightarrow> ConvertUTF32ToUTF8 i = [low_byte i]"
  by (simp add: ConvertUTF32ToUTF8_def utf8_length_def FIRST_BYTE_MARK_def)

lemma GetEntity_hex:
  assumes "uchar c < 32"
  shows "GetEntity (''&#x'' @ [hex_digit (uchar c div 16), hex_digit (uchar c mod 16), CHR '';''] @ w) enc = ([c], Some w)"
proof -
  let ?a = "hex_digit (uchar c div 16)" and ?b = "hex_digit (uchar c mod 16)"
  have k: "uchar c div 16 < 16" "uchar c mod 16 < 16" using assms by auto
  have v: "(of_nat (uchar c mod 16) + 16 * of_nat (uchar c div 16) :: uint32) = of_nat (uchar c)"
    by (metis mod_mult_div_eq of_nat_add of_nat_mult of_nat_numeral)
  have "(of_nat (uchar c) :: uint32) < 0x80"
    using assms by (simp add: word_less_nat_alt unat_of_nat)
  then show ?thesis
    using k hex_digit_stop [OF k(1)] hex_digit_stop [OF k(2)] v
    by (simp add: GetEntity_def char_reference_def Let_def hex_digit_value Convert_ascii low_byte_of_nat)
qed

lemma encode_char_cases:
  "encode_char c =
     (if c = CHR ''&'' then ''&amp;'' else if c = CHR ''<'' then ''&lt;''
      else if c = CHR ''>'' then ''&gt;'' else if c = CHR 0x22 then ''&quot;''
      else if c = CHR 0x27 then ''&apos;''
      else if uchar c < 32 then ''&#x'' @ [hex_digit (uchar c div 16), hex_digit (uchar c mod 16), CHR '';'']
      else [c])"
  unfolding encode_char_def entity_simps by (rule refl)

lemma GetChar_encode_char:
  assumes "char_length enc c = 1"
  shows "GetChar (encode_char c @ w) enc = Inr ([c], Some w)"
proof -
  have amp: "char_length enc (CHR ''&'') = 1" by (simp add: char_length_def utf8ByteTable_def uchar_def)
  show ?thesis
    unfolding encode_char_cases using assms GetEntity_hex [of c w enc] GetEntity_named [of w enc]
    by (simp add: GetChar_Cons amp)
qed

text \<open>
  A text that is read in whole characters: every lead byte has its continuation bytes, and these
  are no ASCII characters.
\<close>

function utf8_ok :: "encoding \<Rightarrow> string \<Rightarrow> bool" where
  "utf8_ok enc [] = True"
| "utf8_ok enc (c # r) \<longleftrightarrow> char_length enc c \<le> length (c # r)
     \<and> (\<forall>d \<in> set (take (char_length enc c - 1) r). 128 \<le> uchar d)
     \<and> utf8_ok enc (drop (char_length enc c - 1) r)"
  by pat_completeness auto
termination by (relation "measure (length \<circ> snd)") auto

definition no_reference :: "string \<Rightarrow> bool" where
  "no_reference s \<longleftrightarrow> (\<forall>i. take 3 (drop i s) \<noteq> ''&#x'')"


lemma no_reference_drop: "no_reference s \<Longrightarrow> no_reference (drop n s)"
  by (simp add: no_reference_def)

lemma encode_step: "no_reference (c # r) \<Longrightarrow> EncodeString (c # r) = encode_char c @ EncodeString r"
proof -
  assume "no_reference (c # r)"
  then have "take 3 (drop 0 (c # r)) \<noteq> ''&#x''" unfolding no_reference_def by blast
  then show ?thesis by (subst EncodeString.simps) (auto simp: numeral_3_eq_3 numeral_2_eq_2)
qed

lemma encode_high: "128 \<le> uchar c \<Longrightarrow> encode_char c = [c]"
  by (auto simp: encode_char_cases uchar_def)

lemma encode_skip:
  "no_reference s \<Longrightarrow> \<forall>d \<in> set (take n s). 128 \<le> uchar d \<Longrightarrow> EncodeString s = take n s @ EncodeString (drop n s)"
proof (induction n arbitrary: s)
  case (Suc n)
  show ?case
  proof (cases s)
    case (Cons c r)
    then have "no_reference r" using no_reference_drop [OF Suc.prems(1), of 1] by simp
    then show ?thesis using Suc Cons by (simp add: encode_step encode_high)
  qed simp
qed simp

lemma encode_head: "\<exists>d w. encode_char c = d # w \<and> (d = CHR ''&'' \<or> d = c \<and> c \<notin> {CHR ''<'', CHR 0x22, CHR 0x27})"
  by (auto simp: encode_char_cases)

lemma ToLower_quote: "t \<in> {CHR ''<'', CHR 0x22, CHR 0x27} \<Longrightarrow> ToLower enc d = ToLower enc t \<Longrightarrow> d = t"
  using schar_eq_iff [of d t] by (auto simp: ToLower_def c_tolower_def Let_def schar_def split: if_splits)

lemma StringEqual_other:
  assumes "t \<in> {CHR ''<'', CHR 0x22, CHR 0x27}" "d \<noteq> t"
  shows "StringEqual (d # w) (t # ts) ci enc = Inr False"
  using assms ToLower_quote [of t enc d] by (auto simp: StringEqual_def)

text \<open>One turn of the loop at a character that is not the start of the end tag.\<close>

lemma keep_loop_char:
  assumes "StringEqual (d # w) tag ci enc = Inr False" "GetChar (d # w) enc = Inr (cs, q)"
  shows "keep_loop (Some (d # w)) tag ci enc text = keep_loop q tag ci enc (text @ cs)"
  using assms by (subst keep_loop.simps) simp

lemma keep_loop_encoded:
  assumes "t \<in> {CHR ''<'', CHR 0x22, CHR 0x27}"
  shows "no_reference s \<Longrightarrow> utf8_ok enc s \<Longrightarrow>
    keep_loop (Some (EncodeString s @ w)) (t # ts) ci enc acc = keep_loop (Some w) (t # ts) ci enc (acc @ s)"
proof (induction enc s arbitrary: acc rule: utf8_ok.induct)
  case (1 enc)
  then show ?case by (simp add: EncodeString.simps)
next
  case (2 enc c r)
  let ?n = "char_length enc c"
  have r: "no_reference (drop (?n - 1) r)"
    using no_reference_drop [OF 2(2), of ?n] char_length_bounds [of enc c] by (cases ?n) simp_all
  show ?case
  proof (cases "?n = 1")
    case True
    obtain d v where d: "encode_char c = d # v" "d \<noteq> t"
      using encode_head [of c] assms by fastforce
    then have "GetChar (d # v @ EncodeString r @ w) enc = Inr ([c], Some (EncodeString r @ w))"
      using GetChar_encode_char [OF True, of "EncodeString r @ w"] by simp
    then show ?thesis
      using keep_loop_char [OF StringEqual_other [OF assms d(2)]] 2 d r True by (simp add: encode_step)
  next
    case False
    then have n: "2 \<le> ?n" using char_length_bounds [of enc c] by simp
    then have hi: "128 \<le> uchar c" by (auto simp: char_length_def utf8ByteTable_def Let_def split: if_splits)
    have r: "no_reference r" using no_reference_drop [OF 2(2), of 1] by simp
    have e: "EncodeString (c # r) = c # take (?n - 1) r @ EncodeString (drop (?n - 1) r)"
      using encode_step [OF 2(2)] encode_high [OF hi] encode_skip [OF r, of "?n - 1"] 2(3) by simp
    have "c \<noteq> t" using hi assms by (auto simp: uchar_def)
    moreover have "GetChar (c # take (?n - 1) r @ EncodeString (drop (?n - 1) r) @ w) enc
        = Inr (c # take (?n - 1) r, Some (EncodeString (drop (?n - 1) r) @ w))"
      using 2(3) n False by (simp add: GetChar_Cons take_Cons' drop_Cons' min_def)
    ultimately show ?thesis
      using keep_loop_char [OF StringEqual_other [OF assms, of c]] 2 \<open>no_reference (drop (?n - 1) r)\<close>
      by (simp add: e)
  qed
qed

lemma match_from_self: "(\<And>c. eq c c) \<Longrightarrow> match_from eq (tag @ w) tag"
  by (induction tag) auto

lemma keep_loop_end: "tag \<noteq> [] \<Longrightarrow> keep_loop (Some (tag @ w)) tag ci enc text = Inr (text, Some (tag @ w))"
  by (cases tag) (simp_all add: keep_loop.simps StringEqual_def match_from_self)

text \<open>C22:
  EncodeString and ReadText without trimming are inverse to each other: a text without \<open>&#x\<close> (in UTF-8 mode: of
  complete sequences), written by EncodeString and followed by an end tag, is read back as the
  same text, with the pointer behind the end tag, whatever special and control characters it has.\<close>

theorem encode_read_roundtrip:
  assumes "no_reference s" "utf8_ok enc s" "t \<in> {CHR ''<'', CHR 0x22, CHR 0x27}" "w \<noteq> []"
  shows "ReadText condense (Some (EncodeString s @ t # ts @ w)) False (t # ts) ci enc = Inr (s, Some w)"
  using keep_loop_encoded [OF assms(3,1,2), of "t # ts @ w" ts ci "[]"]
    keep_loop_end [of "t # ts" w ci enc s] assms(4)
  by (simp add: ReadText_def)

theorem encode_read_roundtrip_witness:
  "ReadText True (Some (EncodeString ''a<b&c'' @ ''</n>'')) False ''</'' False TIXML_ENCODING_UTF8
    = Inr (''a<b&c'', Some ''n>'')"
proof -
  have "take 3 (drop i ''a<b&c'') \<noteq> ''&#x''" for i
    by (cases "i < 5") (auto simp: less_Suc_eq numeral_eq_Suc)
  then have "no_reference ''a<b&c''" by (simp add: no_reference_def)
  then show ?thesis
    using encode_read_roundtrip [of "''a<b&c''" TIXML_ENCODING_UTF8 "CHR ''<''" "''n>''" True "''/''" False]
    by (simp add: char_length_def utf8ByteTable_def uchar_def)
qed

section \<open>UTF-8 encoding\<close>

text \<open>The code point of a UTF-8 sequence, read from its bytes.\<close>

fun utf8_value :: "string \<Rightarrow> nat" where
  "utf8_value [a] = uchar a"
| "utf8_value [a, b] = (uchar a - 0xC0) * 64 + (uchar b - 0x80)"
| "utf8_value [a, b, c] = ((uchar a - 0xE0) * 64 + (uchar b - 0x80)) * 64 + (uchar c - 0x80)"
| "utf8_value [a, b, c, d] =
     (((uchar a - 0xF0) * 64 + (uchar b - 0x80)) * 64 + (uchar c - 0x80)) * 64 + (uchar d - 0x80)"
| "utf8_value _ = 0"

lemma uchar_low_byte: "uchar (low_byte w) = unat w mod 256"
proof -
  have "unat (ucast w :: 8 word) = unat w mod 256"
    by (simp add: unsigned_ucast_eq take_bit_eq_mod unsigned_of_nat)
  then show ?thesis by (simp add: uchar_def low_byte_def char_of_byte_def)
qed

text \<open>A continuation byte carries the low six bits, a lead byte the bits that are left.\<close>

lemma or_high:
  assumes "unat i < 2 ^ k"
  shows "i OR push_bit k a = i + push_bit k (a :: uint32)"
proof -
  have "take_bit k i = i"
    using assms by (simp add: word_unat_eq_iff unsigned_take_bit_eq take_bit_nat_eq_self)
  then have "\<not> (bit i n \<and> bit (push_bit k a) n)" for n
    by (metis bit_push_bit_iff bit_take_bit_iff not_le)
  then show ?thesis by (intro disjunctive_add [symmetric]) blast
qed

lemma lead_byte:
  assumes "unat i < 2 ^ k" "unat (push_bit k a) + 2 ^ k \<le> 256"
  shows "uchar (low_byte (i OR push_bit k a)) = unat i + unat (push_bit k (a :: uint32))"
proof -
  have "unat (i + push_bit k a) = unat i + unat (push_bit k a)"
    using assms by (simp add: unat_word_ariths)
  then show ?thesis using assms by (simp add: uchar_low_byte or_high)
qed

lemma mark_byte: "uchar (low_byte ((i OR 0x80) AND 0xBF)) = 0x80 + unat i mod 64"
proof -
  have h: "(0x80 :: uint32) = 2 ^ 7" "(0xBF :: uint32) = 2 ^ 7 OR mask 6" "(0x80 :: uint32) = push_bit 6 2"
    by (simp_all add: mask_eq_exp_minus_1 push_bit_eq_mult)
  have "(i OR 2 ^ 7) AND (2 ^ 7 OR mask 6) = take_bit 6 i OR 2 ^ 7"
    by (rule bit_word_eqI) (auto simp: bit_simps)
  then have e: "(i OR 0x80) AND 0xBF = take_bit 6 i OR push_bit 6 2"
    using h by metis
  have "unat (take_bit 6 i) = take_bit 6 (unat i)" by (rule unsigned_take_bit_eq)
  then have u: "unat (take_bit 6 i) = unat i mod 64" by (simp only: take_bit_eq_mod [of 6 "unat i"]) simp
  have "uchar (low_byte (take_bit 6 i OR push_bit 6 2)) = unat (take_bit 6 i) + unat (push_bit 6 2 :: uint32)"
    by (rule lead_byte) (simp_all add: u push_bit_eq_mult)
  then show ?thesis unfolding e u by (simp add: push_bit_eq_mult)
qed

lemma unat_drop_6: "unat (drop_bit 6 i :: uint32) = unat i div 64"
proof -
  have "unat (drop_bit 6 i) = drop_bit 6 (unat i)" by (rule unat_drop_bit_eq)
  then show ?thesis by (simp only: drop_bit_eq_div [of 6 "unat i"]) simp
qed

abbreviation tail_byte :: "uint32 \<Rightarrow> char" where
  "tail_byte i \<equiv> low_byte ((i OR 0x80) AND 0xBF)"

primrec sextets :: "nat \<Rightarrow> uint32 \<Rightarrow> uint32" where
  "sextets 0 i = i"
| "sextets (Suc k) i = drop_bit 6 (sextets k i)"

declare sextets.simps [simp del]

lemma utf8_bytes_unfold:
  "utf8_bytes 2 i 2 = [low_byte (sextets 1 i OR push_bit 5 6), tail_byte i]"
  "utf8_bytes 3 i 3 = [low_byte (sextets 2 i OR push_bit 4 14), tail_byte (sextets 1 i), tail_byte i]"
  "utf8_bytes 4 i 4 = [low_byte (sextets 3 i OR push_bit 3 30), tail_byte (sextets 2 i), tail_byte (sextets 1 i), tail_byte i]"
proof -
  have p: "push_bit 5 6 = (0xC0 :: uint32)" "push_bit 4 14 = (0xE0 :: uint32)" "push_bit 3 30 = (0xF0 :: uint32)"
    by (simp_all add: push_bit_eq_mult)
  have f: "FIRST_BYTE_MARK ! Suc (Suc 0) = 0xC0" "FIRST_BYTE_MARK ! Suc (Suc (Suc 0)) = 0xE0"
    "FIRST_BYTE_MARK ! Suc (Suc (Suc (Suc 0))) = 0xF0" by (simp_all add: FIRST_BYTE_MARK_def)
  show "utf8_bytes 2 i 2 = [low_byte (sextets 1 i OR push_bit 5 6), tail_byte i]"
    unfolding p unfolding numeral_2_eq_2 One_nat_def utf8_bytes.simps f append.simps sextets.simps by (rule refl)
  show "utf8_bytes 3 i 3 = [low_byte (sextets 2 i OR push_bit 4 14), tail_byte (sextets 1 i), tail_byte i]"
    unfolding p unfolding numeral_2_eq_2 numeral_3_eq_3 One_nat_def utf8_bytes.simps f append.simps sextets.simps by (rule refl)
  have "(4 :: nat) = Suc (Suc (Suc (Suc 0)))" by simp
  then show "utf8_bytes 4 i 4 = [low_byte (sextets 3 i OR push_bit 3 30), tail_byte (sextets 2 i), tail_byte (sextets 1 i), tail_byte i]"
    unfolding p unfolding numeral_2_eq_2 numeral_3_eq_3 One_nat_def
    by (simp only: utf8_bytes.simps f append.simps sextets.simps)
qed

lemma sextets_value: "unat (sextets k i) = unat i div 64 ^ k"
  by (induction k) (simp_all only: sextets.simps unat_drop_6, simp_all add: div_mult2_eq [symmetric] mult.commute)

lemma utf8_length_value: "utf8_length i = (if unat i < 2 ^ 7 then 1 else if unat i < 2 ^ 11 then 2
    else if unat i < 2 ^ 16 then 3 else if unat i < 2 ^ 21 then 4 else 0)"
  by (simp add: utf8_length_def word_less_nat_alt)

text \<open>C23:
  Every code point below 0x200000 is written as the sequence of one to four bytes whose value
  it is; the number of bytes is the least possible, the lead byte announces it to the reader
  (up to 0x13FFFF), and from 0x200000 on nothing is written.\<close>

theorem utf8_encoding_correct:
  fixes i :: uint32
  shows "if unat i < 0x200000
    then utf8_value (ConvertUTF32ToUTF8 i) = unat i
       \<and> length (ConvertUTF32ToUTF8 i) = (if unat i < 2 ^ 7 then 1 else if unat i < 2 ^ 11 then 2
            else if unat i < 2 ^ 16 then 3 else 4)
       \<and> utf8ByteTable (hd (ConvertUTF32ToUTF8 i)) = (if unat i < 0x140000 then length (ConvertUTF32ToUTF8 i) else 1)
    else ConvertUTF32ToUTF8 i = []"
proof -
  define n where "n = unat i"
  have quotients: "n div 4096 * 64 + n div 64 mod 64 = n div 64" "n div 262144 * 64 + n div 4096 mod 64 = n div 4096"
    using div_mult_mod_eq [of "n div 64" 64] div_mult_mod_eq [of "n div 4096" 64]
    by (simp_all add: div_mult2_eq [symmetric])
  consider "n < 0x80" | "0x80 \<le> n" "n < 0x800" | "0x800 \<le> n" "n < 0x10000"
    | "0x10000 \<le> n" "n < 0x200000" | "0x200000 \<le> n" by linarith
  then show ?thesis
  proof cases
    case 1
    have c: "ConvertUTF32ToUTF8 i = [low_byte i]"
      by (rule Convert_ascii) (use 1 in \<open>simp add: n_def word_less_nat_alt\<close>)
    have "uchar (low_byte i) = n" using 1 by (simp add: uchar_low_byte n_def)
    then show ?thesis using 1 c by (simp add: n_def utf8ByteTable_def)
  next
    case 2
    then have "utf8_length i = 2" by (simp add: utf8_length_value n_def)
    then have c: "ConvertUTF32ToUTF8 i = [low_byte (sextets 1 i OR push_bit 5 6), tail_byte i]"
      by (simp only: ConvertUTF32ToUTF8_def utf8_bytes_unfold)
    have l: "uchar (low_byte (sextets 1 i OR push_bit 5 6)) = n div 64 + 0xC0"
      using 2 by (subst lead_byte) (auto simp: sextets_value n_def push_bit_eq_mult)
    have t: "uchar (tail_byte i) = 0x80 + n mod 64" by (simp only: mark_byte n_def)
    obtain a b where "ConvertUTF32ToUTF8 i = [a, b]" "uchar a = n div 64 + 0xC0" "uchar b = 0x80 + n mod 64"
      using c l t by blast
    moreover have "2 \<le> n div 64" "n div 64 < 32" using 2 by auto
    ultimately show ?thesis using 2 by (simp add: n_def [symmetric] utf8ByteTable_def Let_def)
  next
    case 3
    then have "utf8_length i = 3" by (simp add: utf8_length_value n_def)
    then have c: "ConvertUTF32ToUTF8 i =
        [low_byte (sextets 2 i OR push_bit 4 14), tail_byte (sextets 1 i), tail_byte i]"
      by (simp only: ConvertUTF32ToUTF8_def utf8_bytes_unfold)
    have l: "uchar (low_byte (sextets 2 i OR push_bit 4 14)) = n div 4096 + 0xE0"
      using 3 by (subst lead_byte) (auto simp: sextets_value n_def push_bit_eq_mult)
    have t: "uchar (tail_byte i) = 0x80 + n mod 64" "uchar (tail_byte (sextets 1 i)) = 0x80 + n div 64 mod 64"
      by (simp_all only: mark_byte n_def sextets_value power_one_right)
    obtain a b c where "ConvertUTF32ToUTF8 i = [a, b, c]" "uchar a = n div 4096 + 0xE0" "uchar b = 0x80 + n div 64 mod 64" "uchar c = 0x80 + n mod 64"
      using c l t by blast
    moreover have "n div 4096 < 16" "(n div 4096 * 64 + n div 64 mod 64) * 64 + n mod 64 = n"
      using 3 quotients by auto
    ultimately show ?thesis using 3 by (simp add: n_def [symmetric] utf8ByteTable_def Let_def)
  next
    case 4
    then have "utf8_length i = 4" by (simp add: utf8_length_value n_def)
    then have c: "ConvertUTF32ToUTF8 i = [low_byte (sextets 3 i OR push_bit 3 30),
        tail_byte (sextets 2 i), tail_byte (sextets 1 i), tail_byte i]"
      by (simp only: ConvertUTF32ToUTF8_def utf8_bytes_unfold)
    have l: "uchar (low_byte (sextets 3 i OR push_bit 3 30)) = n div 262144 + 0xF0"
      using 4 by (subst lead_byte) (auto simp: sextets_value n_def push_bit_eq_mult)
    have t: "uchar (tail_byte i) = 0x80 + n mod 64" "uchar (tail_byte (sextets 1 i)) = 0x80 + n div 64 mod 64"
      "uchar (tail_byte (sextets 2 i)) = 0x80 + n div 4096 mod 64"
      by (simp_all only: mark_byte n_def sextets_value power_one_right) simp
    obtain a b c d where "ConvertUTF32ToUTF8 i = [a, b, c, d]" "uchar a = n div 262144 + 0xF0" "uchar b = 0x80 + n div 4096 mod 64" "uchar c = 0x80 + n div 64 mod 64" "uchar d = 0x80 + n mod 64"
      using c l t by blast
    moreover have "n div 262144 < 8" "n div 262144 < 5 \<longleftrightarrow> n < 0x140000"
      "((n div 262144 * 64 + n div 4096 mod 64) * 64 + n div 64 mod 64) * 64 + n mod 64 = n"
      using 4 quotients by auto
    ultimately show ?thesis using 4 by (simp add: n_def [symmetric] utf8ByteTable_def Let_def)
  next
    case 5
    then show ?thesis by (simp add: ConvertUTF32ToUTF8_def utf8_length_value n_def)
  qed
qed


lemma pass_through_semicolon:
  "CHR '';'' \<notin> set t \<Longrightarrow> pass_through (c # t @ CHR '';'' # r) = (c # t, CHR '';'' # r)"
  by (induction t arbitrary: c) auto

text \<open>
  EncodeString copies everything between \<open>&#x\<close> and the next semicolon as it is, digits or not, so
  a value that contains these characters reaches the document with its markup unescaped.\<close>

theorem reference_passes_markup:
  "CHR '';'' \<notin> set t \<Longrightarrow> EncodeString (''&#x'' @ t @ '';'' @ r) = ''&#x'' @ t @ '';'' @ EncodeString r"
proof -
  assume t: "CHR '';'' \<notin> set t"
  have p: "pass_through (''&#x'' @ t @ '';'' @ r) = (''&#x'' @ t, '';'' @ r)"
    using pass_through_semicolon [of "''#x'' @ t" "CHR ''&''" r] t by simp
  have e: "EncodeString ('';'' @ r) = '';'' @ EncodeString r"
    by (subst EncodeString.simps) (simp add: encode_char_cases uchar_def)
  show ?thesis
    using p e by (subst EncodeString.simps) (simp add: numeral_2_eq_2)
qed

theorem reference_passes_markup_witness:
  "EncodeString ''&#x</a><b>;'' = ''&#x</a><b>;''"
  using reference_passes_markup [of "''</a><b>''" "[]"] by (simp add: EncodeString.simps)

end
