(* ===== verification/XmlParse.thy ===== *)
theory XmlParse
  imports XmlText "HOL-Library.Sublist"
begin

text \<open>
  The parser of TinyXML (\<open>tinyxmlparser.cpp\<close> 704-1637 without the STL parts): \<open>Identify\<close> and the
  \<open>Parse\<close> members of the document and of every kind of node. A node is a tree; what the theory
  DomTree shows of \<open>LinkEndChild\<close> is why a child list that grows at its end stands for the linked
  nodes. \<open>condenseWhiteSpace\<close> is the static of that name.
\<close>

section \<open>Documents and nodes\<close>

datatype xml_error =
    TIXML_NO_ERROR | TIXML_ERROR | TIXML_ERROR_OPENING_FILE | TIXML_ERROR_PARSING_ELEMENT
  | TIXML_ERROR_FAILED_TO_READ_ELEMENT_NAME | TIXML_ERROR_READING_ELEMENT_VALUE
  | TIXML_ERROR_READING_ATTRIBUTES | TIXML_ERROR_PARSING_EMPTY | TIXML_ERROR_READING_END_TAG
  | TIXML_ERROR_PARSING_UNKNOWN | TIXML_ERROR_PARSING_COMMENT | TIXML_ERROR_PARSING_DECLARATION
  | TIXML_ERROR_DOCUMENT_EMPTY | TIXML_ERROR_EMBEDDED_NULL | TIXML_ERROR_PARSING_CDATA
  | TIXML_ERROR_DOCUMENT_TOP_ONLY

fun errorString :: "xml_error \<Rightarrow> string" where
  "errorString TIXML_NO_ERROR = ''No error''"
| "errorString TIXML_ERROR = ''Error''"
| "errorString TIXML_ERROR_OPENING_FILE = ''Failed to open file''"
| "errorString TIXML_ERROR_PARSING_ELEMENT = ''Error parsing Element.''"
| "errorString TIXML_ERROR_FAILED_TO_READ_ELEMENT_NAME = ''Failed to read Element name''"
| "errorString TIXML_ERROR_READING_ELEMENT_VALUE = ''Error reading Element value.''"
| "errorString TIXML_ERROR_READING_ATTRIBUTES = ''Error reading Attributes.''"
| "errorString TIXML_ERROR_PARSING_EMPTY = ''Error: empty tag.''"
| "errorString TIXML_ERROR_READING_END_TAG = ''Error reading end tag.''"
| "errorString TIXML_ERROR_PARSING_UNKNOWN = ''Error parsing Unknown.''"
| "errorString TIXML_ERROR_PARSING_COMMENT = ''Error parsing Comment.''"
| "errorString TIXML_ERROR_PARSING_DECLARATION = ''Error parsing Declaration.''"
| "errorString TIXML_ERROR_DOCUMENT_EMPTY = ''Error document empty.''"
| "errorString TIXML_ERROR_EMBEDDED_NULL = ''Error null (0) or unexpected EOF found in input stream.''"
| "errorString TIXML_ERROR_PARSING_CDATA = ''Error parsing CDATA.''"
| "errorString TIXML_ERROR_DOCUMENT_TOP_ONLY =
     ''Error when TiXmlDocument added to document, because TiXmlDocument can only be at the root.''"

record xattr =
  aname :: string
  avalue :: string
  alocation :: cursor

datatype xnode =
    XElement cursor string "xattr list" "xnode list"
  | XComment cursor string
  | XUnknown cursor string
  | XText cursor string bool
  | XDeclaration cursor string string string

text \<open>
  The fields of a document that parsing reads or sets, with the text being parsed and the
  parsing data all \<open>Parse\<close> members are given a pointer to.
\<close>

record xdoc =
  error :: bool
  errorId :: xml_error
  errorDesc :: string
  errorLocation :: cursor
  d_tabsize :: int
  useMicrosoftBOM :: bool
  d_location :: cursor
  d_text :: string
  d_data :: parsing_data

definition no_cursor :: cursor where
  "no_cursor = \<lparr>row = -1, col = -1\<rparr>"

definition ClearError :: "xdoc \<Rightarrow> xdoc" where
  "ClearError d = d\<lparr>error := False, errorId := TIXML_NO_ERROR, errorDesc := '''',
     errorLocation := \<lparr>row = 0, col = 0\<rparr>\<rparr>"

text \<open>\<open>data->Stamp(p, encoding)\<close> and then \<open>data->Cursor()\<close>.\<close>

definition stamp_at :: "encoding \<Rightarrow> string \<Rightarrow> xdoc \<Rightarrow> (cursor \<times> xdoc) res" where
  "stamp_at enc p d =
     (case Stamp enc (d_text d) (length (d_text d) - length p) (d_data d) of
        None \<Rightarrow> Inl Never_returns
      | Some pd \<Rightarrow> Inr (cursor pd, d\<lparr>d_data := pd\<rparr>))"

text \<open>
  Every call with a position also passes the parsing data, and the calls without one pass neither.
  The first error in a chain is kept.
\<close>

definition SetError :: "xml_error \<Rightarrow> string option \<Rightarrow> encoding \<Rightarrow> xdoc \<Rightarrow> xdoc res" where
  "SetError err pError enc d =
     (if error d then Inr d
      else let d' = d\<lparr>error := True, errorId := err, errorDesc := errorString err, errorLocation := no_cursor\<rparr>
           in case pError of None \<Rightarrow> Inr d'
              | Some p \<Rightarrow> bindr (stamp_at enc p d') (\<lambda>(c, d''). Inr (d''\<lparr>errorLocation := c\<rparr>)))"

text \<open>Report an error and return the node with a null pointer.\<close>

definition failed :: "xml_error \<Rightarrow> string option \<Rightarrow> encoding \<Rightarrow> 'n \<Rightarrow> xdoc \<Rightarrow> ('n \<times> string option \<times> xdoc) res" where
  "failed err pError enc node d = bindr (SetError err pError enc d) (\<lambda>d. Inr (node, None, d))"

section \<open>Identify\<close>

datatype node_kind = Declaration_node | Comment_node | CDATA_node | Unknown_node | Element_node

definition Identify :: "string \<Rightarrow> encoding \<Rightarrow> node_kind option res" where
  "Identify p enc = (case SkipWhiteSpace (Some p) enc of
      Some (c # r) \<Rightarrow>
        if c \<noteq> CHR ''<'' then Inr None
        else bindr (StringEqual (c # r) ''<?xml'' True enc) (\<lambda>is_decl.
             bindr (StringEqual (c # r) ''<!--'' False enc) (\<lambda>is_comment.
             bindr (StringEqual (c # r) ''<![CDATA['' False enc) (\<lambda>is_cdata.
             bindr (StringEqual (c # r) ''<!'' False enc) (\<lambda>is_dtd.
               Inr (Some (if is_decl then Declaration_node
                 else if is_comment then Comment_node
                 else if is_cdata then CDATA_node
                 else if is_dtd then Unknown_node
                 else if r \<noteq> [] \<and> name_start (hd r) then Element_node
                 else Unknown_node))))))
    | _ \<Rightarrow> Inr None)"

section \<open>Leaves\<close>

definition Unknown_Parse :: "encoding \<Rightarrow> string option \<Rightarrow> xdoc \<Rightarrow> (xnode \<times> string option \<times> xdoc) res" where
  "Unknown_Parse enc p d = (case SkipWhiteSpace p enc of
      None \<Rightarrow> Inl Assert_failed
    | Some q \<Rightarrow> bindr (stamp_at enc q d) (\<lambda>(loc, d).
        case q of
          [] \<Rightarrow> failed TIXML_ERROR_PARSING_UNKNOWN (Some []) enc (XUnknown loc '''') d
        | c # r \<Rightarrow>
            if c \<noteq> CHR ''<'' then failed TIXML_ERROR_PARSING_UNKNOWN (Some q) enc (XUnknown loc '''') d
            else let node = XUnknown loc (takeWhile (\<lambda>c. c \<noteq> CHR ''>'') r)
                 in case dropWhile (\<lambda>c. c \<noteq> CHR ''>'') r of
                      [] \<Rightarrow> Inr (node, Some [], d)
                    | g # s \<Rightarrow> Inr (node, Some s, d)))"

text \<open>The characters before the end tag, and the rest from the tag on.\<close>

fun raw_until :: "string \<Rightarrow> string \<Rightarrow> string \<times> string" where
  "raw_until tag [] = ([], [])"
| "raw_until tag (c # r) = (if is_prefix tag (c # r) then ([], c # r)
     else (let (v, q) = raw_until tag r in (c # v, q)))"

definition Comment_Parse :: "encoding \<Rightarrow> string option \<Rightarrow> xdoc \<Rightarrow> (xnode \<times> string option \<times> xdoc) res" where
  "Comment_Parse enc p d = (case SkipWhiteSpace p enc of
      None \<Rightarrow> Inl Assert_failed
    | Some q \<Rightarrow> bindr (stamp_at enc q d) (\<lambda>(loc, d).
        bindr (StringEqual q ''<!--'' False enc) (\<lambda>b.
          if \<not> b then failed TIXML_ERROR_PARSING_COMMENT (Some q) enc (XComment loc '''') d
          else let (v, q) = raw_until ''-->'' (drop 4 q)
               in Inr (XComment loc v, Some (drop 3 q), d))))"

definition Blank :: "xnode \<Rightarrow> bool" where
  "Blank t = (case t of XText _ v _ \<Rightarrow> list_all IsWhiteSpace v | _ \<Rightarrow> False)"

text \<open>The pointer handed back by the text branch is the one to the less-than sign that ended the text.\<close>

definition Text_Parse :: "bool \<Rightarrow> encoding \<Rightarrow> bool \<Rightarrow> string \<Rightarrow> xdoc \<Rightarrow> (xnode \<times> string option \<times> xdoc) res" where
  "Text_Parse condense enc cdata p d = bindr (stamp_at enc p d) (\<lambda>(loc, d).
     bindr (StringEqual p ''<![CDATA['' False enc) (\<lambda>b.
       if cdata \<or> b
       then if \<not> b then failed TIXML_ERROR_PARSING_CDATA (Some p) enc (XText loc '''' True) d
            else let (v, q) = raw_until '']]>'' (drop 9 p)
                 in bindr (ReadText condense (Some q) False '']]>'' False enc) (\<lambda>(dummy, q).
                      Inr (XText loc v True, q, d))
       else bindr (ReadText condense (Some p) True ''<'' False enc) (\<lambda>(v, q).
              Inr (XText loc v False, map_option (\<lambda>q. CHR ''<'' # q) q, d))))"

section \<open>Attributes\<close>

text \<open>An attribute outside a document (those of a declaration) reports no errors.\<close>

definition attr_failed ::
    "bool \<Rightarrow> xml_error \<Rightarrow> string option \<Rightarrow> encoding \<Rightarrow> xattr \<Rightarrow> xdoc \<Rightarrow> (xattr \<times> string option \<times> xdoc) res" where
  "attr_failed document err pError enc a d =
     (if document then failed err pError enc a d else Inr (a, None, d))"

definition unquoted_char :: "char \<Rightarrow> bool" where
  "unquoted_char c \<longleftrightarrow> \<not> IsWhiteSpace c \<and> c \<noteq> CHR ''/'' \<and> c \<noteq> CHR ''>'' \<and> c \<noteq> CHR 0x27 \<and> c \<noteq> CHR 0x22"

definition Attribute_value ::
    "bool \<Rightarrow> bool \<Rightarrow> encoding \<Rightarrow> string \<Rightarrow> xattr \<Rightarrow> xdoc \<Rightarrow> (xattr \<times> string option \<times> xdoc) res" where
  "Attribute_value condense document enc p a d = (case p of
      [] \<Rightarrow> attr_failed document TIXML_ERROR_READING_ATTRIBUTES (Some []) enc a d
    | c # r \<Rightarrow>
        if c = CHR 0x27 \<or> c = CHR 0x22
        then bindr (ReadText condense (Some r) False [c] False enc) (\<lambda>(v, q). Inr (a\<lparr>avalue := v\<rparr>, q, d))
        else let a = a\<lparr>avalue := takeWhile unquoted_char p\<rparr>; q = dropWhile unquoted_char p
             in if q \<noteq> [] \<and> (hd q = CHR 0x27 \<or> hd q = CHR 0x22)
                then attr_failed document TIXML_ERROR_READING_ATTRIBUTES (Some q) enc a d
                else Inr (a, Some q, d))"

definition Attribute_Parse ::
    "bool \<Rightarrow> bool \<Rightarrow> encoding \<Rightarrow> string option \<Rightarrow> xdoc \<Rightarrow> (xattr \<times> string option \<times> xdoc) res" where
  "Attribute_Parse condense document enc p d =
     (let new = \<lparr>aname = '''', avalue = '''', alocation = no_cursor\<rparr> in
      case SkipWhiteSpace p enc of
        None \<Rightarrow> Inr (new, None, d)
      | Some [] \<Rightarrow> Inr (new, None, d)
      | Some q \<Rightarrow> bindr (stamp_at enc q d) (\<lambda>(loc, d). bindr (ReadName (Some q)) (\<lambda>(name, p).
          let a = new\<lparr>aname := name, alocation := loc\<rparr> in
          if p = None \<or> p = Some []
          then attr_failed document TIXML_ERROR_READING_ATTRIBUTES (Some q) enc a d
          else case SkipWhiteSpace p enc of
              Some (e # r) \<Rightarrow>
                if e \<noteq> CHR ''='' then attr_failed document TIXML_ERROR_READING_ATTRIBUTES (Some (e # r)) enc a d
                else (case SkipWhiteSpace (Some r) enc of
                    None \<Rightarrow> attr_failed document TIXML_ERROR_READING_ATTRIBUTES None enc a d
                  | Some v \<Rightarrow> Attribute_value condense document enc v a d)
            | none \<Rightarrow> attr_failed document TIXML_ERROR_READING_ATTRIBUTES none enc a d)))"

section \<open>Declarations\<close>

text \<open>
  The loop over the words of a declaration; it stops at the assertion of StringEqual when the text ends in it.
  \<open>Value()\<close> is a C string, so that a value is kept up to its first terminator.
\<close>

fun decl_loop :: "nat \<Rightarrow> bool \<Rightarrow> encoding \<Rightarrow> cursor \<Rightarrow> string \<Rightarrow> string \<Rightarrow> string \<Rightarrow> string option \<Rightarrow> xdoc
    \<Rightarrow> (xnode \<times> string option \<times> xdoc) res" where
  "decl_loop 0 condense enc loc ver en sta p d = Inl Out_of_fuel"
| "decl_loop (Suc n) condense enc loc ver en sta p d =
     (if p = None \<or> p = Some [] then Inr (XDeclaration loc ver en sta, None, d)
      else if hd (the p) = CHR ''>'' then Inr (XDeclaration loc ver en sta, Some (tl (the p)), d)
      else case SkipWhiteSpace p enc of
          None \<Rightarrow> Inl Assert_failed
        | Some q \<Rightarrow>
            bindr (StringEqual q ''version'' True enc) (\<lambda>b.
              if b then bindr (Attribute_Parse condense False enc (Some q) d) (\<lambda>(a, p, d).
                decl_loop n condense enc loc (cstr (avalue a)) en sta p d)
              else bindr (StringEqual q ''encoding'' True enc) (\<lambda>b.
                if b then bindr (Attribute_Parse condense False enc (Some q) d) (\<lambda>(a, p, d).
                  decl_loop n condense enc loc ver (cstr (avalue a)) sta p d)
                else bindr (StringEqual q ''standalone'' True enc) (\<lambda>b.
                  if b then bindr (Attribute_Parse condense False enc (Some q) d) (\<lambda>(a, p, d).
                    decl_loop n condense enc loc ver en (cstr (avalue a)) p d)
                  else decl_loop n condense enc loc ver en sta
                         (Some (dropWhile (\<lambda>c. c \<noteq> CHR ''>'' \<and> \<not> IsWhiteSpace c) q)) d))))"

definition Declaration_Parse ::
    "nat \<Rightarrow> bool \<Rightarrow> encoding \<Rightarrow> string option \<Rightarrow> xdoc \<Rightarrow> (xnode \<times> string option \<times> xdoc) res" where
  "Declaration_Parse n condense enc p d =
     (let new = XDeclaration no_cursor '''' '''' '''' in
      case SkipWhiteSpace p enc of
        None \<Rightarrow> failed TIXML_ERROR_PARSING_DECLARATION None enc new d
      | Some [] \<Rightarrow> failed TIXML_ERROR_PARSING_DECLARATION None enc new d
      | Some q \<Rightarrow> bindr (StringEqual q ''<?xml'' True enc) (\<lambda>b.
          if \<not> b then failed TIXML_ERROR_PARSING_DECLARATION None enc new d
          else bindr (stamp_at enc q d) (\<lambda>(loc, d).
            decl_loop n condense enc loc '''' '''' '''' (Some (drop 5 q)) d)))"

section \<open>Elements\<close>

text \<open>
  \<open>Parse\<close>, the attribute loop of it, and \<open>ReadValue\<close>. Each is one turn over the functions it goes on
  with, and the recursion below ties the three together on fuel. The node handed back carries
  what was read before an error.
\<close>

type_synonym 'n parsed = "('n \<times> string option \<times> xdoc) res"

definition element_step ::
    "(cursor \<Rightarrow> string \<Rightarrow> xattr list \<Rightarrow> string \<Rightarrow> xdoc \<Rightarrow> xnode parsed) \<Rightarrow> encoding \<Rightarrow> string option \<Rightarrow> xdoc \<Rightarrow> xnode parsed" where
  "element_step attributes enc p d =
     (case SkipWhiteSpace p enc of
        None \<Rightarrow> failed TIXML_ERROR_PARSING_ELEMENT None enc (XElement no_cursor '''' [] []) d
      | Some [] \<Rightarrow> failed TIXML_ERROR_PARSING_ELEMENT None enc (XElement no_cursor '''' [] []) d
      | Some (c # r) \<Rightarrow> bindr (stamp_at enc (c # r) d) (\<lambda>(loc, d).
          if c \<noteq> CHR ''<'' then failed TIXML_ERROR_PARSING_ELEMENT (Some (c # r)) enc (XElement loc '''' [] []) d
          else let pErr = SkipWhiteSpace (Some r) enc
               in bindr (ReadName pErr) (\<lambda>(name, p).
                    if p = None \<or> p = Some []
                    then failed TIXML_ERROR_FAILED_TO_READ_ELEMENT_NAME pErr enc (XElement loc name [] []) d
                    else attributes loc name [] (the p) d)))"

text \<open>Behind the value: the end tag must follow.\<close>

definition end_tag :: "encoding \<Rightarrow> string \<Rightarrow> xnode \<Rightarrow> string option \<Rightarrow> xdoc \<Rightarrow> xnode parsed" where
  "end_tag enc name e q d =
     (if q = None \<or> q = Some [] then failed TIXML_ERROR_READING_END_TAG q enc e d
      else bindr (StringEqual (the q) (''</'' @ name) False enc) (\<lambda>b.
        if \<not> b then failed TIXML_ERROR_READING_END_TAG q enc e d
        else (case SkipWhiteSpace (Some (drop (length name + 2) (the q))) enc of
            None \<Rightarrow> failed TIXML_ERROR_READING_END_TAG None enc e d
          | Some [] \<Rightarrow> failed TIXML_ERROR_READING_END_TAG (Some []) enc e d
          | Some (g # s) \<Rightarrow> if g = CHR ''>'' then Inr (e, Some s, d)
             else failed TIXML_ERROR_READING_END_TAG (Some (g # s)) enc e d)))"

definition attr_step ::
    "(xattr list \<Rightarrow> string \<Rightarrow> xdoc \<Rightarrow> xnode parsed) \<Rightarrow> (string option \<Rightarrow> xdoc \<Rightarrow> xnode list parsed)
      \<Rightarrow> bool \<Rightarrow> encoding \<Rightarrow> cursor \<Rightarrow> string \<Rightarrow> xattr list \<Rightarrow> string \<Rightarrow> xdoc \<Rightarrow> xnode parsed" where
  "attr_step attributes read_value condense enc loc name attrs p d =
     (let e = XElement loc name attrs [] in
      if p = [] then Inr (e, Some [], d)
      else case SkipWhiteSpace (Some p) enc of
        None \<Rightarrow> failed TIXML_ERROR_READING_ATTRIBUTES (Some p) enc e d
      | Some [] \<Rightarrow> failed TIXML_ERROR_READING_ATTRIBUTES (Some p) enc e d
      | Some (c # r) \<Rightarrow>
          if c = CHR ''/''
          then if take 1 r \<noteq> ''>'' then failed TIXML_ERROR_PARSING_EMPTY (Some r) enc e d
               else Inr (e, Some (tl r), d)
          else if c = CHR ''>''
          then bindr (read_value (Some r) d) (\<lambda>(children, q, d).
                 end_tag enc name (XElement loc name attrs children) q d)
          else bindr (Attribute_Parse condense True enc (Some (c # r)) d) (\<lambda>(a, q, d).
                 if q = None \<or> q = Some [] \<or> aname a \<in> aname ` set attrs
                 then failed TIXML_ERROR_PARSING_ELEMENT (Some (c # r)) enc e d
                 else attributes (attrs @ [a]) (the q) d))"

definition Node_Parse ::
    "(string option \<Rightarrow> xdoc \<Rightarrow> xnode parsed) \<Rightarrow> nat \<Rightarrow> bool \<Rightarrow> encoding \<Rightarrow> node_kind \<Rightarrow> string \<Rightarrow> xdoc \<Rightarrow> xnode parsed" where
  "Node_Parse element n condense enc k p d = (case k of
      Declaration_node \<Rightarrow> Declaration_Parse n condense enc (Some p) d
    | Comment_node \<Rightarrow> Comment_Parse enc (Some p) d
    | CDATA_node \<Rightarrow> Text_Parse condense enc True p d
    | Unknown_node \<Rightarrow> Unknown_Parse enc (Some p) d
    | Element_node \<Rightarrow> element (Some p) d)"

definition value_step ::
    "(string option \<Rightarrow> xdoc \<Rightarrow> xnode parsed) \<Rightarrow> (xnode list \<Rightarrow> string option \<Rightarrow> xdoc \<Rightarrow> xnode list parsed)
      \<Rightarrow> nat \<Rightarrow> bool \<Rightarrow> encoding \<Rightarrow> xnode list \<Rightarrow> string option \<Rightarrow> xdoc \<Rightarrow> xnode list parsed" where
  "value_step element read_value n condense enc children pWithWhiteSpace d =
     (case SkipWhiteSpace pWithWhiteSpace enc of
        None \<Rightarrow> bindr (SetError TIXML_ERROR_READING_ELEMENT_VALUE None enc d) (\<lambda>d. Inr (children, None, d))
      | Some [] \<Rightarrow> Inr (children, Some [], d)
      | Some (c # r) \<Rightarrow>
          if c \<noteq> CHR ''<''
          then bindr (Text_Parse condense enc False (if condense then c # r else the pWithWhiteSpace) d) (\<lambda>(t, q, d).
                 read_value (if Blank t then children else children @ [t]) q d)
          else bindr (StringEqual (c # r) ''</'' False enc) (\<lambda>b.
                 if b then Inr (children, Some (c # r), d)
                 else bindr (Identify (c # r) enc) (\<lambda>k. case k of
                     None \<Rightarrow> Inr (children, None, d)
                   | Some k \<Rightarrow> bindr (Node_Parse element n condense enc k (c # r) d) (\<lambda>(node, q, d).
                       read_value (children @ [node]) q d))))"

fun Element_Parse :: "nat \<Rightarrow> bool \<Rightarrow> encoding \<Rightarrow> string option \<Rightarrow> xdoc \<Rightarrow> xnode parsed"
  and attr_loop :: "nat \<Rightarrow> bool \<Rightarrow> encoding \<Rightarrow> cursor \<Rightarrow> string \<Rightarrow> xattr list \<Rightarrow> string \<Rightarrow> xdoc \<Rightarrow> xnode parsed"
  and ReadValue :: "nat \<Rightarrow> bool \<Rightarrow> encoding \<Rightarrow> xnode list \<Rightarrow> string option \<Rightarrow> xdoc \<Rightarrow> xnode list parsed"
where
  "Element_Parse 0 condense enc p d = Inl Out_of_fuel"
| "Element_Parse (Suc n) condense enc p d = element_step (attr_loop n condense enc) enc p d"
| "attr_loop 0 condense enc loc name attrs p d = Inl Out_of_fuel"
| "attr_loop (Suc n) condense enc loc name attrs p d =
     attr_step (attr_loop n condense enc loc name) (ReadValue n condense enc []) condense enc loc name attrs p d"
| "ReadValue 0 condense enc children pws d = Inl Out_of_fuel"
| "ReadValue (Suc n) condense enc children pws d =
     value_step (Element_Parse n condense enc) (ReadValue n condense enc) n condense enc children pws d"

section \<open>The document\<close>

text \<open>What the first declaration says of the encoding.\<close>

definition declared_encoding :: "encoding \<Rightarrow> xnode \<Rightarrow> encoding res" where
  "declared_encoding enc node = (case node of
      XDeclaration _ _ e _ \<Rightarrow>
        if enc \<noteq> TIXML_ENCODING_UNKNOWN then Inr enc
        else if cstr e = [] then Inr TIXML_ENCODING_UTF8
        else bindr (StringEqual (cstr e) ''UTF-8'' True TIXML_ENCODING_UNKNOWN) (\<lambda>b.
             bindr (StringEqual (cstr e) ''UTF8'' True TIXML_ENCODING_UNKNOWN) (\<lambda>b'.
               Inr (if b \<or> b' then TIXML_ENCODING_UTF8 else TIXML_ENCODING_LEGACY)))
    | _ \<Rightarrow> Inr enc)"

fun doc_loop :: "nat \<Rightarrow> bool \<Rightarrow> encoding \<Rightarrow> xnode list \<Rightarrow> string option \<Rightarrow> xdoc
    \<Rightarrow> (xnode list \<times> string option \<times> encoding \<times> xdoc) res" where
  "doc_loop 0 condense enc children p d = Inl Out_of_fuel"
| "doc_loop (Suc n) condense enc children p d =
     (if p = None \<or> p = Some [] then Inr (children, p, enc, d)
      else bindr (Identify (the p) enc) (\<lambda>k. case k of
          None \<Rightarrow> Inr (children, p, enc, d)
        | Some k \<Rightarrow> bindr (Node_Parse (Element_Parse n condense enc) n condense enc k (the p) d) (\<lambda>(node, q, d).
            bindr (declared_encoding enc node) (\<lambda>enc.
              doc_loop n condense enc (children @ [node]) (SkipWhiteSpace q enc) d))))"

text \<open>
  The whole parse of a text, which adds to the children the document has; \<open>prev\<close> is the cursor of earlier parsing data. The nodes, the pointer
  returned and the document afterwards. The fuel is more than the recursion can use.
\<close>

definition Document_Parse ::
    "bool \<Rightarrow> xnode list \<Rightarrow> string option \<Rightarrow> cursor option \<Rightarrow> encoding \<Rightarrow> xdoc \<Rightarrow> xnode list parsed" where
  "Document_Parse condense children p prev enc d =
     (let d = ClearError d in
      case p of
        None \<Rightarrow> failed TIXML_ERROR_DOCUMENT_EMPTY None TIXML_ENCODING_UNKNOWN children d
      | Some [] \<Rightarrow> failed TIXML_ERROR_DOCUMENT_EMPTY None TIXML_ENCODING_UNKNOWN children d
      | Some q \<Rightarrow>
          let c = (case prev of None \<Rightarrow> \<lparr>row = 0, col = 0\<rparr> | Some c \<Rightarrow> c);
              marked = (enc = TIXML_ENCODING_UNKNOWN \<and> take 3 q = [CHR 0xEF, CHR 0xBB, CHR 0xBF]);
              enc = (if marked then TIXML_ENCODING_UTF8 else enc);
              d = d\<lparr>d_location := c, d_text := q, d_data := TiXmlParsingData 0 (d_tabsize d) (row c) (col c),
                    useMicrosoftBOM := (marked \<or> useMicrosoftBOM d)\<rparr>
          in case SkipWhiteSpace (Some q) enc of
               None \<Rightarrow> failed TIXML_ERROR_DOCUMENT_EMPTY None TIXML_ENCODING_UNKNOWN children d
             | Some s \<Rightarrow> bindr (doc_loop (length q + 3) condense enc children (Some s) d) (\<lambda>(children, p, enc, d).
                 if children = [] then failed TIXML_ERROR_DOCUMENT_EMPTY None enc [] d
                 else Inr (children, p, d)))"

definition new_document :: xdoc where
  "new_document = \<lparr>error = False, errorId = TIXML_NO_ERROR, errorDesc = '''', errorLocation = \<lparr>row = 0, col = 0\<rparr>,
     d_tabsize = 4, useMicrosoftBOM = False, d_location = no_cursor, d_text = '''',
     d_data = TiXmlParsingData 0 4 0 0\<rparr>"

section \<open>Parsing ends, and how\<close>

text \<open>
  The faults the parser can end in: the failed assertion for a text that ends too early, and in
  UTF-8 mode also the two that only incomplete sequences cause.
\<close>

definition parse_faults :: "encoding \<Rightarrow> fault set" where
  "parse_faults enc = (if enc = TIXML_ENCODING_UTF8 then {Assert_failed, Never_returns, Out_of_bounds}
     else {Assert_failed})"

lemma Assert_fault [simp]: "Assert_failed \<in> parse_faults enc"
  by (simp add: parse_faults_def)

definition left :: "string option \<Rightarrow> nat" where
  "left p = (case p of None \<Rightarrow> 0 | Some s \<Rightarrow> length s)"

lemma left_simps [simp]: "left None = 0" "left (Some s) = length s"
  by (simp_all add: left_def)

text \<open>An operation on a text of \<open>n\<close> characters hands back a pointer with at most \<open>m\<close> characters behind it.\<close>

definition within :: "nat \<Rightarrow> encoding \<Rightarrow> 'n parsed \<Rightarrow> bool" where
  "within m enc = yields (parse_faults enc) (\<lambda>(x, q, d). left q \<le> m)"

lemma SkipWhiteSpace_length: "SkipWhiteSpace p enc = Some q \<Longrightarrow> length q \<le> left p"
  using skip_utf8_length [of "the p"] length_dropWhile_le [of IsWhiteSpace "the p"]
  by (auto simp: SkipWhiteSpace_def simp del: dropWhile.simps split: option.splits list.splits if_splits)

lemma left_Skip: "left (SkipWhiteSpace p enc) \<le> left p"
  using SkipWhiteSpace_length by (cases "SkipWhiteSpace p enc") auto

lemma stamp_step_moves: "enc \<noteq> TIXML_ENCODING_UTF8 \<Longrightarrow> stamp_step enc t p r c = Some (k, r', c') \<Longrightarrow> 0 < k"
  by (auto simp: stamp_step_def split: list.splits if_splits)

lemma stamp_loop_returns: "enc \<noteq> TIXML_ENCODING_UTF8 \<Longrightarrow> stamp_loop enc t buf p now r c \<noteq> None"
proof (induction "now - p" arbitrary: p r c rule: less_induct)
  case less
  show ?case
  proof (cases "p < now")
    case True
    then show ?thesis
    proof (cases "stamp_step enc t (drop p buf) r c")
      case (Some s)
      then obtain k r' c' where s: "stamp_step enc t (drop p buf) r c = Some (k, r', c')" by (cases s) auto
      then have "0 < k" by (rule stamp_step_moves [OF less.prems])
      then show ?thesis using less True s by (subst stamp_loop.simps) simp
    qed (simp add: stamp_loop.simps)
  qed (simp add: stamp_loop.simps)
qed

lemma stamp_at_yields: "yields (parse_faults enc) (\<lambda>_. True) (stamp_at enc p d)"
proof (cases "enc = TIXML_ENCODING_UTF8")
  case False
  then have "Stamp enc buf now pd \<noteq> None" for buf now pd
    using stamp_loop_returns [OF False, of "tabsize pd" buf "stamp pd" now "row (cursor pd)" "col (cursor pd)"]
    by (auto simp: Stamp_def split: option.splits)
  then obtain pd where "Stamp enc (d_text d) (length (d_text d) - length p) (d_data d) = Some pd" by blast
  then show ?thesis by (simp add: stamp_at_def)
qed (auto simp: stamp_at_def parse_faults_def split: option.splits)

lemma SetError_yields: "yields (parse_faults enc) (\<lambda>_. True) (SetError err p enc d)"
  unfolding SetError_def Let_def
  by (auto split: option.splits intro!: yields_bindr [OF stamp_at_yields])

lemma failed_within: "within m enc (failed err p enc x d)"
  unfolding within_def failed_def by (rule yields_bindr [OF SetError_yields]) simp

lemma SetError_plain: "SetError err None enc d = SetError err None enc' d"
  by (simp add: SetError_def)

lemma StringEqual_yields: "yields (parse_faults enc) (\<lambda>b. b \<longrightarrow> length tag \<le> length p) (StringEqual p tag ci enc)"
proof -
  have "match_from eq p tag \<Longrightarrow> length tag \<le> length p" for eq
    by (induction eq p tag rule: match_from.induct) auto
  then show ?thesis by (auto simp: StringEqual_def)
qed

lemma ReadName_yields:
  "yields (parse_faults enc) (\<lambda>(name, q). (q \<noteq> None \<longrightarrow> left q < left p)) (ReadName p)"
  by (auto simp: ReadName_def name_start_def name_char_def IsAlpha_def IsAlphaNum_def c_isalnum_def
      intro: le_imp_less_Suc length_dropWhile_le split: option.splits list.splits if_splits)


lemma GetChar_yields:
  "p \<noteq> [] \<Longrightarrow> yields (parse_faults enc) (\<lambda>(cs, q). left q < length p) (GetChar p enc)"
proof -
  assume "p \<noteq> []"
  then have "\<exists>x. GetChar p enc = Inr x" if "enc \<noteq> TIXML_ENCODING_UTF8"
    using that by (cases p) (auto simp: GetChar_Cons char_length_def)
  moreover have "GetChar p enc = Inl f \<Longrightarrow> f = Out_of_bounds" for f
    using \<open>p \<noteq> []\<close> by (cases p) (auto simp: GetChar_Cons split: if_splits)
  moreover have "GetChar p enc = Inr (cs, q) \<Longrightarrow> left q < length p" for cs q
    using GetChar_shorter [of p enc cs] \<open>p \<noteq> []\<close> by (cases q) auto
  ultimately show ?thesis
    by (cases "GetChar p enc") (auto simp: parse_faults_def)
qed

text \<open>Where the loops of ReadText stop: at the end, or where the end tag matches; and not where they started unless it does there.\<close>

abbreviation stopped :: "string \<Rightarrow> string \<times> string option \<Rightarrow> bool" where
  "stopped tag x \<equiv> snd x = None \<or> snd x = Some [] \<or> length tag \<le> left (snd x)"

lemma keep_loop_Nil: "keep_loop None tag ci enc acc = Inr (acc, None)"
  "keep_loop (Some []) tag ci enc acc = Inr (acc, Some [])"
  by (simp_all add: keep_loop.simps)

lemma keep_loop_Cons:
  "keep_loop (Some (c # r)) tag ci enc acc = bindr (StringEqual (c # r) tag ci enc) (\<lambda>b.
     if b then Inr (acc, Some (c # r))
     else bindr (GetChar (c # r) enc) (\<lambda>(cs, q). keep_loop q tag ci enc (acc @ cs)))"
  by (subst keep_loop.simps) (auto simp: bindr_def split: sum.splits bool.splits)

lemma condense_loop_Nil: "condense_loop None tag ci enc acc ws = Inr (acc, None)"
  "condense_loop (Some []) tag ci enc acc ws = Inr (acc, Some [])"
  by (simp_all add: condense_loop.simps)

lemma condense_loop_Cons:
  "condense_loop (Some (c # r)) tag ci enc acc ws = bindr (StringEqual (c # r) tag ci enc) (\<lambda>b.
     if b then Inr (acc, Some (c # r))
     else if IsWhiteSpace c then condense_loop (Some r) tag ci enc acc True
     else bindr (GetChar (c # r) enc) (\<lambda>(cs, q).
            condense_loop q tag ci enc (acc @ (if ws then '' '' else []) @ cs) False))"
  by (subst condense_loop.simps) (auto simp: bindr_def IsWhiteSpace_def split: sum.splits bool.splits)

lemma option_cases: "p = None \<or> p = Some [] \<or> (\<exists>c r. p = Some (c # r))"
  by (metis list.exhaust not_Some_eq)

abbreviation moved :: "string option \<Rightarrow> string \<Rightarrow> bool \<Rightarrow> encoding \<Rightarrow> string \<times> string option \<Rightarrow> bool" where
  "moved p tag ci enc x \<equiv> left (snd x) \<le> left p \<and> stopped tag x
     \<and> (p = None \<or> p = Some [] \<or> StringEqual (the p) tag ci enc \<noteq> Inr False \<or> left (snd x) < left p)"

lemma keep_loop_yields: "yields (parse_faults enc) (moved p tag ci enc) (keep_loop p tag ci enc acc)"
proof (induction "left p" arbitrary: p acc rule: less_induct)
  case less
  consider "p = None \<or> p = Some []" | c r where "p = Some (c # r)" using option_cases [of p] by blast
  then show ?case
  proof cases
    case 2
    have IH: "left q < left p \<Longrightarrow> yields (parse_faults enc) (\<lambda>x. left (snd x) < left p \<and> stopped tag x)
        (keep_loop q tag ci enc acc)" for q acc
      by (rule yields_mono [OF less]) auto
    show ?thesis unfolding 2 keep_loop_Cons
    proof (rule yields_bindr [where P = "\<lambda>b. StringEqual (c # r) tag ci enc = Inr b \<and> (b \<longrightarrow> length tag \<le> length (c # r))"])
      show "yields (parse_faults enc) (\<lambda>b. StringEqual (c # r) tag ci enc = Inr b \<and> (b \<longrightarrow> length tag \<le> length (c # r)))
          (StringEqual (c # r) tag ci enc)"
        using StringEqual_yields [of enc tag "c # r" ci] by (cases "StringEqual (c # r) tag ci enc") auto
      fix b assume b: "StringEqual (c # r) tag ci enc = Inr b \<and> (b \<longrightarrow> length tag \<le> length (c # r))"
      have "yields (parse_faults enc) (moved p tag ci enc)
          (bindr (GetChar (c # r) enc) (\<lambda>(cs, q). keep_loop q tag ci enc (acc @ cs)))"
        by (rule yields_bindr [OF GetChar_yields]) (auto intro!: yields_mono [OF IH] simp: 2)
      then show "yields (parse_faults enc) (moved (Some (c # r)) tag ci enc) (if b then Inr (acc, Some (c # r))
          else bindr (GetChar (c # r) enc) (\<lambda>(cs, q). keep_loop q tag ci enc (acc @ cs)))"
        using b 2 by auto
    qed
  qed (auto simp: keep_loop_Nil)
qed

lemma condense_loop_yields: "yields (parse_faults enc) (moved p tag ci enc) (condense_loop p tag ci enc acc ws)"
proof (induction "left p" arbitrary: p acc ws rule: less_induct)
  case less
  consider "p = None \<or> p = Some []" | c r where "p = Some (c # r)" using option_cases [of p] by blast
  then show ?case
  proof cases
    case 2
    have IH: "left q < left p \<Longrightarrow> yields (parse_faults enc) (\<lambda>x. left (snd x) < left p \<and> stopped tag x)
        (condense_loop q tag ci enc acc ws)" for q acc ws
      by (rule yields_mono [OF less]) auto
    show ?thesis unfolding 2 condense_loop_Cons
    proof (rule yields_bindr [where P = "\<lambda>b. StringEqual (c # r) tag ci enc = Inr b \<and> (b \<longrightarrow> length tag \<le> length (c # r))"])
      show "yields (parse_faults enc) (\<lambda>b. StringEqual (c # r) tag ci enc = Inr b \<and> (b \<longrightarrow> length tag \<le> length (c # r)))
          (StringEqual (c # r) tag ci enc)"
        using StringEqual_yields [of enc tag "c # r" ci] by (cases "StringEqual (c # r) tag ci enc") auto
      fix b assume b: "StringEqual (c # r) tag ci enc = Inr b \<and> (b \<longrightarrow> length tag \<le> length (c # r))"
      have "yields (parse_faults enc) (moved p tag ci enc) (bindr (GetChar (c # r) enc) (\<lambda>(cs, q).
          condense_loop q tag ci enc (acc @ (if ws then '' '' else []) @ cs) False))"
        by (rule yields_bindr [OF GetChar_yields]) (auto intro!: yields_mono [OF IH] simp: 2)
      moreover have "yields (parse_faults enc) (moved p tag ci enc) (condense_loop (Some r) tag ci enc acc True)"
        by (rule yields_mono [OF IH]) (auto simp: 2)
      ultimately show "yields (parse_faults enc) (moved (Some (c # r)) tag ci enc) (if b then Inr (acc, Some (c # r))
          else if IsWhiteSpace c then condense_loop (Some r) tag ci enc acc True
          else bindr (GetChar (c # r) enc) (\<lambda>(cs, q).
            condense_loop q tag ci enc (acc @ (if ws then '' '' else []) @ cs) False))"
        using b 2 by auto
    qed
  qed (auto simp: condense_loop_Nil)
qed

lemma left_le: "left q \<le> m \<longleftrightarrow> (\<forall>s. q = Some s \<longrightarrow> length s \<le> m)"
  by (cases q) auto

lemma Skip_moves: "SkipWhiteSpace p enc = p \<or> left (SkipWhiteSpace p enc) < left p \<or> p = Some []"
proof -
  have d: "dropWhile P s = s \<or> length (dropWhile P s) < length s" for P and s :: string
    by (cases s) (auto intro: le_imp_less_Suc length_dropWhile_le)
  have u: "skip_utf8 s = s \<or> length (skip_utf8 s) < length s" for s
  proof (cases s)
    case (Cons c r)
    then show ?thesis
      using skip_utf8_length [of r] skip_utf8_length [of "drop 2 r"] by (auto simp: skip_utf8_Cons)
  qed simp
  show ?thesis
    using d [of IsWhiteSpace "the p"] u [of "the p"]
    by (auto simp: SkipWhiteSpace_def simp del: dropWhile.simps split: option.splits list.splits)
qed

lemma Skip_None [simp]: "SkipWhiteSpace None enc = None" "SkipWhiteSpace (Some []) enc = None"
  by (simp_all add: SkipWhiteSpace_def)

lemma Skip_Some:
  "s \<noteq> [] \<Longrightarrow> SkipWhiteSpace (Some s) enc =
    Some (if enc = TIXML_ENCODING_UTF8 then skip_utf8 s else dropWhile IsWhiteSpace s)"
  unfolding SkipWhiteSpace_def by (cases s) (simp, simp only: option.case list.case)

lemma Skip_head: "SkipWhiteSpace p enc = Some (c # r) \<Longrightarrow> \<not> IsWhiteSpace c"
proof -
  have d: "dropWhile IsWhiteSpace s = c # r \<Longrightarrow> \<not> IsWhiteSpace c" for s
    by (metis hd_dropWhile list.distinct(1) list.sel(1))
  have u: "skip_utf8 s = c # r \<Longrightarrow> \<not> IsWhiteSpace c" for s
  proof (induction s rule: length_induct)
    case (1 s)
    show ?case
    proof (cases s)
      case (Cons a t)
      have IH: "skip_utf8 (drop 2 t) = c # r \<Longrightarrow> \<not> IsWhiteSpace c" "skip_utf8 t = c # r \<Longrightarrow> \<not> IsWhiteSpace c"
        using 1(1) Cons by auto
      have "skip_utf8 (a # t) = c # r" using 1(2) Cons by simp
      then show ?thesis
        by (cases "bom (a # t)"; cases "IsWhiteSpace a") (auto simp: skip_utf8_Cons dest: IH)
    qed (use 1 in simp)
  qed
  assume s: "SkipWhiteSpace p enc = Some (c # r)"
  then obtain s where "p = Some s" "s \<noteq> []" by (cases p; cases "the p") auto
  then have "(if enc = TIXML_ENCODING_UTF8 then skip_utf8 s else dropWhile IsWhiteSpace s) = c # r"
    using s Skip_Some [of s enc] by (simp only: option.inject simp_thms)
  then show ?thesis
    by (cases "enc = TIXML_ENCODING_UTF8") (simp_all only: if_True if_False simp_thms d u)
qed

lemma left_map [simp]: "left (map_option ((#) c) q) = (if q = None then 0 else Suc (left q))"
  by (cases q) auto

lemma ReadText_yields:
  assumes "tag \<noteq> []"
  shows "yields (parse_faults enc) (\<lambda>(t, q). q = None \<or> left q + length tag \<le> left p
      \<and> (trim \<longrightarrow> p = None \<or> p = Some [] \<or> StringEqual (the p) tag ci enc \<noteq> Inr False \<or> left q + length tag < left p))
    (ReadText condense p trim tag ci enc)"
  unfolding ReadText_def
proof (rule yields_bindr)
  let ?P = "\<lambda>x. left (snd x) \<le> left p \<and> stopped tag x
    \<and> (p = None \<or> p = Some [] \<or> StringEqual (the p) tag ci enc \<noteq> Inr False \<or> left (snd x) < left p)"
  have k: "yields (parse_faults enc) ?P (keep_loop p tag ci enc [])" by (rule keep_loop_yields)
  have c: "yields (parse_faults enc) ?P (condense_loop (SkipWhiteSpace p enc) tag ci enc [] False)"
  proof (cases "SkipWhiteSpace p enc = p")
    case True
    then show ?thesis using condense_loop_yields [of enc p tag ci "[]" False] by simp
  next
    case False
    then have "left (SkipWhiteSpace p enc) < left p \<or> p = Some []" using Skip_moves [of p enc] by blast
    then show ?thesis
      using left_Skip [of p enc]
      by (intro yields_mono [OF condense_loop_yields [of enc "SkipWhiteSpace p enc" tag ci "[]" False]]) auto
  qed
  show "yields (parse_faults enc) ?P (if \<not> trim \<or> \<not> condense then keep_loop p tag ci enc []
      else condense_loop (SkipWhiteSpace p enc) tag ci enc [] False)"
    using k c by simp
qed (use assms in \<open>auto split: option.splits list.splits\<close>)


lemma within_bindr:
  "yields (parse_faults enc) P m \<Longrightarrow> (\<And>a. P a \<Longrightarrow> within k enc (f a)) \<Longrightarrow> within k enc (bindr m f)"
  unfolding within_def by (rule yields_bindr)

lemma within_Inr [simp]: "within m enc (Inr (x, q, d)) \<longleftrightarrow> left q \<le> m"
  by (simp add: within_def)

lemma within_Assert [simp]: "within m enc (Inl Assert_failed)"
  by (simp add: within_def)

lemma within_mono: "within m enc r \<Longrightarrow> m \<le> k \<Longrightarrow> within k enc r"
  by (auto simp: within_def elim!: yields_mono)

lemmas [simp] = failed_within

lemma within_stamp: "(\<And>loc d. within k enc (f (loc, d))) \<Longrightarrow> within k enc (bindr (stamp_at enc p d) f)"
  by (rule within_bindr [OF stamp_at_yields]) auto

lemma within_StringEqual:
  "(\<And>b. (b \<Longrightarrow> length tag \<le> length p) \<Longrightarrow> within k enc (f b)) \<Longrightarrow> within k enc (bindr (StringEqual p tag ci enc) f)"
  by (rule within_bindr [OF StringEqual_yields]) blast

lemma raw_until_length: "length (snd (raw_until tag p)) \<le> length p"
  by (induction p) (auto split: prod.splits)

lemma Unknown_within: "within (left p - 1) enc (Unknown_Parse enc p d)"
proof -
  have h: "length q \<le> left p" if "SkipWhiteSpace p enc = Some q" for q
    by (rule SkipWhiteSpace_length [OF that])
  have "dropWhile P r = g # t \<Longrightarrow> length t < length r" for P :: "char \<Rightarrow> bool" and r g t
    using length_dropWhile_le [of P r] by simp
  then show ?thesis
    unfolding Unknown_Parse_def
    by (auto simp: Let_def intro!: within_stamp dest!: h split: option.splits list.splits) fastforce
qed

lemma Comment_within: "within (left p - 1) enc (Comment_Parse enc p d)"
proof -
  have h: "length q \<le> left p" if "SkipWhiteSpace p enc = Some q" for q
    by (rule SkipWhiteSpace_length [OF that])
  have r: "length t \<le> length q - 4" if "raw_until tag (drop 4 q) = (v, t)" for tag q v t
    using raw_until_length [of tag "drop 4 q"] that by simp
  show ?thesis
    unfolding Comment_Parse_def
    by (auto intro!: within_stamp within_StringEqual dest!: h r split: option.splits prod.splits)
qed

lemma Text_within:
  assumes "cdata \<or> StringEqual p ''<'' False enc = Inr False"
  shows "within (length p - 1) enc (Text_Parse condense enc cdata p d)"
proof -
  have r: "length t \<le> length p - 9" if "raw_until tag (drop 9 p) = (v, t)" for tag v t
    using raw_until_length [of tag "drop 9 p"] that by simp
  have cd: "within (length p - 1) enc (case raw_until tag (drop 9 p) of (v, q) \<Rightarrow>
      bindr (ReadText condense (Some q) False tag False enc) (\<lambda>(dummy, q). Inr (XText loc v True, q, d)))"
    if "tag \<noteq> []" "9 \<le> length p" for tag loc d
    using that by (auto split: prod.splits dest!: r intro!: within_bindr [OF ReadText_yields [OF that(1)]])
  have tx: "within (length p - 1) enc (bindr (ReadText condense (Some p) True ''<'' False enc)
      (\<lambda>(v, q). Inr (XText loc v False, map_option (\<lambda>q. CHR ''<'' # q) q, d)))"
    if "StringEqual p ''<'' False enc = Inr False" for loc d
    using that by (intro within_bindr [OF ReadText_yields]) (auto simp: StringEqual_def split: if_splits)
  show ?thesis
    unfolding Text_Parse_def
    using assms cd tx by (auto intro!: within_stamp within_StringEqual)
qed


lemma attr_failed_within [simp]: "within m enc (attr_failed document err p enc a d)"
  by (simp add: attr_failed_def)

lemma Attribute_value_within: "within (length p) enc (Attribute_value condense document enc p a d)"
proof -
  have "within (length (c # r)) enc (Attribute_value condense document enc (c # r) a d)" for c r
    using length_dropWhile_le [of unquoted_char "c # r"] unfolding Attribute_value_def
    by (auto simp: Let_def simp del: dropWhile.simps intro!: within_bindr [OF ReadText_yields])
  then show ?thesis by (cases p) (simp_all add: Attribute_value_def)
qed

lemma Attribute_within: "within (left p - 1) enc (Attribute_Parse condense document enc p d)"
proof (cases "SkipWhiteSpace p enc")
  case (Some q)
  have q: "length q \<le> left p" by (rule SkipWhiteSpace_length [OF Some])
  show ?thesis
  proof (cases q)
    case (Cons c r)
    have v: "within (left p - 1) enc (Attribute_value condense document enc v a d)"
      if "SkipWhiteSpace (Some r') enc = Some v" "SkipWhiteSpace p' enc = Some (e # r')" "left p' < length q"
      for v a d e r' p'
    proof (rule within_mono [OF Attribute_value_within])
      have "length v \<le> length r'" using SkipWhiteSpace_length [OF that(1)] by simp
      moreover have "length (e # r') \<le> left p'" by (rule SkipWhiteSpace_length [OF that(2)])
      ultimately show "length v \<le> left p - 1" using that(3) q by simp
    qed
    have rest: "within (left p - 1) enc (case SkipWhiteSpace p' enc of
        Some (e # r') \<Rightarrow>
          if e \<noteq> CHR ''='' then attr_failed document TIXML_ERROR_READING_ATTRIBUTES (Some (e # r')) enc a d
          else (case SkipWhiteSpace (Some r') enc of
              None \<Rightarrow> attr_failed document TIXML_ERROR_READING_ATTRIBUTES None enc a d
            | Some v \<Rightarrow> Attribute_value condense document enc v a d)
      | none \<Rightarrow> attr_failed document TIXML_ERROR_READING_ATTRIBUTES none enc a d)"
      if "left p' < length q" for p' a d
      using v [OF _ _ that] by (simp split: option.split list.split)
    show ?thesis
      unfolding Attribute_Parse_def Some Cons Let_def option.case list.case
      by (rule within_stamp, simp only: prod.case, rule within_bindr [OF ReadName_yields])
        (use rest Cons in \<open>auto simp: Let_def simp del: not_None_eq split: if_split_asm\<close>)
  qed (use Some in \<open>simp add: Attribute_Parse_def\<close>)
qed (simp add: Attribute_Parse_def)

lemma decl_loop_within: "left p < n \<Longrightarrow> within (left p) enc (decl_loop n condense enc loc ver en sta p d)"
proof (induction n arbitrary: p ver en sta d)
  case (Suc n)
  show ?case
  proof (cases "p = None \<or> p = Some [] \<or> hd (the p) = CHR ''>''")
    case True
    then show ?thesis by (cases p) auto
  next
    case False
    then obtain c r where p: "p = Some (c # r)" "c \<noteq> CHR ''>''" by (metis list.exhaust list.sel(1) option.exhaust option.sel)
    show ?thesis
    proof (cases "SkipWhiteSpace p enc")
      case (Some q)
      have q: "length q \<le> left p" by (rule SkipWhiteSpace_length [OF Some])
      have word: "left (Some (dropWhile (\<lambda>c. c \<noteq> CHR ''>'' \<and> \<not> IsWhiteSpace c) q)) < left p"
      proof (cases q)
        case (Cons a t)
        show ?thesis
        proof (cases "a = CHR ''>''")
          case True
          then have "SkipWhiteSpace p enc \<noteq> p" using p Some Cons by auto
          then have "length q < left p" using Skip_moves [of p enc] p Some by auto
          then show ?thesis using True Cons by simp
        next
          case False
          have "\<not> IsWhiteSpace a" using Some Cons by (simp add: Skip_head)
          then have "length (dropWhile (\<lambda>c. c \<noteq> CHR ''>'' \<and> \<not> IsWhiteSpace c) q) \<le> length t"
            using False Cons length_dropWhile_le by simp
          then show ?thesis using q Cons by simp
        qed
      qed (use p in simp)
      have IH: "within (left p) enc (decl_loop n condense enc loc ver en sta p' d)" if "left p' < left p" for p' ver en sta d
        by (rule within_mono [OF Suc.IH]) (use that Suc.prems in simp_all)
      have at: "within (left p) enc (bindr (Attribute_Parse condense False enc (Some q) d)
          (\<lambda>(a, p, d). decl_loop n condense enc loc (f a) (g a) (h a) p d))" for f g h d
        by (rule within_bindr [OF Attribute_within [unfolded within_def]]) (use IH q p in auto)
      show ?thesis
        using p at [where f = "\<lambda>a. cstr (avalue a)" and g = "\<lambda>_. en" and h = "\<lambda>_. sta"]
          at [where f = "\<lambda>_. ver" and g = "\<lambda>a. cstr (avalue a)" and h = "\<lambda>_. sta"]
          at [where f = "\<lambda>_. ver" and g = "\<lambda>_. en" and h = "\<lambda>a. cstr (avalue a)"] IH [OF word]
        by (auto simp: Some [unfolded p(1)] intro!: within_StringEqual)
    qed (use p in simp)
  qed
qed simp

lemma Declaration_within: "left p \<le> n + 4 \<Longrightarrow> within (left p - 1) enc (Declaration_Parse n condense enc p d)"
proof (cases "SkipWhiteSpace p enc")
  case (Some q)
  assume n: "left p \<le> n + 4"
  have q: "length q \<le> left p" by (rule SkipWhiteSpace_length [OF Some])
  have "within (left p - 1) enc (decl_loop n condense enc loc '''' '''' '''' (Some (drop 5 q)) d)"
    if "5 \<le> length q" for loc d
    by (rule within_mono [OF decl_loop_within]) (use that q n in auto)
  then show ?thesis
    using Some by (cases q) (auto simp: Declaration_Parse_def Let_def intro!: within_stamp within_StringEqual)
qed (simp add: Declaration_Parse_def Let_def)

lemma Identify_yields:
  "yields (parse_faults enc) (\<lambda>k. k \<noteq> None \<longrightarrow> p \<noteq> []) (Identify p enc)"
proof (cases "SkipWhiteSpace (Some p) enc")
  case (Some q)
  then have "p \<noteq> []" by auto
  have "yields (parse_faults enc) (\<lambda>b. True) (StringEqual s tag ci enc)" for s tag ci
    by (rule yields_mono [OF StringEqual_yields]) auto
  then show ?thesis using Some \<open>p \<noteq> []\<close>
    by (auto simp: Identify_def intro!: yields_bindr split: list.splits)
qed (simp add: Identify_def)

lemma Node_within:
  assumes "within (length p - 1) enc (element (Some p) d)" "length p \<le> n + 4"
  shows "within (length p - 1) enc (Node_Parse element n condense enc k p d)"
  using assms Declaration_within [of "Some p" n] Comment_within [of "Some p"] Unknown_within [of "Some p"]
    Text_within [of True p]
  by (cases k) (simp_all add: Node_Parse_def)

lemma end_tag_within: "within (left q) enc (end_tag enc name e q d)"
proof -
  have "within (length s) enc (case SkipWhiteSpace (Some (drop k s)) enc of
      None \<Rightarrow> failed err None enc e d | Some [] \<Rightarrow> failed err (Some []) enc e d
    | Some (g # t) \<Rightarrow> if g = CHR ''>'' then Inr (e, Some t, d) else failed err (Some (g # t)) enc e d)" for s k err
    using SkipWhiteSpace_length [of "Some (drop k s)" enc] by (force split: option.splits list.splits)
  then show ?thesis
    by (cases q) (auto simp: end_tag_def intro!: within_StringEqual)
qed

lemma element_step_within:
  assumes "\<And>loc name s d. Suc (length s) < left p \<Longrightarrow> within (length s) enc (attributes loc name [] s d)"
  shows "within (left p - 1) enc (element_step attributes enc p d)"
proof (cases "SkipWhiteSpace p enc")
  case (Some q)
  have q: "length q \<le> left p" by (rule SkipWhiteSpace_length [OF Some])
  show ?thesis
  proof (cases q)
    case (Cons c r)
    have l: "left (SkipWhiteSpace (Some r) enc) \<le> length r" using left_Skip [of "Some r" enc] by simp
    have "within (left p - 1) enc (bindr (ReadName (SkipWhiteSpace (Some r) enc)) (\<lambda>(name, p).
        if p = None \<or> p = Some [] then failed TIXML_ERROR_FAILED_TO_READ_ELEMENT_NAME (SkipWhiteSpace (Some r) enc) enc (XElement loc name [] []) d
        else attributes loc name [] (the p) d))" for loc d
    proof (rule within_bindr [OF ReadName_yields])
      fix x :: "string \<times> string option"
      assume x: "case x of (name, q) \<Rightarrow> q \<noteq> None \<longrightarrow> left q < left (SkipWhiteSpace (Some r) enc)"
      obtain name s where xs: "x = (name, s)" by (cases x)
      show "within (left p - 1) enc (case x of (name, p) \<Rightarrow>
          if p = None \<or> p = Some [] then failed TIXML_ERROR_FAILED_TO_READ_ELEMENT_NAME (SkipWhiteSpace (Some r) enc) enc (XElement loc name [] []) d
          else attributes loc name [] (the p) d)"
      proof (cases s)
        case (Some t)
        have "Suc (length t) < left p" using x xs Some l q Cons by simp
        then show ?thesis using within_mono [OF assms] xs Some by auto
      qed (simp add: xs)
    qed
    then show ?thesis using Some Cons by (auto simp: element_step_def Let_def intro!: within_stamp)
  qed (use Some in \<open>simp add: element_step_def\<close>)
qed (simp add: element_step_def)

lemma attr_step_within:
  assumes a: "\<And>as s d. length s < length p \<Longrightarrow> within (length s) enc (attributes as s d)"
    and v: "\<And>s d. length s < length p \<Longrightarrow> within (length s) enc (read_value (Some s) d)"
  shows "within (length p) enc (attr_step attributes read_value condense enc loc name attrs p d)"
proof (cases "SkipWhiteSpace (Some p) enc")
  case (Some q)
  have q: "length q \<le> length p" using SkipWhiteSpace_length [OF Some] by simp
  show ?thesis
  proof (cases q)
    case (Cons c r)
    have go: "length t < length p \<Longrightarrow> within (length p) enc (attributes as t d)" for as t d
      by (rule within_mono [OF a]) simp_all
    have "within (length p) enc (bindr (read_value (Some r) d) (\<lambda>(children, q, d).
        end_tag enc name (XElement loc name attrs children) q d))"
      by (rule within_bindr [OF v [unfolded within_def]])
        (use q Cons in \<open>auto intro: within_mono [OF end_tag_within]\<close>)
    moreover have "within (length p) enc (bindr (Attribute_Parse condense True enc (Some (c # r)) d) (\<lambda>(a, q, d).
        if q = None \<or> q = Some [] \<or> aname a \<in> aname ` set attrs then failed err p' enc e d
        else attributes (attrs @ [a]) (the q) d))" for e err p'
      by (rule within_bindr [OF Attribute_within [unfolded within_def]])
        (use q Cons go in auto)
    ultimately show ?thesis using Some Cons q by (auto simp: attr_step_def Let_def)
  qed (use Some in \<open>simp add: attr_step_def Let_def\<close>)
qed (simp add: attr_step_def Let_def)

lemma value_step_within:
  assumes e: "\<And>s d. s \<noteq> [] \<Longrightarrow> length s \<le> left p \<Longrightarrow> within (length s - 1) enc (element (Some s) d)"
    and v: "\<And>cs q d. left q < left p \<Longrightarrow> within (left q) enc (read_value cs q d)" and n: "left p \<le> n + 4"
  shows "within (left p) enc (value_step element read_value n condense enc children p d)"
proof (cases "SkipWhiteSpace p enc")
  case (Some q)
  have q: "length q \<le> left p" by (rule SkipWhiteSpace_length [OF Some])
  then obtain w where w: "p = Some w" "w \<noteq> []" using Some by (cases p; cases "the p") auto
  show ?thesis
  proof (cases q)
    case (Cons c r)
    have go: "within (left p) enc (bindr m (\<lambda>(x, q, d). read_value (f x) q d))"
      if "within (k - 1) enc m" "0 < k" "k \<le> left p" for m k f
      by (rule within_bindr [OF that(1) [unfolded within_def]])
        (use that in \<open>auto intro!: within_mono [OF v]\<close>)
    have words: "within (left p) enc (bindr (Text_Parse condense enc False (if condense then c # r else w) d)
        (\<lambda>(t, q, d). read_value (if Blank t then children else children @ [t]) q d))" if "c \<noteq> CHR ''<''"
    proof -
      let ?s = "if condense then c # r else w"
      have "hd w \<noteq> CHR ''<''"
      proof
        assume "hd w = CHR ''<''"
        then have "SkipWhiteSpace p enc = p"
          using w by (cases w) (auto simp: Skip_Some skip_utf8_Cons bom_def IsWhiteSpace_def c_isspace_def uchar_def)
        then show False using \<open>hd w = CHR ''<''\<close> w Some Cons that by simp
      qed
      then have "StringEqual ?s ''<'' False enc = Inr False" using that w by (cases w) (auto simp: StringEqual_def)
      then show ?thesis using q Cons w by (intro go [OF Text_within]) auto
    qed
    have node: "within (left p) enc (bindr (Node_Parse element n condense enc k (c # r) d)
        (\<lambda>(node, q, d). read_value (children @ [node]) q d))" for k
      by (rule go [OF Node_within]) (use e [of "c # r"] q Cons n in auto)
    show ?thesis using Some Cons w q words node
      by (auto simp: value_step_def intro!: within_StringEqual within_bindr [OF Identify_yields] split: option.splits)
  qed (use Some in \<open>simp add: value_step_def\<close>)
qed (auto simp: value_step_def intro!: within_bindr [OF SetError_yields])

text \<open>The fuel one deeper level of the recursion needs is less than the text that is left.\<close>

lemma element_within:
  "(left p < n \<longrightarrow> within (left p - 1) enc (Element_Parse n condense enc p d))
   \<and> (length s + 1 < n \<longrightarrow> within (length s) enc (attr_loop n condense enc loc name attrs s d))
   \<and> (left p + 1 < n \<longrightarrow> within (left p) enc (ReadValue n condense enc children p d))"
proof (induction n arbitrary: p s d loc name attrs children)
  case (Suc n)
  then have IH: "left p < n \<Longrightarrow> within (left p - 1) enc (Element_Parse n condense enc p d)"
    "length s + 1 < n \<Longrightarrow> within (length s) enc (attr_loop n condense enc loc name attrs s d)"
    "left p + 1 < n \<Longrightarrow> within (left p) enc (ReadValue n condense enc children p d)"
    for p s d loc name attrs children by blast+
  have "left p < Suc n \<longrightarrow> within (left p - 1) enc (Element_Parse (Suc n) condense enc p d)"
    unfolding Element_Parse.simps by (intro impI element_step_within IH(2)) simp
  moreover have "length s + 1 < Suc n \<longrightarrow> within (length s) enc (attr_loop (Suc n) condense enc loc name attrs s d)"
  proof -
    have "length t < length s \<Longrightarrow> length s < n \<Longrightarrow> within (length t) enc (ReadValue n condense enc [] (Some t) d)" for t d
      using IH(3) [of "Some t"] by simp
    then show ?thesis by (auto intro!: attr_step_within IH(2))
  qed
  moreover have "left p + 1 < Suc n \<longrightarrow> within (left p) enc (ReadValue (Suc n) condense enc children p d)"
  proof -
    have "length t \<le> left p \<Longrightarrow> left p < n \<Longrightarrow> within (length t - 1) enc (Element_Parse n condense enc (Some t) d)" for t d
      using IH(1) [of "Some t"] by simp
    then show ?thesis by (auto intro!: value_step_within IH(3))
  qed
  ultimately show ?case by blast
qed simp

definition document_faults :: "encoding \<Rightarrow> fault set" where
  "document_faults enc = (if enc = TIXML_ENCODING_LEGACY then {Assert_failed}
     else {Assert_failed, Never_returns, Out_of_bounds})"

lemma parse_document_faults: "parse_faults enc \<subseteq> document_faults enc"
  by (auto simp: parse_faults_def document_faults_def)

lemma declared_encoding_yields:
  "\<exists>e. declared_encoding enc node = Inr e \<and> document_faults e \<subseteq> document_faults enc"
  by (auto simp: declared_encoding_def document_faults_def StringEqual_def split: xnode.splits)

lemma doc_loop_yields:
  "left p + 1 < n \<Longrightarrow> yields (document_faults enc) (\<lambda>(cs, q, e, d). left q \<le> left p \<and> prefix children cs)
     (doc_loop n condense enc children p d)"
proof (induction n arbitrary: p enc children d)
  case (Suc n)
  show ?case
  proof (cases "p = None \<or> p = Some []")
    case False
    then obtain s where p: "p = Some s" "s \<noteq> []" by auto
    have node: "yields (document_faults enc) (\<lambda>(x, q, d). left q \<le> length s - 1)
        (Node_Parse (Element_Parse n condense enc) n condense enc k s d)" for k
    proof (rule yields_mono [OF _ parse_document_faults])
      have "within (length s - 1) enc (Node_Parse (Element_Parse n condense enc) n condense enc k s d)"
        by (rule Node_within) (use element_within [of "Some s" n] Suc.prems p in auto)
      then show "yields (parse_faults enc) (\<lambda>(x, q, d). left q \<le> length s - 1)
          (Node_Parse (Element_Parse n condense enc) n condense enc k s d)" by (simp add: within_def)
    qed simp
    have go_on: "yields (document_faults enc) (\<lambda>(cs, q, e, d). left q \<le> left p \<and> prefix children cs)
        (bindr (declared_encoding enc x) (\<lambda>enc. doc_loop n condense enc (children @ [x]) (SkipWhiteSpace q enc) d))"
      if "left q \<le> length s - 1" for x q d
    proof -
      obtain e where e: "declared_encoding enc x = Inr e" "document_faults e \<subseteq> document_faults enc"
        using declared_encoding_yields by blast
      have l: "left (SkipWhiteSpace q e) < left p"
        using left_Skip [of q e] that p by (cases s) auto
      then have "yields (document_faults e) (\<lambda>(cs, q', e', d). left q' \<le> left (SkipWhiteSpace q e) \<and> prefix (children @ [x]) cs)
          (doc_loop n condense e (children @ [x]) (SkipWhiteSpace q e) d)"
        using Suc.prems by (intro Suc.IH) simp
      then show ?thesis
        unfolding e(1) bindr_Inr
        by (rule yields_mono [OF _ e(2)]) (use l in \<open>auto dest: append_prefixD\<close>)
    qed
    have id: "yields (document_faults enc) (\<lambda>_. True) (Identify s enc)"
      by (rule yields_mono [OF Identify_yields parse_document_faults]) simp
    have step: "yields (document_faults enc) (\<lambda>(cs, q, e, d). left q \<le> left p \<and> prefix children cs)
        (case k of None \<Rightarrow> Inr (children, Some s, enc, d)
         | Some k \<Rightarrow> bindr (Node_Parse (Element_Parse n condense enc) n condense enc k s d) (\<lambda>(node, q, d).
            bindr (declared_encoding enc node) (\<lambda>enc.
              doc_loop n condense enc (children @ [node]) (SkipWhiteSpace q enc) d)))" for k
    proof (cases k)
      case (Some k')
      show ?thesis unfolding Some option.case
        by (rule yields_bindr [OF node]) (use go_on in auto)
    qed (use p in simp)
    have "doc_loop (Suc n) condense enc children p d = bindr (Identify s enc) (\<lambda>k. case k of
        None \<Rightarrow> Inr (children, Some s, enc, d)
      | Some k \<Rightarrow> bindr (Node_Parse (Element_Parse n condense enc) n condense enc k s d) (\<lambda>(node, q, d).
          bindr (declared_encoding enc node) (\<lambda>enc.
            doc_loop n condense enc (children @ [node]) (SkipWhiteSpace q enc) d)))"
      using p by simp
    then show ?thesis using yields_bindr [OF id step] by (simp only:)
  qed auto
qed simp

text \<open>C9:
  Parsing a document always comes to an end within the fuel, and the nodes read come behind the
  children the document had. Apart from a result there is only the failed assertion of a text
  that stops too early, and in a document that is not declared to be in a legacy encoding the two
  faults of an incomplete UTF-8 sequence.\<close>

theorem document_parse_outcome:
  "case Document_Parse condense children p prev enc d of
     Inl f \<Rightarrow> f \<in> (if enc = TIXML_ENCODING_LEGACY then {Assert_failed} else {Assert_failed, Never_returns, Out_of_bounds})
   | Inr (nodes, q, d') \<Rightarrow> prefix children nodes \<and> left q \<le> left p"
proof -
  have f: "yields (document_faults enc) (\<lambda>(nodes, q, d'). prefix children nodes \<and> left q \<le> left p)
      (failed err None e children d)" for err e d
    by (simp add: failed_def SetError_def Let_def)
  have "yields (document_faults enc) (\<lambda>(nodes, q, d'). prefix children nodes \<and> left q \<le> left p)
      (Document_Parse condense children p prev enc d)"
  proof (cases "p = None \<or> p = Some []")
    case False
    then obtain c r where p: "p = Some (c # r)" using option_cases [of p] by blast
    have loop: "yields (document_faults enc) (\<lambda>(nodes, q, d'). prefix children nodes \<and> left q \<le> left p)
        (bindr (doc_loop (length (c # r) + 3) condense e children (Some s) d) (\<lambda>(cs, q, e, d).
           if cs = [] then failed TIXML_ERROR_DOCUMENT_EMPTY None e [] d else Inr (cs, q, d)))"
      if "SkipWhiteSpace (Some (c # r)) e = Some s" "document_faults e \<subseteq> document_faults enc" for e s d
    proof -
      have s: "length s \<le> length (c # r)" using SkipWhiteSpace_length [OF that(1)] by simp
      then have "yields (document_faults enc) (\<lambda>(cs, q, e, d). left q \<le> length s \<and> prefix children cs)
          (doc_loop (length (c # r) + 3) condense e children (Some s) d)"
        by (intro yields_mono [OF doc_loop_yields that(2)]) auto
      then show ?thesis
        by (rule yields_bindr) (use f s p in auto)
    qed
    have sub0: "document_faults (if m then TIXML_ENCODING_UTF8 else enc) \<subseteq> document_faults enc"
      if "m \<longrightarrow> enc = TIXML_ENCODING_UNKNOWN" for m
      using that by (auto simp: document_faults_def)
    have sub: "document_faults (if m then TIXML_ENCODING_UTF8 else enc) \<subseteq> document_faults enc"
      if "m = (enc = TIXML_ENCODING_UNKNOWN \<and> t)" for m t
      by (rule sub0) (simp add: that)
    have body: "yields (document_faults enc) (\<lambda>(nodes, q, d'). prefix children nodes \<and> left q \<le> left p)
        (case SkipWhiteSpace (Some (c # r)) e of
           None \<Rightarrow> failed TIXML_ERROR_DOCUMENT_EMPTY None TIXML_ENCODING_UNKNOWN children d
         | Some s \<Rightarrow> bindr (doc_loop (length (c # r) + 3) condense e children (Some s) d) (\<lambda>(cs, q, e, d).
             if cs = [] then failed TIXML_ERROR_DOCUMENT_EMPTY None e [] d else Inr (cs, q, d)))"
      if "document_faults e \<subseteq> document_faults enc" for e d
    proof (cases "SkipWhiteSpace (Some (c # r)) e")
      case (Some s)
      then show ?thesis using loop [OF Some that] by (simp only: option.case)
    qed (use f in \<open>simp only: option.case\<close>)
    show ?thesis
      unfolding Document_Parse_def p Let_def option.case list.case
      by (rule body [unfolded p], rule sub, rule refl)
  qed (use f in \<open>auto simp: Document_Parse_def Let_def\<close>)
  then show ?thesis by (simp only: yields_def document_faults_def)
qed

section \<open>Where parsing goes wrong\<close>

lemma stamp_loop_stuck:
  assumes "p < now" "stamp_step enc t (drop p buf) rw cl = Some (0, rw, cl)"
  shows "stamp_loop enc t buf p now rw cl = None"
proof (rule ccontr)
  assume "stamp_loop enc t buf p now rw cl \<noteq> None"
  then obtain y where "stamp_loop enc t buf p now rw cl = Some y" by blast
  then have "\<not> (p < now \<and> stamp_step enc t (drop p buf) rw cl = Some (0, rw, cl))"
  proof (rule stamp_loop.raw_induct [rotated])
    fix f enc t buf p now rw cl y
    assume IH: "\<And>enc t buf p now rw cl y. f enc t buf p now rw cl = Some y \<Longrightarrow>
        \<not> (p < now \<and> stamp_step enc t (drop p buf) rw cl = Some (0, rw, cl))"
      and r: "(if p < now
        then (case stamp_step enc t (drop p buf) rw cl of None \<Rightarrow> Some None
              | Some (k, rw', cl') \<Rightarrow> f enc t buf (p + k) now rw' cl')
        else Some (Some (p, rw, cl))) = Some y"
    show "\<not> (p < now \<and> stamp_step enc t (drop p buf) rw cl = Some (0, rw, cl))"
    proof
      assume s: "p < now \<and> stamp_step enc t (drop p buf) rw cl = Some (0, rw, cl)"
      then have "f enc t buf p now rw cl = Some y" using r by simp
      then show False using IH s by blast
    qed
  qed
  then show False using assms by blast
qed

declare stamp_loop.simps [code]


lemma stamp_loop_plain:
  assumes "drop p buf = xs @ w" "list_all (\<lambda>c. 32 \<le> uchar c \<and> uchar c < 128) xs" "p + length xs \<le> now"
  shows "stamp_loop enc t buf p now rw cl = stamp_loop enc t buf (p + length xs) now rw (cl + int (length xs))"
  using assms
proof (induction xs arbitrary: p cl)
  case (Cons c xs)
  have d: "drop (p + 1) buf = xs @ w" using Cons.prems(1) by (metis add.commute drop_drop drop_Suc_Cons drop0 append_Cons One_nat_def)
  have "c \<notin> {CHR 0x0D, CHR 0x0A, CHR 0x09, CHR 0xEF}" "utf8ByteTable c = 1"
    using Cons.prems(2) by (auto simp: uchar_def utf8ByteTable_def)
  then have "stamp_step enc t (drop p buf) rw cl = Some (1, rw, cl + 1)"
    using Cons.prems(1) by (simp add: stamp_step_def)
  then have "stamp_loop enc t buf p now rw cl = stamp_loop enc t buf (p + 1) now rw (cl + 1)"
    using Cons.prems(3) by (subst stamp_loop.simps) simp
  also have "\<dots> = stamp_loop enc t buf (p + 1 + length xs) now rw (cl + 1 + int (length xs))"
    using Cons.prems by (intro Cons.IH [OF d]) auto
  finally show ?case by (simp add: ac_simps)
qed simp

lemma alpha_plain: "c_isalpha (uchar c) \<Longrightarrow> 32 \<le> uchar c \<and> uchar c < 128"
  by (auto simp: c_isalpha_def)

lemma alpha_char:
  "c_isalpha (uchar c) \<Longrightarrow> name_start c \<and> name_char c \<and> \<not> IsWhiteSpace c \<and> c \<notin> {CHR ''?'', CHR ''!'', CHR ''<'', CHR 0xEF}"
  by (auto simp: c_isalpha_def name_start_def name_char_def IsAlpha_def IsAlphaNum_def c_isalnum_def
      IsWhiteSpace_def c_isspace_def) (auto simp: uchar_def)

lemma Skip_stay: "s \<noteq> [] \<Longrightarrow> \<not> bom s \<Longrightarrow> \<not> IsWhiteSpace (hd s) \<Longrightarrow> SkipWhiteSpace (Some s) enc = Some s"
  by (cases s) (simp_all add: Skip_Some skip_utf8_Cons)

lemma ReadName_hd: "s \<noteq> [] \<Longrightarrow> name_start (hd s) \<Longrightarrow>
    ReadName (Some s) = Inr (takeWhile name_char s, Some (dropWhile name_char s))"
  unfolding ReadName_def by (cases s) (simp, simp only: option.case list.case list.sel if_True)

text \<open>C35:
  A UTF-8 document that is one tag without an end, a less-than sign, a name of any letters with the byte
  0xEF behind them and one blank, is never parsed to the end where the tab size is positive: reporting the missing tag end, Stamp
  counts the columns up to the blank and does not move beyond the 0xEF.\<close>

theorem truncated_tag_never_returns:
  assumes "list_all (\<lambda>c. c_isalpha (uchar c)) n" "1 \<le> d_tabsize d"
  shows "Document_Parse condense children (Some (''<'' @ n @ [CHR 0xEF, CHR 0x20])) None TIXML_ENCODING_UTF8 d
    = Inl Never_returns"
proof -
  let ?e = "[CHR 0xEF, CHR 0x20]" and ?u = "TIXML_ENCODING_UTF8"
  let ?s = "CHR ''<'' # n @ ?e"
  have EF: "name_start (CHR 0xEF)" "name_char (CHR 0xEF)" "\<not> name_char (CHR 0x20)" "\<not> IsWhiteSpace (CHR 0xEF)"
    "IsWhiteSpace (CHR 0x20)"
    by (simp_all add: name_start_def name_char_def IsAlpha_def IsAlphaNum_def IsWhiteSpace_def c_isspace_def c_isalnum_def
        c_isalpha_def uchar_def)
  obtain h where h: "n @ ?e = h # tl (n @ ?e)" "name_start h" "\<not> IsWhiteSpace h" "h \<notin> {CHR ''?'', CHR ''!'', CHR ''<''}"
    "\<not> bom (n @ ?e)"
    using assms(1) EF alpha_char by (cases n) (auto simp: bom_def)
  have tn: "takeWhile name_char (n @ ?e) = n @ [CHR 0xEF]" "dropWhile name_char (n @ ?e) = '' ''"
    using assms(1) EF alpha_char by (induction n) auto
  have sk: "SkipWhiteSpace (Some ?s) ?u = Some ?s" "SkipWhiteSpace (Some (n @ ?e)) ?u = Some (n @ ?e)"
    "SkipWhiteSpace (Some '' '') ?u = Some []"
  proof -
    show "SkipWhiteSpace (Some ?s) ?u = Some ?s"
      by (rule Skip_stay) (auto simp: bom_def IsWhiteSpace_def c_isspace_def uchar_def)
    have "hd (n @ ?e) = h" using h(1) by (metis list.sel(1))
    then show "SkipWhiteSpace (Some (n @ ?e)) ?u = Some (n @ ?e)"
      using h by (intro Skip_stay) simp_all
  qed (use EF in \<open>simp add: Skip_Some skip_utf8_Cons bom_def\<close>)
  have name: "ReadName (Some (n @ ?e)) = Inr (n @ [CHR 0xEF], Some '' '')"
  proof -
    have "hd (n @ ?e) = h" using h(1) by (metis list.sel(1))
    then show ?thesis using ReadName_hd [of "n @ ?e"] h(2) tn by simp
  qed
  have stuck: "stamp_loop ?u t ?s 0 (length n + 2) 0 0 = None" for t
  proof -
    have "stamp_loop ?u t ?s 0 (length n + 2) 0 0 =
        stamp_loop ?u t ?s (0 + length (CHR ''<'' # n)) (length n + 2) 0 (0 + int (length (CHR ''<'' # n)))"
      by (rule stamp_loop_plain [where w = ?e])
        (use assms(1) alpha_plain in \<open>auto simp: uchar_def [of "CHR ''<''"] elim!: list.pred_mono_strong\<close>)
    also have "\<dots> = None" by (rule stamp_loop_stuck) (simp_all add: stamp_step_def)
    finally show ?thesis .
  qed
  define D where "D = (ClearError d)\<lparr>d_location := \<lparr>row = 0, col = 0\<rparr>, d_text := ?s,
      d_data := TiXmlParsingData 0 (d_tabsize d) 0 0\<rparr>"
  have s0: "stamp_at ?u ?s D = Inr (\<lparr>row = 0, col = 0\<rparr>, D)"
    by (simp add: stamp_at_def D_def Stamp_def TiXmlParsingData_def stamp_loop.simps)
  have err: "SetError err (Some '' '') ?u D = Inl Never_returns" for err
    using assms(2) stuck by (simp add: SetError_def Let_def stamp_at_def D_def ClearError_def Stamp_def TiXmlParsingData_def)
  have id: "Identify ?s ?u = Inr (Some Element_node)"
  proof -
    obtain t where t: "n @ ?e = h # t" using h(1) by metis
    have "ToLower ?u (CHR ''?'') \<noteq> ToLower ?u h"
      using h(4) schar_eq_iff [of h "CHR ''?''"] by (auto simp: ToLower_def c_tolower_def Let_def schar_def split: if_splits)
    then show ?thesis
      using h sk(1) unfolding t by (auto simp: Identify_def StringEqual_def)
  qed
  have el: "Element_Parse (Suc (Suc k)) condense ?u (Some ?s) D = Inl Never_returns" for k
    using sk s0 name err by (simp add: element_step_def attr_step_def failed_def)
  have loop: "doc_loop (Suc (Suc (Suc k))) condense ?u children (Some ?s) D = Inl Never_returns" for k
    using id el by (simp add: Node_Parse_def)
  have "length ?s + 3 = Suc (Suc (Suc (length ?s)))" by simp
  then have "doc_loop (length ?s + 3) condense ?u children (Some ?s) D = Inl Never_returns"
    using loop by (simp only:)
  then show ?thesis
    using sk(1) unfolding Document_Parse_def Let_def by (simp add: D_def ClearError_def)
qed

theorem truncated_tag_never_returns_witness:
  "Document_Parse True [] (Some (''<'' @ ''ab'' @ [CHR 0xEF, CHR 0x20])) None TIXML_ENCODING_UTF8 new_document
    = Inl Never_returns"
  using truncated_tag_never_returns [of "''ab''" new_document True "[]"]
  by (simp add: new_document_def c_isalpha_def uchar_def)

end
