(* ===== verification/XmlPrint.thy ===== *)
theory XmlPrint
  imports XmlParse
begin

text \<open>
  The output side of TinyXML (\<open>tinyxml.cpp\<close>): the \<open>TiXmlPrinter\<close> that \<open>PrintS\<close> runs over a document,
  the \<open>Print\<close> members that write to a file, \<open>LoadFile\<close> and \<open>SaveFile\<close>; and the theorem that a
  printed document is parsed back.
\<close>

section \<open>TiXmlPrinter\<close>

record printer =
  p_depth :: nat
  simpleTextPrint :: bool
  buffer :: string
  p_indent :: string
  lineBreak :: string

definition TiXmlPrinter :: printer where
  "TiXmlPrinter = \<lparr>p_depth = 0, simpleTextPrint = False, buffer = '''', p_indent = ''    '', lineBreak = [CHR 0x0A]\<rparr>"

text \<open>A C string or a TiXmlString added to the buffer.\<close>

definition put :: "string \<Rightarrow> printer \<Rightarrow> printer" where
  "put s p = p\<lparr>buffer := buffer p @ s\<rparr>"

definition DoIndent :: "printer \<Rightarrow> printer" where
  "DoIndent p = put (concat (replicate (p_depth p) (p_indent p))) p"

definition DoLineBreak :: "printer \<Rightarrow> printer" where
  "DoLineBreak p = put (lineBreak p) p"

text \<open>
  \<open>Attribute\<close> and \<open>Declaration\<close> are printed to a buffer as they are and to a file through \<open>%s\<close>,
  up to a terminator: \<open>out\<close> is the identity or \<open>cstr\<close>. The value is quoted with the double quote unless it has one; both kinds are escaped in it anyway.\<close>

definition Attribute_Print :: "(string \<Rightarrow> string) \<Rightarrow> xattr \<Rightarrow> string" where
  "Attribute_Print out a = (let n = out (EncodeString (aname a)); v = out (EncodeString (avalue a)) in
     if CHR 0x22 \<notin> set (cstr (avalue a)) then n @ [CHR ''='', CHR 0x22] @ v @ [CHR 0x22]
     else n @ [CHR ''='', CHR 0x27] @ v @ [CHR 0x27])"

definition Declaration_Print :: "(string \<Rightarrow> string) \<Rightarrow> string \<Rightarrow> string \<Rightarrow> string \<Rightarrow> string" where
  "Declaration_Print out ver enc sta = ''<?xml '' @
     (if ver \<noteq> [] then ''version='' @ [CHR 0x22] @ out ver @ [CHR 0x22, CHR 0x20] else []) @
     (if enc \<noteq> [] then ''encoding='' @ [CHR 0x22] @ out enc @ [CHR 0x22, CHR 0x20] else []) @
     (if sta \<noteq> [] then ''standalone='' @ [CHR 0x22] @ out sta @ [CHR 0x22, CHR 0x20] else []) @ ''?>''"

text \<open>
  The attributes that \<open>First\<close> and \<open>Next\<close> go through: \<open>Next\<close> takes an attribute
  without a name and a value for the sentinel of the set.
\<close>

definition attr_walk :: "xattr list \<Rightarrow> xattr list" where
  "attr_walk as = (case as of [] \<Rightarrow> []
     | a # r \<Rightarrow> a # takeWhile (\<lambda>b. \<not> (avalue b = [] \<and> aname b = [])) r)"

definition is_text :: "xnode \<Rightarrow> bool" where
  "is_text n = (case n of XText _ _ _ \<Rightarrow> True | _ \<Rightarrow> False)"

definition CDATA :: "xnode \<Rightarrow> bool" where
  "CDATA n = (case n of XText _ _ c \<Rightarrow> c | _ \<Rightarrow> False)"

definition VisitEnter :: "string \<Rightarrow> xattr list \<Rightarrow> xnode list \<Rightarrow> printer \<Rightarrow> printer" where
  "VisitEnter value attrs children p =
     (let p = put (concat (map (\<lambda>a. '' '' @ Attribute_Print (\<lambda>s. s) a) (attr_walk attrs))) (put (''<'' @ cstr value) (DoIndent p));
          p = (if children = [] then DoLineBreak (put '' />'' p)
               else let p = put ''>'' p
                    in if is_text (hd children) \<and> length children = 1 \<and> \<not> CDATA (hd children)
                       then p\<lparr>simpleTextPrint := True\<rparr> else DoLineBreak p)
      in p\<lparr>p_depth := p_depth p + 1\<rparr>)"

definition VisitExit :: "string \<Rightarrow> xnode list \<Rightarrow> printer \<Rightarrow> printer" where
  "VisitExit value children p =
     (let p = p\<lparr>p_depth := p_depth p - 1\<rparr>
      in if children = [] then p
         else let p = (if simpleTextPrint p then p\<lparr>simpleTextPrint := False\<rparr> else DoIndent p)
              in DoLineBreak (put (''</'' @ cstr value @ ''>'') p))"

definition Visit_text :: "string \<Rightarrow> bool \<Rightarrow> printer \<Rightarrow> printer" where
  "Visit_text value cdata p =
     (if cdata then DoLineBreak (put (''<![CDATA['' @ cstr value @ '']]>'') (DoIndent p))
      else if simpleTextPrint p then put (EncodeString value) p
      else DoLineBreak (put (EncodeString value) (DoIndent p)))"

definition Visit_line :: "string \<Rightarrow> printer \<Rightarrow> printer" where
  "Visit_line s p = DoLineBreak (put s (DoIndent p))"

text \<open>\<open>Accept\<close>: every visit returns true, so no branch is cut off.\<close>

fun Accept :: "xnode \<Rightarrow> printer \<Rightarrow> printer" where
  "Accept (XElement _ value attrs children) p =
     VisitExit value children (fold Accept children (VisitEnter value attrs children p))"
| "Accept (XText _ value cdata) p = Visit_text value cdata p"
| "Accept (XDeclaration _ ver enc sta) p = Visit_line (Declaration_Print (\<lambda>s. s) ver enc sta) p"
| "Accept (XComment _ value) p = Visit_line (''<!--'' @ cstr value @ ''-->'') p"
| "Accept (XUnknown _ value) p = Visit_line (''<'' @ cstr value @ ''>'') p"

definition PrintS :: "xnode list \<Rightarrow> string" where
  "PrintS children = cstr (buffer (fold Accept children TiXmlPrinter))"

section \<open>Print\<close>

definition indent :: "nat \<Rightarrow> string" where
  "indent depth = concat (replicate depth ''    '')"

text \<open>What \<open>Print(cfile, depth)\<close> writes; \<open>%s\<close> stops at a terminator.\<close>

definition Comment_Print :: "nat \<Rightarrow> string \<Rightarrow> string" where
  "Comment_Print depth value = indent depth @ ''<!--'' @ cstr value @ ''-->''"

definition Text_Print :: "nat \<Rightarrow> string \<Rightarrow> bool \<Rightarrow> string" where
  "Text_Print depth value cdata =
     (if cdata then [CHR 0x0A] @ indent depth @ ''<![CDATA['' @ cstr value @ '']]>'' @ [CHR 0x0A]
      else cstr (EncodeString value))"

definition Unknown_Print :: "nat \<Rightarrow> string \<Rightarrow> string" where
  "Unknown_Print depth value = indent depth @ ''<'' @ cstr value @ ''>''"

fun Print :: "nat \<Rightarrow> xnode \<Rightarrow> string" where
  "Print depth (XElement _ value attrs children) =
     indent depth @ ''<'' @ cstr value @ concat (map (\<lambda>a. '' '' @ Attribute_Print cstr a) (attr_walk attrs)) @
     (if children = [] then '' />''
      else if length children = 1 \<and> is_text (hd children)
      then ''>'' @ concat (map (Print (depth + 1)) children) @ ''</'' @ cstr value @ ''>''
      else ''>'' @ concat (map (\<lambda>n. (if is_text n then [] else [CHR 0x0A]) @ Print (depth + 1) n) children)
           @ [CHR 0x0A] @ indent depth @ ''</'' @ cstr value @ ''>'')"
| "Print depth (XComment _ value) = Comment_Print depth value"
| "Print depth (XText _ value cdata) = Text_Print depth value cdata"
| "Print depth (XDeclaration _ ver enc sta) = Declaration_Print cstr ver enc sta"
| "Print depth (XUnknown _ value) = Unknown_Print depth value"

definition Document_Print :: "xnode list \<Rightarrow> string" where
  "Document_Print children = concat (map (\<lambda>n. Print 0 n @ [CHR 0x0A]) children)"

definition SaveFile :: "xdoc \<Rightarrow> xnode list \<Rightarrow> string" where
  "SaveFile d children = (if useMicrosoftBOM d then [CHR 0xEF, CHR 0xBB, CHR 0xBF] else []) @ Document_Print children"

text \<open>\<open>SaveFile(filename)\<close>: whether the file can be opened and is written without an error, and what is in it then.\<close>

definition SaveFile_name :: "bool \<Rightarrow> bool \<Rightarrow> xdoc \<Rightarrow> xnode list \<Rightarrow> bool \<times> string option" where
  "SaveFile_name opened ferror d children =
     (if opened then (\<not> ferror, Some (SaveFile d children)) else (False, None))"

section \<open>LoadFile\<close>

text \<open>Line ends become single line feeds, up to the first terminator in the data.\<close>

fun normalize :: "string \<Rightarrow> string" where
  "normalize [] = []"
| "normalize (c # r) =
     (if c = NUL then []
      else if c = CHR 0x0D
      then CHR 0x0A # (if take 1 r = [CHR 0x0A] then normalize (drop 1 r) else normalize r)
      else c # normalize r)"

text \<open>
  The file is \<open>None\<close> if it cannot be opened; \<open>readable\<close> is what \<open>fread\<close> answers. The result with
  the children and the document.
\<close>

definition LoadFile :: "bool \<Rightarrow> string option \<Rightarrow> bool \<Rightarrow> encoding \<Rightarrow> xnode list \<Rightarrow> xdoc
    \<Rightarrow> (bool \<times> xnode list \<times> xdoc) res" where
  "LoadFile condense file readable enc children d = (case file of
      None \<Rightarrow> bindr (SetError TIXML_ERROR_OPENING_FILE None TIXML_ENCODING_UNKNOWN d) (\<lambda>d. Inr (False, children, d))
    | Some bytes \<Rightarrow>
        let d = d\<lparr>d_location := no_cursor\<rparr> in
        if bytes = [] then bindr (SetError TIXML_ERROR_DOCUMENT_EMPTY None TIXML_ENCODING_UNKNOWN d) (\<lambda>d. Inr (False, [], d))
        else if \<not> readable
        then bindr (SetError TIXML_ERROR_OPENING_FILE None TIXML_ENCODING_UNKNOWN d) (\<lambda>d. Inr (False, [], d))
        else bindr (Document_Parse condense [] (Some (normalize bytes)) None enc d) (\<lambda>(nodes, p, d).
               Inr (\<not> error d, nodes, d)))"

section \<open>What PrintS writes\<close>

text \<open>A plain text is one that is not printed as a CDATA section.\<close>

definition plain :: "xnode \<Rightarrow> bool" where
  "plain n \<longleftrightarrow> is_text n \<and> \<not> CDATA n"

text \<open>The text of a node from its first to its last character, at a depth of indentation.\<close>

definition start_tag :: "string \<Rightarrow> xattr list \<Rightarrow> string" where
  "start_tag value attrs = ''<'' @ cstr value @ concat (map (\<lambda>a. '' '' @ Attribute_Print (\<lambda>s. s) a) (attr_walk attrs))"

fun markup :: "nat \<Rightarrow> xnode \<Rightarrow> string" where
  "markup k (XElement _ value attrs children) = start_tag value attrs @
     (if children = [] then '' />''
      else ''>'' @ (if length children = 1 \<and> plain (hd children)
                    then concat (map (markup k) children)
                    else [CHR 0x0A] @ concat (map (\<lambda>n. indent (Suc k) @ markup (Suc k) n @ [CHR 0x0A]) children) @ indent k)
        @ ''</'' @ cstr value @ ''>'')"
| "markup k (XText _ value cdata) = (if cdata then ''<![CDATA['' @ cstr value @ '']]>'' else EncodeString value)"
| "markup k (XDeclaration _ ver enc sta) = Declaration_Print (\<lambda>s. s) ver enc sta"
| "markup k (XComment _ value) = ''<!--'' @ cstr value @ ''-->''"
| "markup k (XUnknown _ value) = ''<'' @ cstr value @ ''>''"

abbreviation line :: "nat \<Rightarrow> xnode \<Rightarrow> string" where
  "line k n \<equiv> indent k @ markup k n @ [CHR 0x0A]"

definition standard :: "printer \<Rightarrow> bool" where
  "standard p \<longleftrightarrow> p_indent p = ''    '' \<and> lineBreak p = [CHR 0x0A]"

lemma put_fields [simp]:
  "buffer (put s p) = buffer p @ s" "p_depth (put s p) = p_depth p" "simpleTextPrint (put s p) = simpleTextPrint p"
  "p_indent (put s p) = p_indent p" "lineBreak (put s p) = lineBreak p" "put s (put t p) = put (t @ s) p" "put [] p = p"
  by (simp_all add: put_def)

lemma Visit_line_put: "standard p \<Longrightarrow> Visit_line s p = put (indent (p_depth p) @ s @ [CHR 0x0A]) p"
  by (simp add: Visit_line_def DoLineBreak_def DoIndent_def standard_def indent_def)

lemma is_plain: "plain n \<Longrightarrow> \<exists>loc v. n = XText loc v False"
  by (cases n) (auto simp: plain_def is_text_def CDATA_def)

lemma Accept_put:
  "standard p \<Longrightarrow> \<not> simpleTextPrint p \<Longrightarrow> Accept n p = put (line (p_depth p) n) p"
proof (induction n arbitrary: p)
  case (XElement loc val attrs children)
  let ?t = "indent (p_depth p) @ start_tag val attrs"
  have kids: "fold Accept cs q = put (concat (map (line (p_depth q)) cs)) q"
    if "set cs \<subseteq> set children" "standard q" "\<not> simpleTextPrint q" for cs q
    using that
  proof (induction cs arbitrary: q)
    case (Cons c cs)
    then have "Accept c q = put (line (p_depth q) c) q" using XElement.IH [of c q] by simp
    moreover have "standard (put s q)" for s using Cons.prems(2) by (simp add: standard_def)
    ultimately show ?case using Cons by simp
  qed simp
  consider "children = []" | loc v where "children = [XText loc v False]"
    | "children \<noteq> []" "\<not> (length children = 1 \<and> plain (hd children))"
  proof -
    have "length children = 1 \<Longrightarrow> plain (hd children) \<Longrightarrow> \<exists>loc v. children = [XText loc v False]"
      by (cases children) (auto dest: is_plain)
    then show ?thesis using that by blast
  qed
  then show ?case
  proof cases
    case 1
    then show ?thesis using XElement.prems
      by (simp add: VisitEnter_def VisitExit_def Let_def DoLineBreak_def DoIndent_def standard_def indent_def start_tag_def)
  next
    case 2
    then show ?thesis using XElement.prems
      by (simp add: VisitEnter_def VisitExit_def Let_def DoLineBreak_def DoIndent_def standard_def indent_def start_tag_def
          is_text_def CDATA_def Visit_text_def plain_def)
  next
    case 3
    have "VisitEnter val attrs children p = (put (?t @ ''>'' @ [CHR 0x0A]) p)\<lparr>p_depth := Suc (p_depth p)\<rparr>"
      using 3 XElement.prems
      by (auto simp: VisitEnter_def Let_def DoLineBreak_def DoIndent_def standard_def indent_def start_tag_def plain_def put_def)
    moreover have "VisitExit val children ((put s p)\<lparr>p_depth := Suc (p_depth p)\<rparr>) =
        put (s @ indent (p_depth p) @ ''</'' @ cstr val @ ''>'' @ [CHR 0x0A]) p" for s
      using 3 XElement.prems
      by (simp add: VisitExit_def Let_def DoLineBreak_def DoIndent_def standard_def indent_def put_def)
    moreover have "fold Accept children ((put s p)\<lparr>p_depth := Suc (p_depth p)\<rparr>) =
        (put (s @ concat (map (line (Suc (p_depth p))) children)) p)\<lparr>p_depth := Suc (p_depth p)\<rparr>" for s
      using XElement.prems by (subst kids) (auto simp: standard_def put_def)
    ultimately show ?thesis using 3 by auto
  qed
qed (simp_all add: Visit_line_put Visit_text_def Visit_line_def [symmetric])

lemma PrintS_lines: "PrintS ns = cstr (concat (map (line 0) ns))"
proof -
  have "fold Accept ns p = put (concat (map (line (p_depth p)) ns)) p" if "standard p" "\<not> simpleTextPrint p" for p
    using that
  proof (induction ns arbitrary: p)
    case (Cons n ns)
    moreover have "standard (put s p)" for s using Cons.prems(1) by (simp add: standard_def)
    ultimately show ?case by (simp add: Accept_put)
  qed simp
  then show ?thesis by (simp add: PrintS_def TiXmlPrinter_def standard_def)
qed

section \<open>Documents that survive being printed\<close>

text \<open>Nodes without their positions.\<close>

fun strip :: "xnode \<Rightarrow> xnode" where
  "strip (XElement _ v as cs) = XElement no_cursor v (map (\<lambda>a. a\<lparr>alocation := no_cursor\<rparr>) as) (map strip cs)"
| "strip (XComment _ v) = XComment no_cursor v"
| "strip (XUnknown _ v) = XUnknown no_cursor v"
| "strip (XText _ v c) = XText no_cursor v c"
| "strip (XDeclaration _ v e s) = XDeclaration no_cursor v e s"

definition good_name :: "string \<Rightarrow> bool" where
  "good_name n \<longleftrightarrow> n \<noteq> [] \<and> name_start (hd n) \<and> list_all name_char n"

definition good_attrs :: "xattr list \<Rightarrow> bool" where
  "good_attrs as \<longleftrightarrow> distinct (map aname as) \<and> list_all (\<lambda>a. good_name (aname a) \<and> no_reference (avalue a)) as"

fun single_spaced :: "string \<Rightarrow> bool" where
  "single_spaced (c # d # r) \<longleftrightarrow> \<not> (c = CHR 0x20 \<and> d = CHR 0x20) \<and> single_spaced (d # r)"
| "single_spaced _ = True"

text \<open>Texts that condensing leaves alone: no blank at either end, no two in a row; not only white space.\<close>

definition good_text :: "string \<Rightarrow> bool" where
  "good_text s \<longleftrightarrow> no_reference s \<and> single_spaced s \<and> \<not> list_all IsWhiteSpace s
     \<and> hd s \<noteq> CHR 0x20 \<and> last s \<noteq> CHR 0x20"

definition free_of :: "string \<Rightarrow> string \<Rightarrow> bool" where
  "free_of tag s \<longleftrightarrow> (\<forall>i < length s. \<not> is_prefix tag (drop i s @ tag))"

text \<open>A value that is neither an end tag nor a declaration, comment, section or element once it is in brackets.\<close>

definition good_unknown :: "string \<Rightarrow> bool" where
  "good_unknown s \<longleftrightarrow> NUL \<notin> set s \<and> CHR ''>'' \<notin> set s \<and> \<not> is_prefix ''/'' s \<and> \<not> is_prefix ''?'' s
     \<and> \<not> is_prefix ''!--'' s \<and> \<not> is_prefix ''![CDATA['' s \<and> (s = [] \<or> \<not> name_start (hd s))"

definition good_declared :: "string \<Rightarrow> bool" where
  "good_declared s \<longleftrightarrow> NUL \<notin> set s \<and> CHR 0x22 \<notin> set s \<and> CHR ''&'' \<notin> set s"

fun apart :: "xnode list \<Rightarrow> bool" where
  "apart (a # b # r) \<longleftrightarrow> \<not> (plain a \<and> plain b) \<and> apart (b # r)"
| "apart _ = True"

fun printable :: "xnode \<Rightarrow> bool" where
  "printable (XElement _ v as cs) \<longleftrightarrow> good_name v \<and> good_attrs as \<and> list_all printable cs \<and> apart cs"
| "printable (XComment _ v) \<longleftrightarrow> NUL \<notin> set v \<and> free_of ''-->'' v"
| "printable (XUnknown _ v) \<longleftrightarrow> good_unknown v"
| "printable (XText _ v cdata) \<longleftrightarrow> (if cdata then NUL \<notin> set v \<and> free_of '']]>'' v else good_text v)"
| "printable (XDeclaration _ v e s) \<longleftrightarrow> good_declared v \<and> good_declared e \<and> good_declared s"

section \<open>Reading the pieces back\<close>

abbreviation "LEG \<equiv> TIXML_ENCODING_LEGACY"

definition reads :: "('a \<Rightarrow> 'b) \<Rightarrow> 'a parsed \<Rightarrow> 'b \<Rightarrow> string option \<Rightarrow> bool \<Rightarrow> bool" where
  "reads f r x q e \<longleftrightarrow> (\<exists>y d. r = Inr (y, q, d) \<and> f y = x \<and> error d = e)"

lemma reads_Inr [simp]: "reads f (Inr (y, q, d)) x q' e \<longleftrightarrow> f y = x \<and> q = q' \<and> error d = e"
  by (auto simp: reads_def)

lemma reads_bindr:
  "reads g m y q e \<Longrightarrow> (\<And>z d. g z = y \<Longrightarrow> error d = e \<Longrightarrow> reads f (k (z, q, d)) x q' e') \<Longrightarrow>
    reads f (bindr m k) x q' e'"
  by (auto simp: reads_def)

lemma reads_stamp:
  assumes "\<And>loc d'. error d' = error d \<Longrightarrow> reads f (k (loc, d')) x q e"
  shows "reads f (bindr (stamp_at LEG p d) k) x q e"
proof -
  have "Stamp LEG (d_text d) (length (d_text d) - length p) (d_data d) \<noteq> None"
    using stamp_loop_returns [of LEG "tabsize (d_data d)" "d_text d" "stamp (d_data d)" "length (d_text d) - length p"
        "row (cursor (d_data d))" "col (cursor (d_data d))"]
    by (auto simp: Stamp_def split: option.splits)
  then obtain pd where "Stamp LEG (d_text d) (length (d_text d) - length p) (d_data d) = Some pd" by blast
  then show ?thesis using assms by (simp add: stamp_at_def)
qed

lemma Skip_legacy: "s \<noteq> [] \<Longrightarrow> \<not> IsWhiteSpace (hd s) \<Longrightarrow> list_all IsWhiteSpace ws \<Longrightarrow>
    SkipWhiteSpace (Some (ws @ s)) LEG = Some s"
proof -
  assume s: "s \<noteq> []" "\<not> IsWhiteSpace (hd s)" "list_all IsWhiteSpace ws"
  then have "dropWhile IsWhiteSpace (ws @ s) = s"
    by (cases s) (auto simp: dropWhile_append3 list_all_iff)
  then show ?thesis using s Skip_Some [of "ws @ s" LEG] by simp
qed

lemmas Skip_here = Skip_legacy [where ws = "[]", simplified]

lemma name_char_simps [simp]:
  "\<not> name_char (CHR ''='')" "\<not> name_char (CHR 0x20)" "\<not> name_char (CHR ''>'')" "\<not> name_char (CHR ''/'')"
  by (simp_all add: name_char_def IsAlphaNum_def c_isalnum_def c_isalpha_def uchar_def)

lemma white_simps [simp]:
  "IsWhiteSpace (CHR 0x20)" "IsWhiteSpace (CHR 0x0A)" "\<not> IsWhiteSpace (CHR ''<'')" "\<not> IsWhiteSpace (CHR ''>'')"
  "\<not> IsWhiteSpace (CHR ''/'')" "\<not> IsWhiteSpace (CHR ''='')" "\<not> IsWhiteSpace (CHR 0x22)" "\<not> IsWhiteSpace (CHR 0x27)"
  "\<not> IsWhiteSpace (CHR ''?'')" "\<not> IsWhiteSpace (CHR ''&'')"
  by (simp_all add: IsWhiteSpace_def c_isspace_def uchar_def)

lemma name_start_white: "name_start c \<Longrightarrow> \<not> IsWhiteSpace c"
  by (auto simp: name_start_def IsAlpha_def c_isalpha_def IsWhiteSpace_def c_isspace_def uchar_def split: if_splits)

lemma good_name_read:
  assumes "good_name n" "\<not> name_char e"
  shows "ReadName (Some (n @ e # w)) = Inr (n, Some (e # w))"
    "SkipWhiteSpace (Some (n @ e # w)) LEG = Some (n @ e # w)"
proof -
  have "takeWhile name_char (n @ e # w) = n" "dropWhile name_char (n @ e # w) = e # w"
    using assms by (auto simp: good_name_def list_all_iff takeWhile_append2 dropWhile_append3)
  moreover have "hd (n @ e # w) = hd n" "n \<noteq> []" using assms by (auto simp: good_name_def)
  ultimately show "ReadName (Some (n @ e # w)) = Inr (n, Some (e # w))"
    using ReadName_hd [of "n @ e # w"] assms by (simp add: good_name_def)
  show "SkipWhiteSpace (Some (n @ e # w)) LEG = Some (n @ e # w)"
    by (rule Skip_here) (use assms in \<open>auto simp: good_name_def name_start_white\<close>)
qed

lemma utf8_ok_legacy [simp]: "utf8_ok LEG s"
  by (induction LEG s rule: utf8_ok.induct) (auto simp: char_length_def)

lemma ReadText_quoted:
  assumes "no_reference v" "t \<in> {CHR 0x22, CHR 0x27}" "w \<noteq> []"
  shows "ReadText condense (Some (EncodeString v @ t # w)) False [t] False LEG = Inr (v, Some w)"
  using keep_loop_encoded [of t v LEG "t # w" "[]" False "[]"] keep_loop_end [of "[t]" w False LEG v] assms
  by (auto simp: ReadText_def)

definition plain_attr :: "xattr \<Rightarrow> xattr" where
  "plain_attr a = a\<lparr>alocation := no_cursor\<rparr>"

lemma Attribute_reads_text:
  assumes "good_name n" "t \<in> {CHR 0x22, CHR 0x27}"
    and "ReadText condense (Some (E @ t # w)) False [t] False LEG = Inr (v, Some w)"
  shows "reads plain_attr (Attribute_Parse condense document LEG (Some (n @ CHR ''='' # t # E @ t # w)) d)
    \<lparr>aname = n, avalue = v, alocation = no_cursor\<rparr> (Some w) (error d)"
proof -
  let ?s = "n @ CHR ''='' # t # E @ t # w"
  have sk: "SkipWhiteSpace (Some (CHR ''='' # r)) LEG = Some (CHR ''='' # r)"
    "SkipWhiteSpace (Some (t # r)) LEG = Some (t # r)" for r
    by (rule Skip_here; use assms(2) in auto)+
  obtain c r where cr: "?s = c # r" by (cases ?s) auto
  show ?thesis
    using good_name_read [OF assms(1), of "CHR ''=''" "t # E @ t # w"] assms(3) sk assms(2) cr
    by (auto simp: Attribute_Parse_def Let_def plain_attr_def Attribute_value_def intro!: reads_stamp)
qed

lemma Attribute_reads:
  assumes "good_name n" "no_reference v" "t \<in> {CHR 0x22, CHR 0x27}" "w \<noteq> []"
  shows "reads plain_attr (Attribute_Parse condense document LEG (Some (n @ CHR ''='' # t # EncodeString v @ t # w)) d)
    \<lparr>aname = n, avalue = v, alocation = no_cursor\<rparr> (Some w) (error d)"
  by (rule Attribute_reads_text [OF assms(1,3) ReadText_quoted [OF assms(2-4)]])

lemma name_char_encode: "name_char c \<Longrightarrow> encode_char c = [c] \<and> c \<noteq> CHR ''&'' \<and> c \<noteq> NUL"
proof -
  assume c: "name_char c"
  have "\<not> name_char (CHR ''&'')" "\<not> name_char (CHR ''<'')" "\<not> name_char (CHR 0x22)" "\<not> name_char (CHR 0x27)"
    by (simp_all add: name_char_def IsAlphaNum_def c_isalnum_def c_isalpha_def uchar_def)
  with c have "c \<noteq> CHR ''&''" "c \<noteq> CHR ''<''" "c \<noteq> CHR ''>''" "c \<noteq> CHR 0x22" "c \<noteq> CHR 0x27"
    using name_char_simps by metis+
  moreover have "32 < uchar c"
    using c by (auto simp: name_char_def IsAlphaNum_def c_isalnum_def c_isalpha_def uchar_def split: if_splits)
  moreover from this have "c \<noteq> NUL" by (auto simp: uchar_def)
  ultimately show ?thesis by (simp add: encode_char_cases)
qed

lemma encode_name: "list_all name_char n \<Longrightarrow> EncodeString n = n \<and> cstr n = n"
proof (induction n)
  case (Cons c n)
  then have "c \<noteq> CHR ''&''" "encode_char c = [c]" "c \<noteq> NUL" using name_char_encode by auto
  then show ?case using Cons by (subst EncodeString.simps) (simp add: cstr_def)
qed (simp add: EncodeString.simps cstr_def)

lemma Attribute_Print_good:
  assumes "good_name (aname a)"
  obtains t where "t \<in> {CHR 0x22, CHR 0x27}"
    "Attribute_Print (\<lambda>s. s) a = aname a @ CHR ''='' # t # EncodeString (avalue a) @ [t]"
  using assms encode_name [of "aname a"] that unfolding Attribute_Print_def Let_def good_name_def
  by (cases "CHR 0x22 \<notin> set (cstr (avalue a))") auto

abbreviation attrs_text :: "xattr list \<Rightarrow> string" where
  "attrs_text as \<equiv> concat (map (\<lambda>a. '' '' @ Attribute_Print (\<lambda>s. s) a) as)"

lemma attr_walk_good: "good_attrs as \<Longrightarrow> attr_walk as = as"
  by (cases as) (auto simp: attr_walk_def good_attrs_def good_name_def list_all_iff takeWhile_eq_all_conv)

lemma attr_loop_reads:
  assumes "list_all (\<lambda>a. good_name (aname a) \<and> no_reference (avalue a)) as" "distinct (map aname (bs @ as))"
    and "length (attrs_text as @ w) + 1 < n" "w \<noteq> []"
  shows "\<exists>m as' d'. attr_loop n condense LEG loc name bs (attrs_text as @ w) d = attr_loop m condense LEG loc name (bs @ as') w d'
    \<and> map plain_attr as' = map plain_attr as \<and> error d' = error d \<and> length w + 1 < m"
  using assms
proof (induction as arbitrary: bs n d)
  case (Cons a as)
  obtain t where t: "t \<in> {CHR 0x22, CHR 0x27}"
    "Attribute_Print (\<lambda>s. s) a = aname a @ CHR ''='' # t # EncodeString (avalue a) @ [t]"
    using Cons.prems(1) by (auto elim: Attribute_Print_good)
  let ?rest = "attrs_text as @ w"
  let ?s = "aname a @ CHR ''='' # t # EncodeString (avalue a) @ t # ?rest"
  have p: "attrs_text (a # as) @ w = CHR 0x20 # ?s" using t(2) by simp
  have a: "good_name (aname a)" "no_reference (avalue a)" using Cons.prems(1) by auto
  have "name_char (hd (aname a))" "name_start (hd (aname a))" "aname a \<noteq> []"
    using a(1) by (auto simp: good_name_def list_all_iff)
  then obtain h r where h: "?s = h # r" "\<not> IsWhiteSpace h" "h \<noteq> CHR ''/''" "h \<noteq> CHR ''>''"
    using name_char_simps(3,4) name_start_white by (cases "aname a") (force, metis append_Cons list.sel(1))
  have sk: "SkipWhiteSpace (Some (CHR 0x20 # ?s)) LEG = Some ?s"
    using Skip_legacy [of ?s "'' ''"] h by simp
  have "?rest \<noteq> []" using Cons.prems(4) by simp
  with a t(1) obtain a' d' where a': "Attribute_Parse condense True LEG (Some ?s) d = Inr (a', Some ?rest, d')"
    "plain_attr a' = \<lparr>aname = aname a, avalue = avalue a, alocation = no_cursor\<rparr>" "error d' = error d"
    using Attribute_reads [of "aname a" "avalue a" t ?rest condense True d] by (auto simp: reads_def)
  then have nm: "aname a' = aname a" by (simp add: plain_attr_def) (metis xattr.select_convs(1) xattr.surjective xattr.update_convs(3))
  obtain k where k: "n = Suc k" using Cons.prems(3) by (cases n) auto
  have "attr_loop n condense LEG loc name bs (attrs_text (a # as) @ w) d
      = attr_loop k condense LEG loc name (bs @ [a']) ?rest d'"
    using sk h a'(1) nm Cons.prems(2) \<open>?rest \<noteq> []\<close> unfolding p k
    by (auto simp: attr_step_def Let_def)
  moreover have "\<exists>m as' d''. attr_loop k condense LEG loc name (bs @ [a']) ?rest d'
      = attr_loop m condense LEG loc name ((bs @ [a']) @ as') w d''
      \<and> map plain_attr as' = map plain_attr as \<and> error d'' = error d' \<and> length w + 1 < m"
    using Cons.prems p k nm by (intro Cons.IH) auto
  ultimately obtain m as' d'' where "attr_loop n condense LEG loc name bs (attrs_text (a # as) @ w) d
      = attr_loop m condense LEG loc name (bs @ a' # as') w d''"
    "map plain_attr as' = map plain_attr as" "error d'' = error d'" "length w + 1 < m" by auto
  moreover have "plain_attr a' = plain_attr a" using a'(2) by (simp add: plain_attr_def)
  ultimately show ?case using a'(3) by (intro exI [of _ m] exI [of _ "a' # as'"] exI [of _ d'']) simp
qed (use assms in auto)

section \<open>Leaves\<close>

lemma raw_until_found: "free_of tag v \<Longrightarrow> tag \<noteq> [] \<Longrightarrow> raw_until tag (v @ tag @ w) = (v, tag @ w)"
proof (induction v)
  case Nil
  then show ?case by (cases tag) (auto simp: is_prefix_def)
next
  case (Cons c v)
  have "\<not> is_prefix tag (drop 0 (c # v) @ tag)" using Cons.prems(1) unfolding free_of_def by blast
  moreover have "take (length tag) ((c # v @ tag) @ w) = take (length tag) (c # v @ tag)"
    by (simp only: take_append) simp
  ultimately have "\<not> is_prefix tag (c # v @ tag @ w)" by (simp add: is_prefix_def)
  moreover have "free_of tag v"
    unfolding free_of_def
  proof (intro allI impI)
    fix i assume "i < length v"
    then have "\<not> is_prefix tag (drop (Suc i) (c # v) @ tag)" using Cons.prems(1) unfolding free_of_def by (metis length_Cons Suc_less_eq)
    then show "\<not> is_prefix tag (drop i v @ tag)" by simp
  qed
  ultimately show ?case using Cons by simp
qed

lemma match_from_append: "match_from (=) (s @ w) s"
  by (induction s) auto

lemma Comment_reads:
  assumes "NUL \<notin> set v" "free_of ''-->'' v"
  shows "reads strip (Comment_Parse LEG (Some (''<!--'' @ v @ ''-->'' @ w)) d) (XComment no_cursor v) (Some w) (error d)"
  using raw_until_found [OF assms(2), of w] Skip_here [of "''<!--'' @ v @ ''-->'' @ w"]
  by (auto simp: Comment_Parse_def StringEqual_def intro!: reads_stamp)

lemma CDATA_reads:
  assumes "NUL \<notin> set v" "free_of '']]>'' v" "w \<noteq> []"
  shows "reads strip (Text_Parse condense LEG True (''<![CDATA['' @ v @ '']]>'' @ w) d) (XText no_cursor v True) (Some w) (error d)"
proof -
  have "ReadText condense (Some ('']]>'' @ w)) False '']]>'' False LEG = Inr ([], Some w)"
    using keep_loop_end [of "'']]>''" w False LEG "[]"] assms(3) by (simp add: ReadText_def)
  then show ?thesis
    using raw_until_found [OF assms(2), of w] by (auto simp: Text_Parse_def StringEqual_def intro!: reads_stamp)
qed

lemma Unknown_reads:
  assumes "CHR ''>'' \<notin> set v"
  shows "reads strip (Unknown_Parse LEG (Some (''<'' @ v @ ''>'' @ w)) d) (XUnknown no_cursor v) (Some w) (error d)"
proof -
  have "\<forall>c \<in> set v. c \<noteq> CHR ''>''" using assms by blast
  then have "takeWhile (\<lambda>c. c \<noteq> CHR ''>'') (v @ ''>'' @ w) = v" "dropWhile (\<lambda>c. c \<noteq> CHR ''>'') (v @ ''>'' @ w) = ''>'' @ w"
    by (simp_all add: takeWhile_append dropWhile_append)
  then show ?thesis
    using Skip_here [of "''<'' @ v @ ''>'' @ w"] by (auto simp: Unknown_Parse_def Let_def intro!: reads_stamp)
qed

section \<open>Texts and declarations\<close>

lemma uchar_eq: "uchar c = uchar d \<longleftrightarrow> c = d"
  by (simp only: uchar_def of_char_eq_iff)

lemma encode_head_white: "c \<noteq> CHR 0x20 \<Longrightarrow> \<exists>d v. encode_char c = d # v \<and> \<not> IsWhiteSpace d \<and> d \<noteq> CHR ''<''"
proof -
  assume "c \<noteq> CHR 0x20"
  then have "uchar c \<noteq> 32" using uchar_eq [of c "CHR 0x20"] by (simp add: uchar_def [of "CHR 0x20"])
  then have "\<not> uchar c < 32 \<Longrightarrow> \<not> IsWhiteSpace c"
    by (auto simp: IsWhiteSpace_def c_isspace_def) (auto simp: uchar_def)
  then show ?thesis by (auto simp: encode_char_cases)
qed

lemma char_length_legacy [simp]: "char_length LEG c = 1"
  by (simp add: char_length_def)

lemma condense_encoded:
  "no_reference s \<Longrightarrow> single_spaced s \<Longrightarrow> (s \<noteq> [] \<Longrightarrow> last s \<noteq> CHR 0x20) \<Longrightarrow> (ws \<Longrightarrow> s \<noteq> [] \<and> hd s \<noteq> CHR 0x20) \<Longrightarrow>
    condense_loop (Some (EncodeString s @ w)) ''<'' False LEG acc ws
      = condense_loop (Some w) ''<'' False LEG (acc @ (if ws then '' '' else []) @ s) False"
proof (induction s arbitrary: acc ws)
  case (Cons c s)
  have nr: "no_reference s" using no_reference_drop [OF Cons.prems(1), of 1] by simp
  have e: "EncodeString (c # s) = encode_char c @ EncodeString s" by (rule encode_step [OF Cons.prems(1)])
  have ss: "single_spaced s" using Cons.prems(2) by (cases s) auto
  have la: "s \<noteq> [] \<Longrightarrow> last s \<noteq> CHR 0x20" using Cons.prems(3) by simp
  show ?case
  proof (cases "c = CHR 0x20")
    case True
    then have "\<not> ws" "s \<noteq> []" "hd s \<noteq> CHR 0x20" using Cons.prems by (auto, cases s, auto)
    moreover have "condense_loop (Some (CHR 0x20 # EncodeString s @ w)) ''<'' False LEG acc ws
        = condense_loop (Some (EncodeString s @ w)) ''<'' False LEG acc True"
      by (simp add: condense_loop_Cons StringEqual_def)
    ultimately show ?thesis
      using Cons.IH [OF nr ss la, of True acc] True e by (simp add: encode_char_cases uchar_def)
  next
    case False
    then obtain d v where d: "encode_char c = d # v" "\<not> IsWhiteSpace d" "d \<noteq> CHR ''<''" using encode_head_white by blast
    have "GetChar (encode_char c @ EncodeString s @ w) LEG = Inr ([c], Some (EncodeString s @ w))"
      by (rule GetChar_encode_char) simp
    then have "condense_loop (Some (EncodeString (c # s) @ w)) ''<'' False LEG acc ws
        = condense_loop (Some (EncodeString s @ w)) ''<'' False LEG (acc @ (if ws then '' '' else []) @ [c]) False"
      using d e by (simp add: condense_loop_Cons StringEqual_def)
    then show ?thesis using Cons.IH [OF nr ss la, of False] by simp
  qed
next
  case Nil
  then show ?case by (cases ws) (auto simp: EncodeString.simps)
qed

lemma condense_white:
  "list_all IsWhiteSpace ws \<Longrightarrow> condense_loop (Some (ws @ CHR ''<'' # y)) ''<'' False LEG acc f = Inr (acc, Some (CHR ''<'' # y))"
  by (induction ws arbitrary: f) (auto simp: condense_loop_Cons StringEqual_def)

lemma good_text_start: "good_text s \<Longrightarrow> \<exists>d v. EncodeString s = d # v \<and> \<not> IsWhiteSpace d \<and> d \<noteq> CHR ''<''"
proof -
  assume s: "good_text s"
  then obtain c r where "s = c # r" by (cases s) (auto simp: good_text_def)
  then show ?thesis using s encode_head_white [of c] encode_step [of c r] by (auto simp: good_text_def)
qed

lemma Text_reads:
  assumes "good_text s" "list_all IsWhiteSpace ws" "y \<noteq> []"
  shows "reads strip (Text_Parse True LEG False (EncodeString s @ ws @ CHR ''<'' # y) d)
    (XText no_cursor s False) (Some (CHR ''<'' # y)) (error d)"
proof -
  obtain e v where e: "EncodeString s = e # v" "\<not> IsWhiteSpace e" "e \<noteq> CHR ''<''" using good_text_start [OF assms(1)] by blast
  let ?p = "EncodeString s @ ws @ CHR ''<'' # y"
  have sk: "SkipWhiteSpace (Some ?p) LEG = Some ?p" by (rule Skip_here) (use e in simp_all)
  have "condense_loop (Some ?p) ''<'' False LEG [] False = Inr (s, Some (CHR ''<'' # y))"
    using condense_encoded [of s False "ws @ CHR ''<'' # y" "[]"] condense_white [OF assms(2)] assms(1)
    by (simp add: good_text_def)
  then have "ReadText True (Some ?p) True ''<'' False LEG = Inr (s, Some y)"
    using sk assms(3) by (simp add: ReadText_def)
  moreover have "StringEqual ?p ''<![CDATA['' False LEG = Inr False" using e by (simp add: StringEqual_def)
  ultimately show ?thesis by (auto simp: Text_Parse_def intro!: reads_stamp)
qed

lemma ReadText_declared:
  assumes "CHR 0x22 \<notin> set v" "CHR ''&'' \<notin> set v" "w \<noteq> []"
  shows "ReadText condense (Some (v @ CHR 0x22 # w)) False [CHR 0x22] False LEG = Inr (v, Some w)"
proof -
  have "keep_loop (Some (v @ CHR 0x22 # w)) [CHR 0x22] False LEG acc = Inr (acc @ v, Some (CHR 0x22 # w))" for acc
    using assms
  proof (induction v arbitrary: acc)
    case Nil
    then show ?case using keep_loop_end [of "[CHR 0x22]" w] by simp
  qed (auto simp: keep_loop_Cons StringEqual_def GetChar_Cons)
  then show ?thesis using assms(3) by (simp add: ReadText_def)
qed

definition clause :: "string \<Rightarrow> string \<Rightarrow> string" where
  "clause n v = (if v \<noteq> [] then n @ [CHR ''='', CHR 0x22] @ v @ [CHR 0x22, CHR 0x20] else [])"

lemma Declaration_Print_clauses:
  "Declaration_Print (\<lambda>s. s) ver en sta
    = ''<?xml'' @ CHR 0x20 # clause ''version'' ver @ clause ''encoding'' en @ clause ''standalone'' sta @ ''?>''"
  by (simp add: Declaration_Print_def clause_def)

lemma decl_clause:
  assumes "v \<noteq> []" "good_declared v" "n = ''version'' \<or> n = ''encoding'' \<or> n = ''standalone''"
  shows "\<exists>d'. error d' = error d \<and> decl_loop (Suc k) condense LEG loc ver en sta (Some (CHR 0x20 # clause n v @ w)) d =
    decl_loop k condense LEG loc (if n = ''version'' then v else ver) (if n = ''encoding'' then v else en)
      (if n = ''standalone'' then v else sta) (Some (CHR 0x20 # w)) d'"
proof -
  let ?s = "n @ CHR ''='' # CHR 0x22 # v @ CHR 0x22 # CHR 0x20 # w"
  have n: "good_name n" using assms(3)
    by (auto simp: good_name_def name_start_def name_char_def IsAlpha_def IsAlphaNum_def c_isalnum_def c_isalpha_def uchar_def)
  obtain a d' where a: "Attribute_Parse condense False LEG (Some ?s) d = Inr (a, Some (CHR 0x20 # w), d')"
    "plain_attr a = \<lparr>aname = n, avalue = v, alocation = no_cursor\<rparr>" "error d' = error d"
    using Attribute_reads_text [OF n _ ReadText_declared [of v "CHR 0x20 # w" condense], of False d] assms(2)
    by (auto simp: good_declared_def reads_def)
  have v: "cstr v = v" using assms(2) by (simp add: good_declared_def cstr_id)
  from a(2) have av: "avalue a = v" by (metis plain_attr_def xattr.select_convs(2) xattr.surjective xattr.update_convs(3))
  have s: "CHR 0x20 # clause n v @ w = CHR 0x20 # ?s" using assms(1) by (simp add: clause_def)
  have sk: "SkipWhiteSpace (Some (CHR 0x20 # ?s)) LEG = Some ?s"
    using Skip_legacy [of ?s "'' ''"] n by (cases n) (auto simp: good_name_def name_start_white)
  show ?thesis
    unfolding s using sk a(1,3) av assms(3) v
    by (auto simp: StringEqual_def ToLower_def c_tolower_def schar_def intro!: exI [of _ d'])
qed

abbreviation given :: "string \<Rightarrow> nat" where
  "given v \<equiv> (if v = [] then 0 else 1)"

lemma decl_clause_run:
  assumes "good_declared v" "n = ''version'' \<or> n = ''encoding'' \<or> n = ''standalone''" "given v < k"
  shows "\<exists>d'. error d' = error d \<and> decl_loop k condense LEG loc ver en sta (Some (CHR 0x20 # clause n v @ w)) d =
    decl_loop (k - given v) condense LEG loc (if n = ''version'' \<and> v \<noteq> [] then v else ver)
      (if n = ''encoding'' \<and> v \<noteq> [] then v else en) (if n = ''standalone'' \<and> v \<noteq> [] then v else sta) (Some (CHR 0x20 # w)) d'"
proof (cases "v = []")
  case False
  obtain k' where "k = Suc k'" using assms(3) by (cases k) auto
  then show ?thesis using decl_clause [OF False assms(1,2), of d k' condense loc ver en sta w] False by simp
qed (auto simp: clause_def)

lemma decl_loop_close:
  "2 \<le> k \<Longrightarrow> decl_loop k condense LEG loc ver en sta (Some (CHR 0x20 # ''?>'' @ w)) d = Inr (XDeclaration loc ver en sta, Some w, d)"
proof -
  assume "2 \<le> k"
  then obtain m where k: "k = Suc (Suc m)" by (metis Suc_le_D numeral_2_eq_2 Suc_le_mono)
  have "SkipWhiteSpace (Some (CHR 0x20 # ''?>'' @ w)) LEG = Some (''?>'' @ w)"
    using Skip_legacy [of "''?>'' @ w" "'' ''"] by simp
  then show ?thesis unfolding k by (simp add: StringEqual_def ToLower_def c_tolower_def schar_def)
qed

lemma Declaration_reads:
  assumes g: "good_declared ver" "good_declared en" "good_declared sta"
    and n: "length (Declaration_Print (\<lambda>s. s) ver en sta @ w) \<le> n + 4"
  shows "reads strip (Declaration_Parse n condense LEG (Some (Declaration_Print (\<lambda>s. s) ver en sta @ w)) d)
    (XDeclaration no_cursor ver en sta) (Some w) (error d)"
proof -
  let ?c3 = "clause ''standalone'' sta @ ''?>'' @ w"
  let ?c2 = "clause ''encoding'' en @ ?c3"
  let ?c1 = "clause ''version'' ver @ ?c2"
  let ?s = "''<?xml'' @ CHR 0x20 # ?c1"
  have s: "Declaration_Print (\<lambda>s. s) ver en sta @ w = ?s" by (simp add: Declaration_Print_clauses)
  have f: "given ver + given en + given sta + 4 \<le> n"
    using n unfolding s by (auto simp: clause_def split: if_splits)
  have loop: "\<exists>d'. error d' = error d \<and> decl_loop n condense LEG loc '''' '''' '''' (Some (CHR 0x20 # ?c1)) d
      = Inr (XDeclaration loc ver en sta, Some w, d')" for loc d
  proof -
    have h: "given ver < n" "given en < n - given ver" "given sta < n - given ver - given en" using f by linarith+
    obtain d1 where 1: "error d1 = error d" "decl_loop n condense LEG loc '''' '''' '''' (Some (CHR 0x20 # ?c1)) d =
        decl_loop (n - given ver) condense LEG loc ver '''' '''' (Some (CHR 0x20 # ?c2)) d1"
      using decl_clause_run [OF g(1) _ h(1), where n = "''version''" and d = d and condense = condense and loc = loc
            and ver = "''''" and en = "''''" and sta = "''''" and w = "?c2"] by auto
    obtain d2 where 2: "error d2 = error d1" "decl_loop (n - given ver) condense LEG loc ver '''' '''' (Some (CHR 0x20 # ?c2)) d1 =
        decl_loop (n - given ver - given en) condense LEG loc ver en '''' (Some (CHR 0x20 # ?c3)) d2"
      using decl_clause_run [OF g(2) _ h(2), where n = "''encoding''" and d = d1 and condense = condense and loc = loc
            and ver = "ver" and en = "''''" and sta = "''''" and w = "?c3"] by auto
    obtain d3 where 3: "error d3 = error d2" "decl_loop (n - given ver - given en) condense LEG loc ver en '''' (Some (CHR 0x20 # ?c3)) d2 =
        decl_loop (n - given ver - given en - given sta) condense LEG loc ver en sta (Some (CHR 0x20 # ''?>'' @ w)) d3"
      using decl_clause_run [OF g(3) _ h(3), where n = "''standalone''" and d = d2 and condense = condense and loc = loc
            and ver = "ver" and en = "en" and sta = "''''" and w = "''?>'' @ w"] by auto
    have "2 \<le> n - given ver - given en - given sta" using f by simp
    then show ?thesis using 1 2 3 decl_loop_close [of "n - given ver - given en - given sta"] by auto
  qed
  have "SkipWhiteSpace (Some ?s) LEG = Some ?s" by (rule Skip_here) simp_all
  moreover have "StringEqual ?s ''<?xml'' True LEG = Inr True"
    using match_from_self [of "\<lambda>a b. ToLower LEG a = ToLower LEG b" "''<?xml''" "CHR 0x20 # ?c1"] by (simp add: StringEqual_def)
  moreover have "drop 5 ?s = CHR 0x20 # ?c1" by simp
  moreover have "reads strip (decl_loop n condense LEG loc '''' '''' '''' (Some (CHR 0x20 # ?c1)) d')
      (XDeclaration no_cursor ver en sta) (Some w) (error d)" if "error d' = error d" for loc d'
    using loop [of d' loc] that by auto
  ultimately show ?thesis unfolding s
    by (simp add: Declaration_Parse_def Let_def) (auto intro!: reads_stamp)
qed

section \<open>Nodes\<close>

definition kind :: "xnode \<Rightarrow> node_kind" where
  "kind n = (case n of XElement _ _ _ _ \<Rightarrow> Element_node | XComment _ _ \<Rightarrow> Comment_node | XUnknown _ _ \<Rightarrow> Unknown_node
     | XText _ _ _ \<Rightarrow> CDATA_node | XDeclaration _ _ _ _ \<Rightarrow> Declaration_node)"

lemma lower_mark: "ToLower LEG h = ToLower LEG (CHR ''?'') \<longleftrightarrow> h = CHR ''?''"
  using schar_eq_iff [of h "CHR ''?''"]
  by (auto simp: ToLower_def c_tolower_def Let_def schar_def split: if_splits)

lemma name_start_marks [simp]: "\<not> name_start (CHR ''!'')" "\<not> name_start (CHR ''?'')" "\<not> name_start (CHR ''/'')"
  by (simp_all add: name_start_def IsAlpha_def c_isalpha_def uchar_def)

definition node_here :: "node_kind \<Rightarrow> string \<Rightarrow> bool" where
  "node_here k s \<longleftrightarrow> SkipWhiteSpace (Some s) LEG = Some s \<and> hd s = CHR ''<'' \<and> s \<noteq> []
     \<and> StringEqual s ''</'' False LEG = Inr False \<and> Identify s LEG = Inr (Some k)"

lemma Identify_markup:
  assumes "printable n" "\<not> plain n"
  shows "node_here (kind n) (markup k n @ w)"
proof -
  have *: "node_here K ((CHR ''<'') # s)" if "Identify (CHR ''<'' # s) LEG = Inr (Some K)" "\<not> is_prefix ''/'' s" for K s
    using that Skip_here [of "CHR ''<'' # s"] by (cases s) (auto simp: StringEqual_def is_prefix_def node_here_def)
  have sk: "SkipWhiteSpace (Some (CHR ''<'' # s)) LEG = Some (CHR ''<'' # s)" for s by (rule Skip_here) simp_all
  show ?thesis
  proof (cases n)
    case (XElement loc v as cs)
    then obtain h t where v: "cstr v = h # t" "name_start h"
      using assms(1) encode_name [of v] by (cases v) (auto simp: good_name_def)
    then have h: "h \<noteq> CHR ''!''" "h \<noteq> CHR ''?''" "h \<noteq> CHR ''/''" by auto
    obtain r where "markup k n @ w = CHR ''<'' # h # r" using v(1) by (simp add: XElement start_tag_def)
    then show ?thesis
      using * [of "h # r" Element_node] h v(2) lower_mark [of h]
      by (auto simp: Identify_def sk StringEqual_def XElement kind_def is_prefix_def)
  next
    case (XUnknown loc v)
    then have v: "cstr v = v" "good_unknown v" using assms(1) cstr_id by (auto simp: good_unknown_def)
    have "Identify (CHR ''<'' # v @ CHR ''>'' # w) LEG = Inr (Some Unknown_node)"
    proof (cases v)
      case (Cons h t)
      have "match_from (=) (h # t @ CHR ''>'' # w) s \<Longrightarrow> CHR ''>'' \<notin> set s \<Longrightarrow> is_prefix s v" for s
      proof -
        have "match_from (=) (x @ CHR ''>'' # w) s \<Longrightarrow> CHR ''>'' \<notin> set s \<Longrightarrow> is_prefix s x" for x
          by (induction x arbitrary: s; case_tac s) (auto simp: is_prefix_def)
        from this [of v] show "match_from (=) (h # t @ CHR ''>'' # w) s \<Longrightarrow> CHR ''>'' \<notin> set s \<Longrightarrow> is_prefix s v"
          by (simp add: Cons)
      qed
      then have m: "\<not> match_from (=) (h # t @ CHR ''>'' # w) ''!--''" "\<not> match_from (=) (h # t @ CHR ''>'' # w) ''![CDATA[''"
        using v(2) by (auto simp: good_unknown_def)
      have h: "h \<noteq> CHR ''?''" "\<not> name_start h" using v(2) by (auto simp: good_unknown_def Cons is_prefix_def)
      then show ?thesis
        using m lower_mark [of h] by (simp add: Identify_def sk StringEqual_def Cons)
    qed (simp add: Identify_def sk StringEqual_def ToLower_def c_tolower_def schar_def name_start_def IsAlpha_def c_isalpha_def uchar_def)
    moreover have "\<not> is_prefix ''/'' (v @ CHR ''>'' # w)"
      using v(2) by (cases v) (auto simp: good_unknown_def is_prefix_def)
    ultimately show ?thesis using * [of "v @ CHR ''>'' # w" Unknown_node] v(1) by (simp add: XUnknown kind_def)
  next
    case (XDeclaration loc ver en sta)
    have "\<exists>r. markup k n @ w = ''<?xml '' @ r" by (simp add: XDeclaration Declaration_Print_def)
    then obtain r where "markup k n @ w = ''<?xml '' @ r" by blast
    then show ?thesis using * [of "''?xml '' @ r" Declaration_node]
      by (simp add: Identify_def sk StringEqual_def XDeclaration kind_def is_prefix_def)
  next
    case (XComment loc v)
    show ?thesis using * [of "''!--'' @ cstr v @ ''-->'' @ w" Comment_node]
      by (simp add: Identify_def sk StringEqual_def XComment kind_def is_prefix_def ToLower_def c_tolower_def schar_def)
  next
    case (XText loc v c)
    then have "c" using assms(2) by (simp add: plain_def is_text_def CDATA_def)
    then show ?thesis using * [of "''![CDATA['' @ cstr v @ '']]>'' @ w" CDATA_node]
      by (simp add: Identify_def sk StringEqual_def XText kind_def is_prefix_def ToLower_def c_tolower_def schar_def)
  qed
qed

section \<open>Elements and their values\<close>

lemma value_end:
  "SkipWhiteSpace p LEG = Some (''</'' @ y) \<Longrightarrow> ReadValue (Suc n) True LEG acc p d = Inr (acc, Some (''</'' @ y), d)"
  by (simp add: value_step_def StringEqual_def)

lemma value_text:
  assumes "good_text s" "list_all IsWhiteSpace ws" "y \<noteq> []" "SkipWhiteSpace p LEG = Some (EncodeString s @ ws @ CHR ''<'' # y)"
    and "\<And>t d'. strip t = XText no_cursor s False \<Longrightarrow> error d' = error d \<Longrightarrow>
      reads f (ReadValue n True LEG (acc @ [t]) (Some (CHR ''<'' # y)) d') x q e"
  shows "reads f (ReadValue (Suc n) True LEG acc p d) x q e"
proof -
  obtain c v where c: "EncodeString s = c # v" "c \<noteq> CHR ''<''" using good_text_start [OF assms(1)] by blast
  have "\<not> Blank t" if "strip t = XText no_cursor s False" for t
    using that assms(1) by (cases t) (auto simp: Blank_def good_text_def)
  then show ?thesis
    using assms(4,5) c Text_reads [OF assms(1-3), of d] by (auto simp: value_step_def intro!: reads_bindr)
qed

lemma value_node:
  assumes "SkipWhiteSpace p LEG = Some s" "node_here k s"
    and "reads strip (Node_Parse (Element_Parse n True LEG) n True LEG k s d) y q (error d)"
    and "\<And>t d'. strip t = y \<Longrightarrow> error d' = error d \<Longrightarrow> reads f (ReadValue n True LEG (acc @ [t]) q d') x q' e"
  shows "reads f (ReadValue (Suc n) True LEG acc p d) x q' e"
proof -
  obtain r where s: "s = CHR ''<'' # r" using assms(2) by (cases s) (auto simp: node_here_def)
  have "ReadValue (Suc n) True LEG acc p d = bindr (Node_Parse (Element_Parse n True LEG) n True LEG k s d) (\<lambda>(node, q, d).
      ReadValue n True LEG (acc @ [node]) q d)"
    using assms(1,2) unfolding s by (simp add: value_step_def node_here_def)
  then show ?thesis using assms(4) by (auto intro: reads_bindr [OF assms(3)])
qed

lemma value_skip: "SkipWhiteSpace p LEG = SkipWhiteSpace q LEG \<Longrightarrow>
    ReadValue (Suc n) True LEG acc p d = ReadValue (Suc n) True LEG acc q d"
  by (auto simp: value_step_def split: option.split list.split)

lemma indent_white [simp]: "list_all IsWhiteSpace (indent k)"
  by (induction k) (simp_all add: indent_def)



text \<open>What stands behind a child: white space and then a less-than sign.\<close>

abbreviation rest_lines :: "nat \<Rightarrow> xnode list \<Rightarrow> string \<Rightarrow> string" where
  "rest_lines k cs y \<equiv> concat (map (line (Suc k)) cs) @ indent k @ ''</'' @ y"

lemma markup_head: "printable n \<Longrightarrow> \<not> plain n \<Longrightarrow> \<exists>z. markup k n = CHR ''<'' # z"
  using Identify_markup [of n k "[]"] by (cases "markup k n") (auto simp: node_here_def)

lemma rest_head:
  assumes "list_all printable cs" "cs = [] \<or> \<not> plain (hd cs)" "y \<noteq> []"
  obtains ws z where "rest_lines k cs y = ws @ CHR ''<'' # z" "list_all IsWhiteSpace ws" "z \<noteq> []"
proof (cases cs)
  case Nil
  then show ?thesis using that [of "indent k" "CHR ''/'' # y"] by simp
next
  case (Cons c cs')
  then obtain z where "markup (Suc k) c = CHR ''<'' # z" using markup_head [of c "Suc k"] assms by auto
  then show ?thesis using that [of "indent (Suc k)" "z @ CHR 0x0A # rest_lines k cs' y"] Cons by simp
qed

lemma apart_tail: "apart (c # cs) \<Longrightarrow> apart cs \<and> (plain c \<longrightarrow> cs = [] \<or> \<not> plain (hd cs))"
  by (cases cs) auto

lemma value_lines:
  assumes "list_all printable cs" "apart cs" "y \<noteq> []" "length (rest_lines k cs y) + 1 < n"
    and "\<And>c w n d. c \<in> set cs \<Longrightarrow> \<not> plain c \<Longrightarrow> w \<noteq> [] \<Longrightarrow> length (markup (Suc k) c @ w) < n \<Longrightarrow>
      reads strip (Node_Parse (Element_Parse n True LEG) n True LEG (kind c) (markup (Suc k) c @ w) d) (strip c) (Some w) (error d)"
  shows "reads (map strip) (ReadValue n True LEG acc (Some (rest_lines k cs y)) d) (map strip (acc @ cs)) (Some (''</'' @ y)) (error d)"
  using assms
proof (induction cs arbitrary: n acc d)
  case Nil
  then obtain m where "n = Suc m" by (cases n) auto
  then show ?case
    using value_end [of "Some (indent k @ ''</'' @ y)" y m acc d] Skip_legacy [of "''</'' @ y" "indent k"] by simp
next
  case (Cons c cs)
  obtain m where n: "n = Suc m" using Cons.prems(4) by (cases n) auto
  let ?rest = "rest_lines k cs y"
  have p: "rest_lines k (c # cs) y = indent (Suc k) @ markup (Suc k) c @ CHR 0x0A # ?rest" by simp
  have l: "length ?rest + 1 < m" "length (markup (Suc k) c @ CHR 0x0A # ?rest) < m"
    using Cons.prems(4) unfolding p n by (auto simp: indent_def)
  have ap: "apart cs" "plain c \<Longrightarrow> cs = [] \<or> \<not> plain (hd cs)" using apart_tail [OF Cons.prems(2)] by auto
  have IH: "reads (map strip) (ReadValue m True LEG (acc @ [t]) (Some ?rest) d') (map strip (acc @ c # cs)) (Some (''</'' @ y)) (error d)"
    if "strip t = strip c" "error d' = error d" for t d'
  proof -
    have "reads (map strip) (ReadValue m True LEG (acc @ [t]) (Some ?rest) d') (map strip ((acc @ [t]) @ cs)) (Some (''</'' @ y)) (error d')"
      by (rule Cons.IH) (use Cons.prems(1,3,5) ap l in auto)
    then show ?thesis using that by simp
  qed
  obtain j where m: "m = Suc j" using l by (cases m) auto
  show ?case
  proof (cases "plain c")
    case True
    then obtain loc s where c: "c = XText loc s False" using is_plain by blast
    then have s: "good_text s" using Cons.prems(1) by simp
    obtain ws z where z: "?rest = ws @ CHR ''<'' # z" "list_all IsWhiteSpace ws" "z \<noteq> []"
      using rest_head [of cs y k] Cons.prems(1,3) ap True by auto
    obtain e v where e: "EncodeString s = e # v" "\<not> IsWhiteSpace e" using good_text_start [OF s] by blast
    have sk: "SkipWhiteSpace (Some (rest_lines k (c # cs) y)) LEG = Some (EncodeString s @ (CHR 0x0A # ws) @ CHR ''<'' # z)"
      using e Skip_legacy [of "EncodeString s @ (CHR 0x0A # ws) @ CHR ''<'' # z" "indent (Suc k)"] z(1)
      by (simp add: c del: EncodeString.simps)
    have "SkipWhiteSpace (Some ?rest) LEG = Some (CHR ''<'' # z)" unfolding z(1) by (rule Skip_legacy) (use z in simp_all)
    moreover have "SkipWhiteSpace (Some (CHR ''<'' # z)) LEG = Some (CHR ''<'' # z)" by (rule Skip_here) simp_all
    ultimately have "ReadValue m True LEG acc' (Some (CHR ''<'' # z)) d' = ReadValue m True LEG acc' (Some ?rest) d'" for acc' d'
      unfolding m by (intro value_skip) simp
    then show ?thesis unfolding n
      by (intro value_text [OF s _ z(3) sk]) (use IH c z(2) in auto)
  next
    case False
    let ?s = "markup (Suc k) c @ CHR 0x0A # ?rest"
    have here: "node_here (kind c) ?s" by (rule Identify_markup) (use Cons.prems(1) False in auto)
    then have sk: "SkipWhiteSpace (Some (rest_lines k (c # cs) y)) LEG = Some ?s"
      unfolding p by (intro Skip_legacy) (auto simp: node_here_def)
    have node: "reads strip (Node_Parse (Element_Parse m True LEG) m True LEG (kind c) ?s d) (strip c) (Some (CHR 0x0A # ?rest)) (error d)"
      by (rule Cons.prems(5)) (use l False in auto)
    have "ReadValue m True LEG acc' (Some (CHR 0x0A # ?rest)) d' = ReadValue m True LEG acc' (Some ?rest) d'" for acc' d'
      unfolding m by (intro value_skip) (use Skip_Some in simp)
    then show ?thesis unfolding n
      by (intro value_node [OF sk here node]) (use IH in auto)
  qed
qed

lemma good_name_cstr: "good_name v \<Longrightarrow> cstr v = v"
  using encode_name by (simp add: good_name_def)

lemma end_tag_reads: "end_tag LEG v e (Some (''</'' @ v @ ''>'' @ w)) d = Inr (e, Some w, d)"
proof -
  have "match_from (=) ((''</'' @ v) @ ''>'' @ w) (''</'' @ v)" by (rule match_from_append)
  then have "StringEqual (''</'' @ v @ ''>'' @ w) (''</'' @ v) False LEG = Inr True" by (simp add: StringEqual_def)
  moreover have "SkipWhiteSpace (Some (''>'' @ w)) LEG = Some (''>'' @ w)" by (rule Skip_here) simp_all
  ultimately show ?thesis by (simp add: end_tag_def)
qed

text \<open>The part of an element behind its attributes.\<close>

definition element_body :: "nat \<Rightarrow> string \<Rightarrow> xnode list \<Rightarrow> string" where
  "element_body k v cs = (if cs = [] then '' />''
     else ''>'' @ (if length cs = 1 \<and> plain (hd cs) then concat (map (markup k) cs)
       else [CHR 0x0A] @ concat (map (line (Suc k)) cs) @ indent k) @ ''</'' @ v @ ''>'')"

lemma body_reads:
  assumes "list_all printable cs" "apart cs" "length (element_body k v cs @ w) + 1 < n"
    and IH: "\<And>c w n d. c \<in> set cs \<Longrightarrow> \<not> plain c \<Longrightarrow> w \<noteq> [] \<Longrightarrow> length (markup (Suc k) c @ w) < n \<Longrightarrow>
      reads strip (Node_Parse (Element_Parse n True LEG) n True LEG (kind c) (markup (Suc k) c @ w) d) (strip c) (Some w) (error d)"
  shows "reads strip (attr_loop n True LEG loc v as (element_body k v cs @ w) d)
    (strip (XElement no_cursor v as cs)) (Some w) (error d)"
proof (cases "cs = []")
  case True
  obtain m where n: "n = Suc m" using assms(3) by (cases n) auto
  have "SkipWhiteSpace (Some ('' />'' @ w)) LEG = Some (''/>'' @ w)" using Skip_legacy [of "''/>'' @ w" "'' ''"] by simp
  then show ?thesis by (simp add: True n element_body_def attr_step_def)
next
  case False
  define body where "body = (if length cs = 1 \<and> plain (hd cs) then concat (map (markup k) cs)
       else [CHR 0x0A] @ concat (map (line (Suc k)) cs) @ indent k) @ ''</'' @ v @ ''>'' @ w"
  have s: "element_body k v cs @ w = CHR ''>'' # body" using False by (simp add: element_body_def body_def)
  obtain m where n: "n = Suc (Suc m)" "length body < m"
    using assms(3) unfolding s by (cases n; cases "n - 1") auto
  have kids: "reads (map strip) (ReadValue (Suc m) True LEG [] (Some body) d) (map strip cs) (Some (''</'' @ v @ ''>'' @ w)) (error d)"
  proof (cases "length cs = 1 \<and> plain (hd cs)")
    case True
    then obtain loc s where cs: "cs = [XText loc s False]"
      using is_plain [of "hd cs"] by (cases cs) auto
    then have g: "good_text s" using assms(1) by simp
    obtain e r where e: "EncodeString s = e # r" "\<not> IsWhiteSpace e" using good_text_start [OF g] by blast
    have b: "body = EncodeString s @ [] @ CHR ''<'' # (''/'' @ v @ ''>'' @ w)"
      using True by (simp add: body_def cs del: EncodeString.simps)
    then have sk: "SkipWhiteSpace (Some body) LEG = Some (EncodeString s @ [] @ CHR ''<'' # (''/'' @ v @ ''>'' @ w))"
      using e Skip_here [of body] by simp
    obtain j where m: "m = Suc j" using n(2) by (cases m) auto
    have "SkipWhiteSpace (Some (''</'' @ v @ ''>'' @ w)) LEG = Some (''</'' @ v @ ''>'' @ w)" by (rule Skip_here) simp_all
    then have "ReadValue m True LEG [t] (Some (''</'' @ v @ ''>'' @ w)) d' = Inr ([t], Some (''</'' @ v @ ''>'' @ w), d')" for t d'
      unfolding m by (rule value_end)
    then show ?thesis
      by (intro value_text [OF g _ _ sk]) (auto simp: cs)
  next
    case f: False
    let ?rest = "rest_lines k cs (v @ ''>'' @ w)"
    have b: "body = CHR 0x0A # ?rest" using f by (simp only: body_def if_False) simp
    have "ReadValue (Suc m) True LEG [] (Some body) d = ReadValue (Suc m) True LEG [] (Some ?rest) d"
      unfolding b by (rule value_skip) (simp add: Skip_Some)
    moreover have "reads (map strip) (ReadValue (Suc m) True LEG [] (Some ?rest) d) (map strip ([] @ cs)) (Some (''</'' @ v @ ''>'' @ w)) (error d)"
      by (rule value_lines) (use assms n(2) b in auto)
    ultimately show ?thesis by simp
  qed
  have sk: "SkipWhiteSpace (Some (CHR ''>'' # body)) LEG = Some (CHR ''>'' # body)" by (rule Skip_here) simp_all
  have "attr_loop n True LEG loc v as (CHR ''>'' # body) d = bindr (ReadValue (Suc m) True LEG [] (Some body) d) (\<lambda>(children, q, d).
      end_tag LEG v (XElement loc v as children) q d)"
    using sk unfolding n by (simp add: attr_step_def del: ReadValue.simps)
  then show ?thesis unfolding s
    by (auto intro!: reads_bindr [OF kids] simp: end_tag_reads [simplified] simp del: ReadValue.simps)
qed

lemma node_reads:
  "printable x \<Longrightarrow> \<not> plain x \<Longrightarrow> w \<noteq> [] \<Longrightarrow> length (markup k x @ w) < n \<Longrightarrow>
    reads strip (Node_Parse (Element_Parse n True LEG) n True LEG (kind x) (markup k x @ w) d) (strip x) (Some w) (error d)"
proof (induction x arbitrary: k w n d)
  case (XElement loc v as cs)
  let ?body = "element_body k v cs @ w"
  have v: "good_name v" "good_attrs as" "list_all printable cs" "apart cs" "cstr v = v"
    using XElement.prems(1) good_name_cstr by auto
  have s: "markup k (XElement loc v as cs) @ w = CHR ''<'' # v @ attrs_text as @ ?body"
    using v(5) attr_walk_good [OF v(2)] by (simp add: start_tag_def element_body_def)
  obtain e r where e: "attrs_text as @ ?body = e # r" "\<not> name_char e"
  proof (cases as)
    case Nil
    have "\<exists>e r. ?body = e # r \<and> \<not> name_char e" by (simp add: element_body_def)
    then show ?thesis using that Nil by auto
  qed (use that in simp)
  have "?body \<noteq> []" by (simp add: element_body_def)
  have vl: "0 < length v" using v(1) by (simp add: good_name_def)
  obtain m where n: "n = Suc m" "length (attrs_text as @ ?body) + 1 < m"
  proof (cases n)
    case (Suc m)
    have "length v + length (attrs_text as @ ?body) < m" using XElement.prems(4) unfolding s by (simp add: Suc)
    then have "length (attrs_text as @ ?body) + 1 < m" using vl by linarith
    then show ?thesis using that Suc by blast
  qed (use XElement.prems(4) in simp)
  have IH: "reads strip (Node_Parse (Element_Parse n True LEG) n True LEG (kind c) (markup (Suc k) c @ w) d) (strip c) (Some w) (error d)"
    if "c \<in> set cs" "\<not> plain c" "w \<noteq> []" "length (markup (Suc k) c @ w) < n" for c w n d
    by (rule XElement.IH) (use that v(3) in \<open>auto simp: list_all_iff\<close>)
  have attrs: "reads strip (attr_loop m True LEG loc' v [] (attrs_text as @ ?body) d')
      (strip (XElement loc v as cs)) (Some w) (error d)" if err: "error d' = error d" for loc' d'
  proof -
    obtain j as' d'' where j: "attr_loop m True LEG loc' v [] (attrs_text as @ ?body) d'
        = attr_loop j True LEG loc' v ([] @ as') ?body d''"
      "map plain_attr as' = map plain_attr as" "error d'' = error d'" "length ?body + 1 < j"
      using attr_loop_reads [of as "[]" ?body m True loc' v d'] v(2) n(2) \<open>?body \<noteq> []\<close> by (auto simp: good_attrs_def)
    have "reads strip (attr_loop j True LEG loc' v as' ?body d'') (strip (XElement no_cursor v as' cs)) (Some w) (error d'')"
      by (rule body_reads [OF v(3,4) j(4) IH])
    moreover have "map (\<lambda>a. a\<lparr>alocation := no_cursor\<rparr>) as' = map (\<lambda>a. a\<lparr>alocation := no_cursor\<rparr>) as"
      using j(2) by (simp add: plain_attr_def [abs_def])
    ultimately show ?thesis using j(1,3) err by simp
  qed
  have "SkipWhiteSpace (Some (CHR ''<'' # v @ e # r)) LEG = Some (CHR ''<'' # v @ e # r)" by (rule Skip_here) simp_all
  then show ?case
    unfolding s n(1) e(1) Node_Parse_def kind_def
    using good_name_read [OF v(1) e(2), of r] attrs [unfolded e(1)]
    by (auto simp: element_step_def Let_def e(1) simp del: attr_loop.simps intro!: reads_stamp)
next
  case (XText loc v c)
  then have "c" by (simp add: plain_def is_text_def CDATA_def)
  then show ?case using XText CDATA_reads [of v w True d] cstr_id [of v]
    by (simp add: Node_Parse_def kind_def)
next
  case (XUnknown loc v)
  then show ?case using Unknown_reads [of v w d] cstr_id [of v] by (simp add: Node_Parse_def kind_def good_unknown_def)
next
  case (XComment loc v)
  then show ?case using Comment_reads [of v w d] cstr_id [of v] by (simp add: Node_Parse_def kind_def)
next
  case (XDeclaration loc ver en sta)
  then show ?case using Declaration_reads [of ver en sta w n True d] by (simp add: Node_Parse_def kind_def)
qed

section \<open>Documents\<close>

lemma encode_char_NUL: "NUL \<notin> set (encode_char c)"
proof -
  have "hex_value NUL = None" by (simp add: hex_value_def schar_def)
  then have h: "hex_digit n \<noteq> NUL" if "n < 16" for n
    using hex_digit_value [OF that] by auto
  have "uchar c < 32 \<Longrightarrow> hex_digit (uchar c div 16) \<noteq> NUL \<and> hex_digit (uchar c mod 16) \<noteq> NUL"
    by (intro conjI h) simp_all
  moreover have "c = NUL \<Longrightarrow> uchar c < 32" by (simp add: uchar_def)
  ultimately show ?thesis by (auto simp: encode_char_cases)
qed

lemma encode_NUL: "no_reference s \<Longrightarrow> NUL \<notin> set (EncodeString s)"
proof (induction s)
  case (Cons c s)
  then show ?case using encode_step [OF Cons.prems] encode_char_NUL no_reference_drop [OF Cons.prems, of 1] by auto
qed (simp add: EncodeString.simps)

lemma Attribute_Print_NUL: "good_name (aname a) \<Longrightarrow> no_reference (avalue a) \<Longrightarrow> NUL \<notin> set (Attribute_Print (\<lambda>s. s) a)"
proof -
  assume "good_name (aname a)" "no_reference (avalue a)"
  moreover from this have "NUL \<notin> set (aname a)" using good_name_cstr [of "aname a"] NUL_notin_cstr by metis
  ultimately show ?thesis using encode_NUL [of "avalue a"] by (auto elim!: Attribute_Print_good)
qed

lemma markup_NUL: "printable n \<Longrightarrow> NUL \<notin> set (markup k n)"
proof (induction n arbitrary: k)
  case (XElement loc v as cs)
  have "NUL \<notin> set (start_tag v as)"
    using XElement.prems attr_walk_good [of as] by (auto simp: start_tag_def good_attrs_def list_all_iff dest: Attribute_Print_NUL)
  moreover have "NUL \<notin> set (indent k)" for k by (simp add: indent_def)
  ultimately show ?case using XElement by (auto simp: list_all_iff)
next
  case (XDeclaration loc ver en sta)
  then show ?case by (simp add: Declaration_Print_def good_declared_def)
qed (auto simp: encode_NUL good_text_def cstr_def dest: set_takeWhileD)

lemma doc_loop_reads:
  assumes "list_all (\<lambda>n. printable n \<and> \<not> plain n) ns" "length (concat (map (line 0) ns)) + 1 < n"
  shows "\<exists>ms d'. doc_loop n True LEG acc (Some (concat (map (line 0) ns))) d = Inr (acc @ ms, Some [], LEG, d')
    \<and> map strip ms = map strip ns \<and> error d' = error d"
  using assms
proof (induction ns arbitrary: n acc d)
  case Nil
  then show ?case by (cases n) auto
next
  case (Cons x ns)
  let ?rest = "concat (map (line 0) ns)"
  let ?s = "markup 0 x @ CHR 0x0A # ?rest"
  have s: "concat (map (line 0) (x # ns)) = ?s" by (simp add: indent_def)
  obtain m where n: "n = Suc m" using Cons.prems(2) by (cases n) auto
  have here: "node_here (kind x) ?s" by (rule Identify_markup) (use Cons.prems in auto)
  then have l: "length ?s < m" "length ?rest + 1 < m" "?s \<noteq> []"
    using Cons.prems(2) unfolding s n by (auto simp: node_here_def)
  have "reads strip (Node_Parse (Element_Parse m True LEG) m True LEG (kind x) ?s d) (strip x) (Some (CHR 0x0A # ?rest)) (error d)"
    by (rule node_reads) (use Cons.prems l in auto)
  then obtain y d1 where y: "Node_Parse (Element_Parse m True LEG) m True LEG (kind x) ?s d = Inr (y, Some (CHR 0x0A # ?rest), d1)"
    "strip y = strip x" "error d1 = error d" by (auto simp: reads_def)
  have "SkipWhiteSpace (Some (CHR 0x0A # ?rest)) LEG = Some ?rest"
  proof (cases ns)
    case (Cons z zs)
    then obtain t where "markup 0 z = CHR ''<'' # t" using markup_head [of z 0] Cons.prems by auto
    then show ?thesis using Skip_legacy [of ?rest "[CHR 0x0A]"] by (simp add: Cons indent_def)
  qed (simp add: Skip_Some)
  moreover have "declared_encoding LEG y = Inr LEG" by (cases y) (simp_all add: declared_encoding_def)
  ultimately have "doc_loop n True LEG acc (Some ?s) d = doc_loop m True LEG (acc @ [y]) (Some ?rest) d1"
    using here y(1) l(3) by (simp add: n node_here_def)
  moreover obtain ms d2 where "doc_loop m True LEG (acc @ [y]) (Some ?rest) d1 = Inr ((acc @ [y]) @ ms, Some [], LEG, d2)"
    "map strip ms = map strip ns" "error d2 = error d1"
    using Cons.IH [OF _ l(2), of "acc @ [y]" d1] Cons.prems(1) by auto
  ultimately show ?case unfolding s using y(2,3) by (intro exI [of _ "y # ms"] exI [of _ d2]) simp
qed

lemma printed_document_parses:
  assumes "ns \<noteq> []" "list_all (\<lambda>n. printable n \<and> \<not> plain n) ns"
  shows "\<exists>ms d'. Document_Parse True [] (Some (PrintS ns)) None TIXML_ENCODING_LEGACY d = Inr (ms, Some [], d')
    \<and> map strip ms = map strip ns \<and> \<not> error d'"
proof -
  let ?p = "concat (map (line 0) ns)"
  have "NUL \<notin> set ?p" using assms(2) markup_NUL by (auto simp: list_all_iff indent_def)
  then have p: "PrintS ns = ?p" by (simp add: PrintS_lines cstr_id)
  obtain x xs where ns: "ns = x # xs" using assms(1) by (cases ns) auto
  then obtain t where t: "?p = CHR ''<'' # t" using markup_head [of x 0] assms(2) by (auto simp: indent_def)
  have sk: "SkipWhiteSpace (Some ?p) LEG = Some ?p" unfolding t by (rule Skip_here) simp_all
  define D where "D = (ClearError d)\<lparr>d_location := \<lparr>row = 0, col = 0\<rparr>, d_text := ?p,
      d_data := TiXmlParsingData 0 (d_tabsize d) 0 0, useMicrosoftBOM := useMicrosoftBOM d\<rparr>"
  obtain ms d' where "doc_loop (length ?p + 3) True LEG [] (Some ?p) D = Inr (ms, Some [], LEG, d')"
    "map strip ms = map strip ns" "error d' = error D"
    using doc_loop_reads [OF assms(2), of "length ?p + 3" "[]" D] by auto
  moreover have "\<not> error D" by (simp add: D_def ClearError_def)
  moreover have "ms \<noteq> []" using calculation(2) ns by auto
  ultimately show ?thesis
    using sk unfolding p Document_Parse_def Let_def
    by (simp add: t D_def ClearError_def del: doc_loop.simps)
qed

text \<open>C2:
  What PrintS writes for a document of printable nodes is parsed back to the same nodes, apart from
  their positions, without an error and to the end of the text, in the legacy encoding and with
  white space condensed. Printable are: names that ReadName takes whole, distinct attribute
  names, values and texts without the text of a character reference, texts that condensing does
  not change and that stand apart, comments, sections and unknown nodes that do not contain their own end.\<close>

theorem print_parse_roundtrip:
  assumes "ns \<noteq> []" "list_all (\<lambda>n. printable n \<and> \<not> plain n) ns"
  shows "\<exists>ms d'. Document_Parse True [] (Some (PrintS ns)) None TIXML_ENCODING_LEGACY d = Inr (ms, Some [], d')
    \<and> map strip ms = map strip ns \<and> \<not> error d'"
  using assms by (rule printed_document_parses)

lemma no_reference_free: "CHR ''#'' \<notin> set s \<Longrightarrow> no_reference s"
proof -
  assume s: "CHR ''#'' \<notin> set s"
  have "take 3 (drop i s) = ''&#x'' \<Longrightarrow> CHR ''#'' \<in> set s" for i
    using set_take_subset [of 3 "drop i s"] set_drop_subset [of i s] by auto
  then show ?thesis using s by (auto simp: no_reference_def)
qed

theorem print_parse_roundtrip_witness:
  "\<exists>ms d'. Document_Parse True [] (Some (PrintS
      [XDeclaration no_cursor ''1.0'' '''' '''',
       XElement no_cursor ''a'' [\<lparr>aname = ''k'', avalue = ''<1>'', alocation = no_cursor\<rparr>]
         [XElement no_cursor ''b'' [] [XText no_cursor ''x & y'' False], XComment no_cursor '' c '']])) None TIXML_ENCODING_LEGACY
      new_document = Inr (ms, Some [], d')
    \<and> map strip ms =
      [XDeclaration no_cursor ''1.0'' '''' '''',
       XElement no_cursor ''a'' [\<lparr>aname = ''k'', avalue = ''<1>'', alocation = no_cursor\<rparr>]
         [XElement no_cursor ''b'' [] [XText no_cursor ''x & y'' False], XComment no_cursor '' c '']] \<and> \<not> error d'"
proof -
  have nr: "no_reference ''<1>''" "no_reference ''x & y''" by (rule no_reference_free; simp)+
  have "free_of ''-->'' '' c ''" by (simp add: free_of_def is_prefix_def numeral_3_eq_3 less_Suc_eq)
  moreover have "name_char (CHR ''a'')" "name_char (CHR ''b'')" "name_char (CHR ''k'')"
      "name_start (CHR ''a'')" "name_start (CHR ''b'')" "name_start (CHR ''k'')"
    by (simp_all add: name_char_def name_start_def IsAlpha_def IsAlphaNum_def c_isalnum_def c_isalpha_def uchar_def)
  moreover have "\<not> IsWhiteSpace (CHR ''x'')" by (simp add: IsWhiteSpace_def c_isspace_def uchar_def)
  ultimately have "list_all (\<lambda>n. printable n \<and> \<not> plain n)
      [XDeclaration no_cursor ''1.0'' '''' '''',
       XElement no_cursor ''a'' [\<lparr>aname = ''k'', avalue = ''<1>'', alocation = no_cursor\<rparr>]
         [XElement no_cursor ''b'' [] [XText no_cursor ''x & y'' False], XComment no_cursor '' c '']]"
    using nr by (simp add: plain_def is_text_def CDATA_def good_name_def good_attrs_def good_text_def good_declared_def)
  from print_parse_roundtrip [OF _ this, of new_document] show ?thesis by simp
qed

section \<open>Line ends\<close>

definition ends :: "string \<Rightarrow> string \<Rightarrow> string" where
  "ends e s = concat (map (\<lambda>c. if c = CHR 0x0A then e else [c]) s)"

lemma normalize_Cons: "normalize (c # r) = (if c = NUL then []
    else if c = CHR 0x0D then CHR 0x0A # (if take 1 r = [CHR 0x0A] then normalize (drop 1 r) else normalize r)
    else c # normalize r)"
  by simp

lemma normalize_plain: "NUL \<notin> set s \<Longrightarrow> CHR 0x0D \<notin> set s \<Longrightarrow> normalize s = s"
  by (induction s) auto

lemma normalize_clean: "NUL \<notin> set (normalize s) \<and> CHR 0x0D \<notin> set (normalize s)"
  by (induction s rule: normalize.induct) auto

lemma normalize_ends:
  assumes "e \<in> {[CHR 0x0A], [CHR 0x0D], [CHR 0x0D, CHR 0x0A]}"
  shows "NUL \<notin> set s \<Longrightarrow> CHR 0x0D \<notin> set s \<Longrightarrow> normalize (ends e s) = s"
proof (induction s)
  case (Cons c s)
  have t: "take 1 (ends e s) = [CHR 0x0A] \<Longrightarrow> e = [CHR 0x0A]"
    using assms Cons.prems by (cases s) (auto simp: ends_def split: if_splits)
  have s: "ends e (c # s) = (if c = CHR 0x0A then e else [c]) @ ends e s" by (simp add: ends_def)
  have IH: "normalize (ends e s) = s" "c \<noteq> NUL" "c \<noteq> CHR 0x0D" using Cons by auto
  consider "c \<noteq> CHR 0x0A \<or> e = [CHR 0x0A]" | "c = CHR 0x0A" "e = [CHR 0x0D]" | "c = CHR 0x0A" "e = [CHR 0x0D, CHR 0x0A]"
    using assms by auto
  then show ?case
  proof cases
    case 1
    then show ?thesis unfolding s using IH by auto
  next
    case 2
    then have "take 1 (ends e s) \<noteq> [CHR 0x0A]" using t by auto
    then show ?thesis unfolding s using IH 2 by simp
  next
    case 3
    then show ?thesis unfolding s using IH by simp
  qed
qed (simp add: ends_def)

text \<open>C38:
  LoadFile reads a file with LF, CR or CR+LF line ends as if all were LF; what it hands to
  Parse contains no CR and no terminator and would not be changed a second time.\<close>

theorem load_any_line_ends:
  assumes "e \<in> {[CHR 0x0A], [CHR 0x0D], [CHR 0x0D, CHR 0x0A]}" "NUL \<notin> set s" "CHR 0x0D \<notin> set s"
  shows "LoadFile condense (Some (ends e s)) True enc children d = LoadFile condense (Some s) True enc children d
    \<and> normalize (ends e s) = s \<and> CHR 0x0D \<notin> set (normalize t) \<and> normalize (normalize t) = normalize t"
proof -
  have "ends e s = [] \<longleftrightarrow> s = []" using assms(1) by (cases s) (auto simp: ends_def)
  then show ?thesis
    using normalize_ends [OF assms] normalize_plain [OF assms(2,3)] normalize_clean [of t] normalize_plain [of "normalize t"]
    by (simp add: LoadFile_def Let_def)
qed

theorem load_any_line_ends_witness:
  "LoadFile True (Some [CHR ''<'', CHR ''a'', CHR 0x0D, CHR ''/'', CHR ''>'', CHR 0x0D]) True TIXML_ENCODING_LEGACY [] new_document
    = LoadFile True (Some [CHR ''<'', CHR ''a'', CHR 0x0A, CHR ''/'', CHR ''>'', CHR 0x0A]) True TIXML_ENCODING_LEGACY [] new_document"
  using load_any_line_ends [of "[CHR 0x0D]" "[CHR ''<'', CHR ''a'', CHR 0x0A, CHR ''/'', CHR ''>'', CHR 0x0A]" True
      TIXML_ENCODING_LEGACY "[]" new_document "[]"]
  by (simp add: ends_def)

end
