(* ===== verification/XmlElem.thy ===== *)
theory XmlElem
  imports XmlPrint
begin

text \<open>
  The attributes of an element (\<open>tinyxml.cpp\<close> 437-452, 548-735, 1243-1288, 1507-1600): the attribute
  set, from its first to its last attribute, and the members of \<open>TiXmlElement\<close> that read and set
  attributes by name. Every argument is a C string. What the C runtime makes of a double, as text and from a
  text, is a parameter.
\<close>

section \<open>The attribute set\<close>

definition named :: "string \<Rightarrow> xattr \<Rightarrow> bool" where
  "named name a \<longleftrightarrow> cstr (aname a) = cstr name"

definition Find :: "string \<Rightarrow> xattr list \<Rightarrow> xattr option" where
  "Find name as = find (named name) as"

definition Add :: "xattr \<Rightarrow> xattr list \<Rightarrow> xattr list res" where
  "Add a as = (if Find (aname a) as \<noteq> None then Inl Assert_failed else Inr (as @ [a]))"

text \<open>An assignment through the pointer to the first attribute of a name.\<close>

fun at_first :: "('a \<Rightarrow> bool) \<Rightarrow> ('a \<Rightarrow> 'a) \<Rightarrow> 'a list \<Rightarrow> 'a list" where
  "at_first P f [] = []"
| "at_first P f (x # xs) = (if P x then f x # xs else x # at_first P f xs)"

text \<open>A new attribute is added before it gets its name.\<close>

definition FindOrCreate :: "string \<Rightarrow> xattr list \<Rightarrow> xattr list res" where
  "FindOrCreate name as =
     (if Find name as \<noteq> None then Inr as
      else let new = \<lparr>aname = '''', avalue = '''', alocation = no_cursor\<rparr>
           in bindr (Add new as) (\<lambda>as. Inr (butlast as @ [(last as)\<lparr>aname := cstr name\<rparr>])))"

fun remove_first :: "('a \<Rightarrow> bool) \<Rightarrow> 'a list \<Rightarrow> 'a list" where
  "remove_first P [] = []"
| "remove_first P (x # xs) = (if P x then xs else x # remove_first P xs)"

definition RemoveAttribute :: "string \<Rightarrow> xattr list \<Rightarrow> xattr list" where
  "RemoveAttribute name as = (if Find name as \<noteq> None then remove_first (named name) as else as)"

section \<open>Numbers\<close>

definition print_int :: "int \<Rightarrow> string" where
  "print_int i = (if i < 0 then CHR ''-'' # decimal (nat (- i)) else decimal (nat i))"

definition c_isdigit :: "char \<Rightarrow> bool" where
  "c_isdigit c \<longleftrightarrow> 48 \<le> uchar c \<and> uchar c \<le> 57"

fun scan_digits :: "int \<Rightarrow> string \<Rightarrow> int" where
  "scan_digits acc [] = acc"
| "scan_digits acc (c # r) = (if c_isdigit c then scan_digits (10 * acc + int (uchar c) - 48) r else acc)"

text \<open>
  \<open>sscanf(s, "%d", i)\<close>: \<open>None\<close> if there is no number behind the white space. A number that
  is no int has no defined result.
\<close>

definition scan_int :: "string \<Rightarrow> int option res" where
  "scan_int s = (let s = dropWhile (\<lambda>c. c_isspace (uchar c)) (cstr s);
       neg = (take 1 s = ''-'');
       r = (if take 1 s = ''-'' \<or> take 1 s = ''+'' then drop 1 s else s)
     in if r = [] \<or> \<not> c_isdigit (hd r) then Inr None
        else let i = (if neg then - scan_digits 0 r else scan_digits 0 r)
             in if - (2 ^ 31) \<le> i \<and> i < 2 ^ 31 then Inr (Some i) else Inl Int_overflow)"

section \<open>Attributes by name\<close>

definition Attribute :: "string \<Rightarrow> xattr list \<Rightarrow> string option" where
  "Attribute name as = map_option (\<lambda>a. cstr (avalue a)) (Find name as)"

definition SetAttribute :: "string \<Rightarrow> string \<Rightarrow> xattr list \<Rightarrow> xattr list res" where
  "SetAttribute name val as = bindr (FindOrCreate name as) (\<lambda>as.
     Inr (at_first (named name) (\<lambda>a. a\<lparr>avalue := cstr val\<rparr>) as))"

definition SetIntValue :: "int \<Rightarrow> xattr \<Rightarrow> xattr" where
  "SetIntValue i a = a\<lparr>avalue := print_int i\<rparr>"

definition SetAttribute_int :: "string \<Rightarrow> int \<Rightarrow> xattr list \<Rightarrow> xattr list res" where
  "SetAttribute_int name i as = bindr (FindOrCreate name as) (\<lambda>as.
     Inr (at_first (named name) (SetIntValue i) as))"

text \<open>The codes of the Query members.\<close>

definition TIXML_SUCCESS :: int where "TIXML_SUCCESS = 0"
definition TIXML_NO_ATTRIBUTE :: int where "TIXML_NO_ATTRIBUTE = 1"
definition TIXML_WRONG_TYPE :: int where "TIXML_WRONG_TYPE = 2"

text \<open>The code and the variable behind the pointer.\<close>

definition QueryIntValue :: "xattr \<Rightarrow> int \<Rightarrow> (int \<times> int) res" where
  "QueryIntValue a ival = bindr (scan_int (avalue a)) (\<lambda>n. case n of
      Some i \<Rightarrow> Inr (TIXML_SUCCESS, i)
    | None \<Rightarrow> Inr (TIXML_WRONG_TYPE, ival))"

definition QueryIntAttribute :: "string \<Rightarrow> xattr list \<Rightarrow> int \<Rightarrow> (int \<times> int) res" where
  "QueryIntAttribute name as ival = (case Find name as of
      None \<Rightarrow> Inr (TIXML_NO_ATTRIBUTE, ival)
    | Some a \<Rightarrow> QueryIntValue a ival)"

definition QueryUnsignedAttribute :: "string \<Rightarrow> xattr list \<Rightarrow> uint32 \<Rightarrow> (int \<times> uint32) res" where
  "QueryUnsignedAttribute name as val = (case Find name as of
      None \<Rightarrow> Inr (TIXML_NO_ATTRIBUTE, val)
    | Some a \<Rightarrow> bindr (QueryIntValue a 0) (\<lambda>(r, ival). Inr (r, of_int ival)))"

text \<open>\<open>Attribute(name, i)\<close>: the value and the variable.\<close>

definition Attribute_int :: "string \<Rightarrow> xattr list \<Rightarrow> int option \<Rightarrow> (string option \<times> int option) res" where
  "Attribute_int name as i = (case Find name as of
      None \<Rightarrow> Inr (None, i)
    | Some a \<Rightarrow> (case i of
        None \<Rightarrow> Inr (Some (cstr (avalue a)), None)
      | Some ival \<Rightarrow> bindr (QueryIntValue a ival) (\<lambda>(r, ival). Inr (Some (cstr (avalue a)), Some ival))))"

text \<open>
  Doubles: \<open>printg\<close> is what \<open>"%g"\<close> writes, \<open>scanlf\<close> what \<open>"%lf"\<close> reads, \<open>atof\<close> and \<open>to_float\<close> are the conversions
  of the same names.
\<close>

definition SetDoubleValue :: "('d \<Rightarrow> string) \<Rightarrow> 'd \<Rightarrow> xattr \<Rightarrow> xattr" where
  "SetDoubleValue printg d a = a\<lparr>avalue := cstr (printg d)\<rparr>"

definition SetDoubleAttribute :: "('d \<Rightarrow> string) \<Rightarrow> string \<Rightarrow> 'd \<Rightarrow> xattr list \<Rightarrow> xattr list res" where
  "SetDoubleAttribute printg name d as = bindr (FindOrCreate name as) (\<lambda>as.
     Inr (at_first (named name) (SetDoubleValue printg d) as))"

definition QueryDoubleValue :: "(string \<Rightarrow> 'd option) \<Rightarrow> xattr \<Rightarrow> 'd \<Rightarrow> int \<times> 'd" where
  "QueryDoubleValue scanlf a dval = (case scanlf (cstr (avalue a)) of
      Some d \<Rightarrow> (TIXML_SUCCESS, d)
    | None \<Rightarrow> (TIXML_WRONG_TYPE, dval))"

definition QueryDoubleAttribute :: "(string \<Rightarrow> 'd option) \<Rightarrow> string \<Rightarrow> xattr list \<Rightarrow> 'd \<Rightarrow> int \<times> 'd" where
  "QueryDoubleAttribute scanlf name as dval = (case Find name as of
      None \<Rightarrow> (TIXML_NO_ATTRIBUTE, dval)
    | Some a \<Rightarrow> QueryDoubleValue scanlf a dval)"

text \<open>\<open>d\<close> is the local variable, with whatever it holds.\<close>

definition QueryFloatAttribute :: "('d \<Rightarrow> 'e) \<Rightarrow> (string \<Rightarrow> 'd option) \<Rightarrow> 'd \<Rightarrow> string \<Rightarrow> xattr list \<Rightarrow> 'e \<Rightarrow> int \<times> 'e" where
  "QueryFloatAttribute to_float scanlf d name as val = (case QueryDoubleAttribute scanlf name as d of
      (result, d) \<Rightarrow> if result = TIXML_SUCCESS then (result, to_float d) else (result, val))"

definition Attribute_double :: "(string \<Rightarrow> 'd option) \<Rightarrow> string \<Rightarrow> xattr list \<Rightarrow> 'd option \<Rightarrow> string option \<times> 'd option" where
  "Attribute_double scanlf name as d = (case Find name as of
      None \<Rightarrow> (None, d)
    | Some a \<Rightarrow> (case d of
        None \<Rightarrow> (Some (cstr (avalue a)), None)
      | Some dval \<Rightarrow> (Some (cstr (avalue a)), Some (snd (QueryDoubleValue scanlf a dval)))))"

text \<open>\<open>atoi\<close> of a text without a number is 0; of a number that is no int it is not defined.\<close>

definition IntValue :: "xattr \<Rightarrow> int res" where
  "IntValue a = bindr (scan_int (avalue a)) (\<lambda>n. Inr (case n of None \<Rightarrow> 0 | Some i \<Rightarrow> i))"

definition DoubleValue :: "(string \<Rightarrow> 'd) \<Rightarrow> xattr \<Rightarrow> 'd" where
  "DoubleValue atof a = atof (cstr (avalue a))"

definition one_of :: "string \<Rightarrow> string list \<Rightarrow> bool res" where
  "one_of v tags = foldr_res (\<lambda>tag b. if b then Inr True else StringEqual (cstr v) tag True TIXML_ENCODING_UNKNOWN) tags False"

definition QueryBoolAttribute :: "string \<Rightarrow> xattr list \<Rightarrow> bool \<Rightarrow> (int \<times> bool) res" where
  "QueryBoolAttribute name as bval = (case Find name as of
      None \<Rightarrow> Inr (TIXML_NO_ATTRIBUTE, bval)
    | Some a \<Rightarrow> bindr (one_of (avalue a) [''true'', ''yes'', ''1'']) (\<lambda>t.
        if t then Inr (TIXML_SUCCESS, True)
        else bindr (one_of (avalue a) [''false'', ''no'', ''0'']) (\<lambda>f.
          if f then Inr (TIXML_SUCCESS, False) else Inr (TIXML_WRONG_TYPE, bval))))"

text \<open>\<open>GetText\<close>: the value of the first child if that is a text.\<close>

definition GetText :: "xnode list \<Rightarrow> string option" where
  "GetText children = (case children of XText _ v _ # _ \<Rightarrow> Some (cstr v) | _ \<Rightarrow> None)"

section \<open>The attributes as a map\<close>

definition attr_map :: "xattr list \<Rightarrow> (string \<rightharpoonup> string)" where
  "attr_map as m = map_option (\<lambda>a. cstr (avalue a)) (find (\<lambda>a. cstr (aname a) = m) as)"

definition names :: "xattr list \<Rightarrow> string list" where
  "names as = map (\<lambda>a. cstr (aname a)) as"

lemma attr_map_simps [simp]:
  "attr_map [] m = None"
  "attr_map (a # as) m = (if cstr (aname a) = m then Some (cstr (avalue a)) else attr_map as m)"
  by (simp_all add: attr_map_def)

lemma attr_map_append: "attr_map (as @ bs) m = (case attr_map as m of None \<Rightarrow> attr_map bs m | Some v \<Rightarrow> Some v)"
  by (induction as) auto

lemma attr_map_None: "attr_map as m = None \<longleftrightarrow> m \<notin> set (names as)"
  by (induction as) (auto simp: names_def)

lemma Find_eq: "Find n as = find (\<lambda>a. cstr (aname a) = cstr n) as"
  by (simp add: Find_def named_def [abs_def])

lemma Find_None: "Find n as = None \<longleftrightarrow> cstr n \<notin> set (names as)"
  by (induction as) (auto simp: Find_eq names_def)

lemma set_first:
  assumes "cstr n \<in> set (names as)" "\<And>a. aname (f a) = aname a" "\<And>a. cstr (avalue (f a)) = v"
  shows "attr_map (at_first (named n) f as) = (attr_map as)(cstr n \<mapsto> v)
    \<and> map aname (at_first (named n) f as) = map aname as"
  using assms(1)
proof (induction as)
  case (Cons a as)
  show ?case
  proof (cases "cstr (aname a) = cstr n")
    case True
    then show ?thesis using assms(2,3) by (auto simp: named_def)
  next
    case False
    then show ?thesis using Cons by (auto simp: named_def names_def)
  qed
qed (simp add: names_def)

lemma FindOrCreate_cases:
  "FindOrCreate n as = (if cstr n \<in> set (names as) then Inr as
     else if [] \<in> set (names as) then Inl Assert_failed
     else Inr (as @ [\<lparr>aname = cstr n, avalue = '''', alocation = no_cursor\<rparr>]))"
  using Find_None [of n as] Find_None [of "''''" as]
  by (auto simp: FindOrCreate_def Add_def Let_def cstr_def)

text \<open>Both setters: an assignment to the first attribute of the name, once there is one.\<close>

lemma set_named:
  assumes "\<And>a. aname (f a) = aname a" "\<And>a. cstr (avalue (f a)) = v"
  shows "case bindr (FindOrCreate n as) (\<lambda>as. Inr (at_first (named n) f as)) of
      Inr as' \<Rightarrow> attr_map as' = (attr_map as)(cstr n \<mapsto> v)
        \<and> map aname as' = (if cstr n \<in> set (names as) then map aname as else map aname as @ [cstr n])
    | Inl e \<Rightarrow> e = Assert_failed \<and> cstr n \<notin> set (names as) \<and> [] \<in> set (names as)"
proof -
  let ?new = "\<lparr>aname = cstr n, avalue = '''', alocation = no_cursor\<rparr>"
  have "attr_map (as @ [?new]) = (attr_map as)(cstr n \<mapsto> '''')" if "cstr n \<notin> set (names as)"
    using that attr_map_None [of as "cstr n"] by (auto simp: attr_map_append cstr_def split: option.split)
  moreover have "cstr n \<in> set (names (as @ [?new]))" by (simp add: names_def)
  ultimately show ?thesis
    using set_first [OF _ assms, of n as] set_first [OF _ assms, of n "as @ [?new]"]
    by (auto simp: FindOrCreate_cases)
qed

lemma attr_map_remove:
  "distinct (names as) \<Longrightarrow> attr_map (RemoveAttribute n as) = (attr_map as)(cstr n := None)
    \<and> map aname (RemoveAttribute n as) = remove_first (\<lambda>m. cstr m = cstr n) (map aname as)"
proof (induction as)
  case (Cons a as)
  have "RemoveAttribute n as = remove_first (named n) as" for as
    by (induction as) (auto simp: RemoveAttribute_def Find_def)
  moreover have "cstr (aname a) = cstr n \<Longrightarrow> attr_map as (cstr n) = None"
    using Cons.prems attr_map_None [of as "cstr n"] by (auto simp: names_def)
  ultimately show ?case using Cons by (auto simp: named_def names_def)
qed (auto simp: RemoveAttribute_def Find_def)

text \<open>C16:
  The attributes of an element are a map from names to values that keeps the order of first
  insertion: what Attribute finds, what SetAttribute and RemoveAttribute make of it, in the map and
  in the order of the names. The one failure is the assertion in Add, when a new name is to
  be set while there is an attribute with the empty name.\<close>

theorem attributes_refine_map:
  assumes "distinct (names as)"
  shows "Attribute n as = attr_map as (cstr n)
    \<and> (case SetAttribute n v as of
        Inr as' \<Rightarrow> attr_map as' = (attr_map as)(cstr n \<mapsto> cstr v) \<and> distinct (names as')
          \<and> map aname as' = (if cstr n \<in> dom (attr_map as) then map aname as else map aname as @ [cstr n])
      | Inl e \<Rightarrow> e = Assert_failed \<and> cstr n \<notin> dom (attr_map as) \<and> [] \<in> dom (attr_map as))
    \<and> attr_map (RemoveAttribute n as) = (attr_map as)(cstr n := None) \<and> distinct (names (RemoveAttribute n as))
    \<and> map aname (RemoveAttribute n as) = remove_first (\<lambda>m. cstr m = cstr n) (map aname as)"
proof -
  have dm: "m \<in> dom (attr_map as) \<longleftrightarrow> m \<in> set (names as)" for m using attr_map_None [of as m] by auto
  have nm: "names as = map cstr (map aname as)" for as by (simp add: names_def)
  have get: "Attribute n as = attr_map as (cstr n)" by (simp add: Attribute_def Find_eq attr_map_def)
  have d: "distinct (names as')"
    if "map aname as' = (if cstr n \<in> set (names as) then map aname as else map aname as @ [cstr n])" for as'
    using that assms unfolding nm [of as'] by (simp add: nm)
  have put: "case SetAttribute n v as of
        Inr as' \<Rightarrow> attr_map as' = (attr_map as)(cstr n \<mapsto> cstr v) \<and> distinct (names as')
          \<and> map aname as' = (if cstr n \<in> dom (attr_map as) then map aname as else map aname as @ [cstr n])
      | Inl e \<Rightarrow> e = Assert_failed \<and> cstr n \<notin> dom (attr_map as) \<and> [] \<in> dom (attr_map as)"
    using set_named [of "\<lambda>a. a\<lparr>avalue := cstr v\<rparr>" "cstr v" n as] d unfolding SetAttribute_def dm
    by (auto split: sum.splits)
  have "distinct xs \<Longrightarrow> distinct (remove_first P xs) \<and> set (remove_first P xs) \<subseteq> set xs" for P and xs :: "string list"
    by (induction xs) auto
  moreover have "map cstr (remove_first (\<lambda>m. cstr m = cstr n) ms) = remove_first (\<lambda>m. m = cstr n) (map cstr ms)" for ms
    by (induction ms) auto
  ultimately show ?thesis
    using attr_map_remove [OF assms, of n] assms get put by (simp add: nm)
qed

theorem attributes_refine_map_witness:
  "attr_map (RemoveAttribute ''k'' [\<lparr>aname = ''k'', avalue = ''1'', alocation = no_cursor\<rparr>,
      \<lparr>aname = ''m'', avalue = ''2'', alocation = no_cursor\<rparr>])
    = (attr_map [\<lparr>aname = ''k'', avalue = ''1'', alocation = no_cursor\<rparr>,
      \<lparr>aname = ''m'', avalue = ''2'', alocation = no_cursor\<rparr>])(''k'' := None)"
  using attributes_refine_map [of "[\<lparr>aname = ''k'', avalue = ''1'', alocation = no_cursor\<rparr>,
      \<lparr>aname = ''m'', avalue = ''2'', alocation = no_cursor\<rparr>]" "''k''" "''''"]
  by (simp add: names_def cstr_def)

section \<open>Integers in attributes\<close>

lemma uchar_digit: "n < 10 \<Longrightarrow> uchar (char_of (48 + n)) = 48 + n"
  by (simp add: uchar_def)

lemma decimal_digits: "c \<in> set (decimal n) \<Longrightarrow> c_isdigit c"
proof (induction n rule: decimal.induct)
  case (1 n)
  then show ?case
    by (subst (asm) (2) decimal.simps) (auto simp: c_isdigit_def uchar_digit split: if_splits)
qed

lemma decimal_nonempty [simp]: "decimal n \<noteq> []"
  by (subst decimal.simps) simp

lemma scan_decimal: "scan_digits acc (decimal n @ r) = scan_digits (acc * 10 ^ length (decimal n) + int n) r"
proof (induction n arbitrary: acc r rule: decimal.induct)
  case (1 n)
  show ?case
  proof (cases "n < 10")
    case True
    then have "decimal n = [char_of (48 + n)]" by (subst decimal.simps) simp
    then show ?thesis by (simp add: c_isdigit_def uchar_digit [OF True] mult.commute) (use True in simp)
  next
    case False
    then have d: "decimal n = decimal (n div 10) @ [char_of (48 + n mod 10)]" by (subst decimal.simps) simp
    let ?d = "char_of (48 + n mod 10)"
    have e: "10 * (acc * 10 ^ length (decimal (n div 10)) + int (n div 10)) + int (48 + n mod 10) - 48
        = acc * 10 ^ length (decimal n) + int n"
    proof -
      have "int (n mod 10) + 10 * int (n div 10) = int n" by presburger
      then show ?thesis by (simp add: d algebra_simps)
    qed
    have u: "uchar ?d = 48 + n mod 10" by (rule uchar_digit) simp
    then have dg: "c_isdigit ?d" by (simp add: c_isdigit_def)
    have "scan_digits acc (decimal n @ r)
        = scan_digits (acc * 10 ^ length (decimal (n div 10)) + int (n div 10)) (?d # r)"
      using 1 [OF False, of acc "?d # r"] by (simp only: d append_assoc append.simps)
    also have "\<dots> = scan_digits (acc * 10 ^ length (decimal n) + int n) r"
      unfolding e [symmetric] using dg by (simp only: scan_digits.simps if_True u)
    finally show ?thesis .
  qed
qed

lemma print_int_scan: "- (2 ^ 31) \<le> i \<Longrightarrow> i < 2 ^ 31 \<Longrightarrow> scan_int (print_int i) = Inr (Some i)"
proof -
  assume i: "- (2 ^ 31) \<le> i" "i < 2 ^ 31"
  have "NUL \<notin> set (decimal n)" for n
    using decimal_digits [of NUL n] by (auto simp: c_isdigit_def uchar_def)
  then have c: "cstr (print_int i) = print_int i" by (auto simp: cstr_id print_int_def)
  obtain d ds where d: "decimal (nat \<bar>i\<bar>) = d # ds" by (cases "decimal (nat \<bar>i\<bar>)") auto
  then have dd: "c_isdigit d" using decimal_digits [of d "nat \<bar>i\<bar>"] by simp
  then have "\<not> c_isspace (uchar d)" "d \<noteq> CHR ''-''" "d \<noteq> CHR ''+''"
    by (auto simp: c_isdigit_def c_isspace_def) (auto simp: uchar_def)
  moreover have "\<not> c_isspace (uchar (CHR ''-''))" by (simp add: c_isspace_def uchar_def)
  moreover have "scan_digits 0 (d # ds) = \<bar>i\<bar>" using scan_decimal [of 0 "nat \<bar>i\<bar>" "[]"] d by simp
  moreover have "cstr (print_int i) = (if i < 0 then CHR ''-'' # d # ds else d # ds)"
    unfolding c using d by (auto simp: print_int_def)
  ultimately show ?thesis
    using i dd unfolding scan_int_def by (cases "i < 0") (simp_all del: scan_digits.simps)
qed

text \<open>
  A value set as a text is found and read back, whatever the conversions are, if only they fit together.
\<close>

locale number_text =
  fixes print :: "'v \<Rightarrow> string" and scan :: "string \<Rightarrow> 'v option" and ok :: "'v \<Rightarrow> bool"
  assumes scan_print: "ok v \<Longrightarrow> scan (cstr (print v)) = Some v"
begin

lemma set_and_find:
  assumes "bindr (FindOrCreate n as) (\<lambda>as. Inr (at_first (named n) f as)) = Inr as'" "ok v"
    and "\<And>a. aname (f a) = aname a" "\<And>a. cstr (avalue (f a)) = cstr (print v)"
  obtains a where "Find n as' = Some a" "scan (cstr (avalue a)) = Some v"
    and "\<And>m. cstr m \<noteq> cstr n \<Longrightarrow> Attribute m as' = Attribute m as"
proof -
  have m: "attr_map as' = (attr_map as)(cstr n \<mapsto> cstr (print v))"
    using set_named [where f = f and v = "cstr (print v)" and n = n and as = as, OF assms(3,4)] assms(1) by simp
  then obtain a where "Find n as' = Some a" "cstr (avalue a) = cstr (print v)"
    by (auto simp: Find_eq attr_map_def fun_eq_iff split: if_splits)
  moreover have "Attribute m as = attr_map as (cstr m)" for m as by (simp add: Attribute_def Find_eq attr_map_def)
  ultimately show thesis using that scan_print [OF assms(2)] m by auto
qed

end

lemma scan_int_cstr [simp]: "scan_int (cstr s) = scan_int s"
  by (simp add: scan_int_def)

interpretation ints: number_text print_int "\<lambda>s. case scan_int s of Inr n \<Rightarrow> n | Inl _ \<Rightarrow> None" "\<lambda>i. - (2 ^ 31) \<le> i \<and> i < 2 ^ 31"
  by unfold_locales (simp add: print_int_scan)

lemma double_attribute_roundtrip:
  assumes "number_text printg scanlf ok" "SetDoubleAttribute printg n d as = Inr as'" "ok d"
  shows "QueryDoubleAttribute scanlf n as' d0 = (TIXML_SUCCESS, d)"
    and "QueryFloatAttribute to_float scanlf d0 n as' f0 = (TIXML_SUCCESS, to_float d)"
proof -
  have "\<exists>a. Find n as' = Some a \<and> scanlf (cstr (avalue a)) = Some d"
    by (rule number_text.set_and_find [OF assms(1) assms(2) [unfolded SetDoubleAttribute_def] assms(3)])
      (auto simp: SetDoubleValue_def)
  then show "QueryDoubleAttribute scanlf n as' d0 = (TIXML_SUCCESS, d)" by (auto simp: QueryDoubleAttribute_def QueryDoubleValue_def)
  then show "QueryFloatAttribute to_float scanlf d0 n as' f0 = (TIXML_SUCCESS, to_float d)" by (simp add: QueryFloatAttribute_def)
qed

text \<open>C39:
  An int set as an attribute is read back by QueryIntAttribute as the same number, for every 32-bit int,
  whatever attributes the element has; the other attributes are not changed.\<close>

theorem int_attribute_roundtrip:
  assumes "SetAttribute_int n i as = Inr as'" "- (2 ^ 31) \<le> i" "i < 2 ^ 31"
  shows "QueryIntAttribute n as' j = Inr (TIXML_SUCCESS, i)
    \<and> (cstr m \<noteq> cstr n \<longrightarrow> Attribute m as' = Attribute m as)"
proof -
  obtain a where a: "Find n as' = Some a" "(case scan_int (cstr (avalue a)) of Inr n \<Rightarrow> n | Inl _ \<Rightarrow> None) = Some i"
      "\<And>m. cstr m \<noteq> cstr n \<Longrightarrow> Attribute m as' = Attribute m as"
    by (rule ints.set_and_find [OF assms(1) [unfolded SetAttribute_int_def]]) (use assms(2,3) in \<open>auto simp: SetIntValue_def\<close>)
  then have "scan_int (avalue a) = Inr (Some i)" by (auto split: sum.splits)
  then show ?thesis using a(1,3) by (simp add: QueryIntAttribute_def QueryIntValue_def)
qed

theorem int_attribute_roundtrip_witness:
  "\<exists>as'. SetAttribute_int ''n'' (-2147483648) [] = Inr as' \<and> QueryIntAttribute ''n'' as' 0 = Inr (TIXML_SUCCESS, -2147483648)"
proof -
  have "SetAttribute_int ''n'' (-2147483648) []
      = Inr [\<lparr>aname = ''n'', avalue = print_int (-2147483648), alocation = no_cursor\<rparr>]"
    by (simp add: SetAttribute_int_def FindOrCreate_cases names_def named_def SetIntValue_def cstr_def)
  from this int_attribute_roundtrip [OF this, of 0 "''''"] show ?thesis by simp
qed

text \<open>
  QueryBoolAttribute compares only as many characters as the word has: a value that starts with one of the six words,
  in any case, is taken for a Boolean; and an empty value fails the assertion in StringEqual.\<close>

theorem bool_attribute_prefix:
  "QueryBoolAttribute n (\<lparr>aname = n, avalue = ''true'' @ w, alocation = l\<rparr> # as) b = Inr (TIXML_SUCCESS, True)
  \<and> QueryBoolAttribute n (\<lparr>aname = n, avalue = ''No'' @ w, alocation = l\<rparr> # as) b = Inr (TIXML_SUCCESS, False)
  \<and> QueryBoolAttribute n (\<lparr>aname = n, avalue = ''1'' @ w, alocation = l\<rparr> # as) b = Inr (TIXML_SUCCESS, True)
  \<and> QueryBoolAttribute n (\<lparr>aname = n, avalue = '''', alocation = l\<rparr> # as) b = Inl Assert_failed"
proof -
  have "cstr (''true'' @ w) = ''true'' @ cstr w" "cstr (''No'' @ w) = ''No'' @ cstr w" "cstr (''1'' @ w) = ''1'' @ cstr w"
    by (simp_all add: cstr_def)
  then show ?thesis
    by (simp add: QueryBoolAttribute_def Find_def named_def one_of_def StringEqual_def ToLower_def c_tolower_def schar_def cstr_def)
qed

end
