(* ===== verification/SouthXml.thy ===== *)
theory SouthXml
  imports South XmlElem
begin

text \<open>
  The report of a device (\<open>libsouth_interface/southxml.cpp\<close>): each monitor becomes an XML document that
  \<open>upload\<close> passes to a function of a library loaded at run time, with the
  conversions of \<open>transformEncode.cpp\<close>. The heap is that of South, the documents those of XmlParse;
  a node that is only linked to is given by its children, and a node is linked once it is built.
\<close>

section \<open>Code pages\<close>

type_synonym wchar = uint16

text \<open>
  The calls of Windows are parameters: code page, text up to the terminator and size of the buffer in units, 0 when
  only the size is asked for. The length of the result, counting the terminator, is what the
  call returns, and the result itself is what it puts in the buffer. \<open>malloc_ok\<close> tells whether \<open>malloc\<close>
  succeeds, and \<open>right_first\<close> in which order the compiler evaluates the arguments of a call.
\<close>

record win =
  MultiByteToWideChar :: "nat \<Rightarrow> string \<Rightarrow> nat \<Rightarrow> wchar list"
  WideCharToMultiByte :: "nat \<Rightarrow> wchar list \<Rightarrow> nat \<Rightarrow> string"
  malloc_ok :: bool
  right_first :: bool

definition CP_ACP :: nat where "CP_ACP = 0"
definition CP_OEMCP :: nat where "CP_OEMCP = 1"
definition CP_UTF8 :: nat where "CP_UTF8 = 65001"

definition wcs :: "wchar list \<Rightarrow> wchar list" where
  "wcs s = takeWhile (\<lambda>c. c \<noteq> 0) s"

text \<open>The result and the destination, which is left alone on failure.\<close>

definition UnicodeToANSI :: "win \<Rightarrow> wchar list option \<Rightarrow> string \<Rightarrow> bool \<times> string" where
  "UnicodeToANSI w src dest = (case src of None \<Rightarrow> (False, dest) | Some s \<Rightarrow>
     let n = length (WideCharToMultiByte w CP_OEMCP (wcs s) 0)
     in if n = 0 then (False, dest)
        else let t = WideCharToMultiByte w CP_OEMCP (wcs s) n
             in if length t \<noteq> n then (False, dest) else (True, cstr t))"

definition UnicodeToUTF8 :: "win \<Rightarrow> wchar list option \<Rightarrow> string \<Rightarrow> bool \<times> string" where
  "UnicodeToUTF8 w src dest = (case src of None \<Rightarrow> (False, dest) | Some s \<Rightarrow>
     let n = length (WideCharToMultiByte w CP_UTF8 (wcs s) 0)
     in if n = 0 then (False, dest)
        else if \<not> malloc_ok w then (False, dest)
        else let t = WideCharToMultiByte w CP_UTF8 (wcs s) n
             in if length t \<noteq> n then (False, dest) else (True, cstr t))"

definition ANSIToUnicode :: "win \<Rightarrow> string option \<Rightarrow> wchar list \<Rightarrow> bool \<times> wchar list" where
  "ANSIToUnicode w src dest = (case src of None \<Rightarrow> (False, dest) | Some s \<Rightarrow>
     let n = length (MultiByteToWideChar w CP_ACP (cstr s) 0)
     in if n = 0 then (False, dest)
        else let t = MultiByteToWideChar w CP_ACP (cstr s) n
             in if length t \<noteq> n then (False, dest) else (True, wcs t))"

definition UTF8ToUnicode :: "win \<Rightarrow> string option \<Rightarrow> wchar list \<Rightarrow> bool \<times> wchar list" where
  "UTF8ToUnicode w src dest = (case src of None \<Rightarrow> (False, dest) | Some s \<Rightarrow>
     let n = length (MultiByteToWideChar w CP_UTF8 (cstr s) 0)
     in if n = 0 then (False, dest)
        else let t = MultiByteToWideChar w CP_UTF8 (cstr s) n
             in if length t \<noteq> n then (False, dest) else (True, wcs t))"

definition ANSIToUTF8 :: "win \<Rightarrow> string option \<Rightarrow> string \<Rightarrow> bool \<times> string" where
  "ANSIToUTF8 w src dest = (case ANSIToUnicode w src [] of (ok, tmp) \<Rightarrow>
     if \<not> ok then (False, dest) else UnicodeToUTF8 w (Some tmp) dest)"

definition UTF8ToANSI :: "win \<Rightarrow> string option \<Rightarrow> string \<Rightarrow> bool \<times> string" where
  "UTF8ToANSI w src dest = (case UTF8ToUnicode w src [] of (ok, tmp) \<Rightarrow>
     if \<not> ok then (False, dest) else UnicodeToANSI w (Some tmp) dest)"

text \<open>The overloads that return the string.\<close>

definition ANSIToUTF8_value :: "win \<Rightarrow> string option \<Rightarrow> string" where
  "ANSIToUTF8_value w src = snd (ANSIToUTF8 w src '''')"

definition UTF8ToANSI_value :: "win \<Rightarrow> string option \<Rightarrow> string" where
  "UTF8ToANSI_value w src = snd (UTF8ToANSI w src '''')"

section \<open>Nodes\<close>

text \<open>The words of the report in the code page of the source files, GBK.\<close>

definition XML_NODE_MNTR_SERIVICE :: string where
  "XML_NODE_MNTR_SERIVICE = [CHR 0xBC, CHR 0xE0, CHR 0xBF, CHR 0xD8, CHR 0xB7, CHR 0xFE, CHR 0xCE, CHR 0xF1]"
definition XML_NODE_MNTR_INFO :: string where
  "XML_NODE_MNTR_INFO = [CHR 0xBC, CHR 0xE0, CHR 0xBF, CHR 0xD8, CHR 0xD0, CHR 0xC5, CHR 0xCF, CHR 0xA2]"
definition XML_NODE_CTL_CMD :: string where
  "XML_NODE_CTL_CMD = [CHR 0xBF, CHR 0xD8, CHR 0xD6, CHR 0xC6, CHR 0xC3, CHR 0xFC, CHR 0xC1, CHR 0xEE]"
definition XML_NODE_PARAM :: string where
  "XML_NODE_PARAM = [CHR 0xB2, CHR 0xCE, CHR 0xCA, CHR 0xFD]"
definition XML_PROP_SOFT_NAME :: string where
  "XML_PROP_SOFT_NAME = [CHR 0xC8, CHR 0xED, CHR 0xBC, CHR 0xFE, CHR 0xC3, CHR 0xFB, CHR 0xB3, CHR 0xC6]"
definition XML_PROP_NAME :: string where
  "XML_PROP_NAME = [CHR 0xC3, CHR 0xFB, CHR 0xB3, CHR 0xC6]"
definition XML_PROP_TYPE :: string where
  "XML_PROP_TYPE = [CHR 0xC0, CHR 0xE0, CHR 0xD0, CHR 0xCD]"
definition XML_PROP_UNIT :: string where
  "XML_PROP_UNIT = [CHR 0xB5, CHR 0xA5, CHR 0xCE, CHR 0xBB]"
definition type_name :: string where
  "type_name = [CHR 0xC0, CHR 0xE0, CHR 0xD0, CHR 0xCD, CHR 0xC3, CHR 0xFB, CHR 0xB3, CHR 0xC6]"

text \<open>The result is a copy of the static string, which keeps its last value when a conversion fails.\<close>

definition toUtf8 :: "win \<Rightarrow> string option \<Rightarrow> string \<Rightarrow> string \<times> string" where
  "toUtf8 w pt st = (case ANSIToUTF8 w pt st of (ok, st) \<Rightarrow> (st, st))"

text \<open>A string field of a block: \<open>None\<close> for NULL.\<close>

definition c_string :: "ptr \<Rightarrow> heap \<Rightarrow> string option res" where
  "c_string p h = (case p of None \<Rightarrow> Inr None
     | Some a \<Rightarrow> (case strs h a of None \<Rightarrow> Inl Use_after_free
         | Some s \<Rightarrow> if NUL \<in> set s then Inr (Some (cstr s)) else Inl Out_of_bounds))"

definition TiXmlElement :: "string \<Rightarrow> xnode" where
  "TiXmlElement v = XElement no_cursor (cstr v) [] []"

definition TiXmlText :: "string \<Rightarrow> xnode" where
  "TiXmlText v = XText no_cursor (cstr v) False"

text \<open>\<open>pNewElemt->SetAttribute(toUtf8(name).c_str(), toUtf8(val).c_str())\<close> on the attributes of the element.\<close>

definition set_prop :: "win \<Rightarrow> string \<Rightarrow> string \<Rightarrow> xattr list \<Rightarrow> string \<Rightarrow> (xattr list \<times> string) res" where
  "set_prop w name val as st =
     (if right_first w
      then (case toUtf8 w (Some val) st of (v, st) \<Rightarrow> case toUtf8 w (Some name) st of (n, st) \<Rightarrow>
        bindr (SetAttribute n v as) (\<lambda>as. Inr (as, st)))
      else (case toUtf8 w (Some name) st of (n, st) \<Rightarrow> case toUtf8 w (Some val) st of (v, st) \<Rightarrow>
        bindr (SetAttribute n v as) (\<lambda>as. Inr (as, st))))"

definition set_prop_if :: "win \<Rightarrow> string \<Rightarrow> string option \<Rightarrow> xattr list \<Rightarrow> string \<Rightarrow> (xattr list \<times> string) res" where
  "set_prop_if w name val as st = (case val of None \<Rightarrow> Inr (as, st) | Some v \<Rightarrow> set_prop w name v as st)"

text \<open>The answer, the children of the node passed and the static string of \<open>toUtf8\<close>.\<close>

definition target_make_xml :: "win \<Rightarrow> heap \<Rightarrow> ptr \<Rightarrow> xnode list option \<Rightarrow> string \<Rightarrow> (int \<times> xnode list option \<times> string) res" where
  "target_make_xml w h pt node st = (case (pt, node) of
      (None, _) \<Rightarrow> Inr (0, node, st)
    | (Some a, None) \<Rightarrow> Inr (-1, None, st)
    | (Some a, Some kids) \<Rightarrow> (case toUtf8 w (Some XML_NODE_PARAM) st of (el, st) \<Rightarrow>
        bindr (load_target pt h) (\<lambda>t.
        bindr (c_string (t_label t) h) (\<lambda>label.
        bindr (set_prop_if w XML_PROP_NAME label [] st) (\<lambda>(as, st).
        bindr (c_string (t_value t) h) (\<lambda>val.
        case (case val of None \<Rightarrow> ([], st)
              | Some v \<Rightarrow> (case toUtf8 w (Some v) st of (s, st) \<Rightarrow> ([TiXmlText s], st))) of (texts, st) \<Rightarrow>
        bindr (c_string (t_unit t) h) (\<lambda>unt.
        bindr (set_prop_if w XML_PROP_UNIT (if unt = Some [] then None else unt) as st) (\<lambda>(as, st).
        case toUtf8 w (Some XML_PROP_TYPE) st of (n, st) \<Rightarrow>
        bindr (SetAttribute_int n (t_type t) as) (\<lambda>as.
          Inr (0, Some (kids @ [XElement no_cursor (cstr el) as texts]), st))))))))))"

text \<open>The loop over the targets of a monitor.\<close>

partial_function (option) targets_make_xml ::
  "win \<Rightarrow> heap \<Rightarrow> ptr \<Rightarrow> xnode list \<Rightarrow> string \<Rightarrow> (xnode list \<times> string) res option" where
  "targets_make_xml w h pt kids st =
     (if pt = None then Some (Inr (kids, st))
      else (case bindr (target_make_xml w h pt (Some kids) st) (\<lambda>(r, node, st).
               bindr (load_target pt h) (\<lambda>t. Inr (t_next t, the node, st))) of
          Inl e \<Rightarrow> Some (Inl e)
        | Inr (p, kids, st) \<Rightarrow> targets_make_xml w h p kids st))"

definition monitor_make_xml ::
  "win \<Rightarrow> heap \<Rightarrow> ptr \<Rightarrow> xnode list option \<Rightarrow> string \<Rightarrow> (int \<times> xnode list option \<times> string) res option" where
  "monitor_make_xml w h pm node st = (case (pm, node) of
      (None, _) \<Rightarrow> Some (Inr (0, node, st))
    | (Some a, None) \<Rightarrow> Some (Inr (-1, None, st))
    | (Some a, Some kids) \<Rightarrow> (case toUtf8 w (Some XML_NODE_CTL_CMD) st of (el, st) \<Rightarrow>
        (case bindr (load_monitor pm h) (\<lambda>m.
              bindr (c_string (m_label m) h) (\<lambda>label.
              bindr (set_prop_if w XML_PROP_SOFT_NAME label [] st) (\<lambda>(as, st).
              case m_pd m of None \<Rightarrow> Inl Uninitialised | Some pd \<Rightarrow>
              bindr (load_device pd h) (\<lambda>d.
              bindr (c_string (d_label d) h) (\<lambda>dlabel.
              bindr (set_prop_if w type_name dlabel as st) (\<lambda>(as, st).
                Inr (m_target m, as, st))))))) of
           Inl e \<Rightarrow> Some (Inl e)
         | Inr (pt, as, st) \<Rightarrow> Option.bind (targets_make_xml w h pt [] st) (\<lambda>r.
             Some (bindr r (\<lambda>(ts, st). Inr (0, Some (kids @ [XElement no_cursor (cstr el) as ts]), st)))))))"

section \<open>Documents\<close>

text \<open>
  The result, what is written to libsouth.xml if the file can be opened, and the static string. A
  null pointer for the result makes the constructor of \<open>std::string\<close> read from it.
\<close>

definition monitor_to_string :: "win \<Rightarrow> bool \<Rightarrow> heap \<Rightarrow> ptr \<Rightarrow> string \<Rightarrow> (string \<times> string option \<times> string) res option" where
  "monitor_to_string w opens h pm st =
     (if pm = None then Some (Inl Null_deref)
      else let decl = XDeclaration no_cursor ''1.0'' ''UTF-8'' '''' in
        case toUtf8 w (Some XML_NODE_MNTR_SERIVICE) st of (service, st) \<Rightarrow>
        case toUtf8 w (Some XML_NODE_MNTR_INFO) st of (info, st) \<Rightarrow>
        Option.bind (monitor_make_xml w h pm (Some []) st) (\<lambda>r.
          Some (bindr r (\<lambda>(n, kids, st).
            let doc = [decl, XElement no_cursor (cstr service) [] [XElement no_cursor (cstr info) [] (the kids)]]
            in Inr (PrintS doc, if opens then Some (Document_Print doc) else None, st)))))"

text \<open>
  The static variables, the file and the calls of the library function made so far. \<open>dll\<close> tells whether LoadLibrary
  and GetProcAddress succeed. The function is taken to return; what it answers is only printed.
\<close>

record uploads =
  utf8_str :: string
  pFun :: bool
  xml_file :: "string option"
  sent :: "(string \<times> string) list"

partial_function (option) upload_loop :: "win \<Rightarrow> bool \<Rightarrow> heap \<Rightarrow> ptr \<Rightarrow> ptr \<Rightarrow> uploads \<Rightarrow> uploads res option" where
  "upload_loop w opens h pd pm u =
     (if pm = None then Some (Inr u)
      else Option.bind (monitor_to_string w opens h pm (utf8_str u)) (\<lambda>r.
        case bindr r (\<lambda>(xml, file, st).
             bindr (load_device pd h) (\<lambda>d.
             bindr (c_string (d_ip d) h) (\<lambda>ip.
               case ip of None \<Rightarrow> Inl Null_deref
               | Some ip \<Rightarrow> bindr (load_monitor pm h) (\<lambda>m.
                   Inr (m_next m, u\<lparr>utf8_str := st, xml_file := (if file = None then xml_file u else file),
                     sent := sent u @ [(ip, xml)]\<rparr>))))) of
          Inl e \<Rightarrow> Some (Inl e)
        | Inr (p, u) \<Rightarrow> upload_loop w opens h pd p u))"

definition upload :: "win \<Rightarrow> bool \<Rightarrow> bool \<Rightarrow> heap \<Rightarrow> ptr \<Rightarrow> uploads \<Rightarrow> (int \<times> uploads) res option" where
  "upload w dll opens h pd u =
     (if pd = None then Some (Inr (-1, u))
      else if \<not> pFun u \<and> \<not> dll then Some (Inr (-1, u))
      else (case load_device pd h of
          Inl e \<Rightarrow> Some (Inl e)
        | Inr d \<Rightarrow> Option.bind (upload_loop w opens h pd (d_monitor d) (u\<lparr>pFun := True\<rparr>)) (\<lambda>r.
            Some (bindr r (\<lambda>u. Inr (0, u))))))"

section \<open>What the report shows\<close>

text \<open>The conversion of a text from the code page of the system to UTF-8 succeeds, with this result.\<close>

definition converts :: "win \<Rightarrow> (string \<Rightarrow> string) \<Rightarrow> string \<Rightarrow> bool" where
  "converts w u s \<longleftrightarrow> malloc_ok w \<and>
     (let wide = MultiByteToWideChar w CP_ACP (cstr s); n = length (wide 0);
          utf8 = WideCharToMultiByte w CP_UTF8 (wcs (wide n)); k = length (utf8 0)
      in 0 < n \<and> length (wide n) = n \<and> 0 < k \<and> length (utf8 k) = k \<and> cstr (utf8 k) = u s)"

definition words :: "string set" where
  "words = {XML_NODE_MNTR_SERIVICE, XML_NODE_MNTR_INFO, XML_NODE_CTL_CMD, XML_NODE_PARAM, XML_PROP_SOFT_NAME,
     XML_PROP_NAME, XML_PROP_TYPE, XML_PROP_UNIT, type_name}"

text \<open>The words of the report are converted to different XML names.\<close>

definition words_ok :: "win \<Rightarrow> (string \<Rightarrow> string) \<Rightarrow> bool" where
  "words_ok w u \<longleftrightarrow> (\<forall>s \<in> words. converts w u s \<and> good_name (u s)) \<and> inj_on u words"

abbreviation attr :: "string \<Rightarrow> string \<Rightarrow> xattr" where
  "attr n v \<equiv> \<lparr>aname = n, avalue = v, alocation = no_cursor\<rparr>"

text \<open>The node of a target from what the target shows, and of a monitor from its label, that of the device, and its targets.\<close>

definition unit_attr :: "(string \<Rightarrow> string) \<Rightarrow> string option \<Rightarrow> xattr list" where
  "unit_attr u unt = (if unt = None \<or> unt = Some [] then [] else [attr (u XML_PROP_UNIT) (u (the unt))])"

definition target_node :: "(string \<Rightarrow> string) \<Rightarrow> tview \<Rightarrow> xnode" where
  "target_node u v = (case v of (label, val, unt, ty) \<Rightarrow>
     XElement no_cursor (u XML_NODE_PARAM)
       (attr (u XML_PROP_NAME) (u (the label)) # unit_attr u unt @ [attr (u XML_PROP_TYPE) (print_int ty)])
       [XText no_cursor (u (the val)) False])"

definition report :: "(string \<Rightarrow> string) \<Rightarrow> string \<Rightarrow> string \<Rightarrow> tview list \<Rightarrow> xnode list" where
  "report u label dlabel vs =
     [XDeclaration no_cursor ''1.0'' ''UTF-8'' '''',
      XElement no_cursor (u XML_NODE_MNTR_SERIVICE) []
        [XElement no_cursor (u XML_NODE_MNTR_INFO) []
          [XElement no_cursor (u XML_NODE_CTL_CMD) [attr (u XML_PROP_SOFT_NAME) (u label), attr (u type_name) (u dlabel)]
            (map (target_node u) vs)]]]"

definition text_ok :: "win \<Rightarrow> (string \<Rightarrow> string) \<Rightarrow> string \<Rightarrow> bool" where
  "text_ok w u s \<longleftrightarrow> converts w u s \<and> no_reference (u s)"

definition view_ok :: "win \<Rightarrow> (string \<Rightarrow> string) \<Rightarrow> tview \<Rightarrow> bool" where
  "view_ok w u v = (case v of (label, val, unt, ty) \<Rightarrow>
     label \<noteq> None \<and> text_ok w u (the label) \<and> val \<noteq> None \<and> text_ok w u (the val) \<and> good_text (u (the val)) \<and>
     (unt = None \<or> unt = Some [] \<or> text_ok w u (the unt)))"

section \<open>Building the report\<close>

lemma toUtf8_converts: "converts w u s \<Longrightarrow> toUtf8 w (Some s) st = (u s, u s)"
proof -
  have "wcs (wcs x) = wcs x" for x by (simp add: wcs_def takeWhile_takeWhile)
  then show "converts w u s \<Longrightarrow> toUtf8 w (Some s) st = (u s, u s)"
    by (auto simp: converts_def toUtf8_def ANSIToUTF8_def ANSIToUnicode_def UnicodeToUTF8_def Let_def)
qed

lemma converts_cstr: "converts w u s \<Longrightarrow> cstr (u s) = u s"
  by (auto simp: converts_def Let_def) (metis cstr_idem)

lemma at_first_end: "named n x \<Longrightarrow> \<not> (\<exists>a \<in> set as. named n a) \<Longrightarrow> at_first (named n) f (as @ [x]) = as @ [f x]"
  by (induction as) auto

lemma FindOrCreate_new:
  assumes "cstr n \<notin> set (names as)" "[] \<notin> set (names as)"
  shows "bindr (FindOrCreate n as) (\<lambda>as. Inr (at_first (named n) f as)) = Inr (as @ [f (attr (cstr n) [])])"
proof -
  have "\<not> (\<exists>a \<in> set as. named n a)" using assms(1) unfolding names_def named_def by (auto simp del: image_iff) (metis image_eqI)
  then show ?thesis using assms at_first_end [of n "attr (cstr n) []" as f]
    by (simp add: FindOrCreate_cases named_def)
qed

lemma set_prop_new:
  assumes "converts w u n" "converts w u v" "u n \<notin> set (names as)" "[] \<notin> set (names as)"
  shows "set_prop w n v as st = Inr (as @ [attr (u n) (u v)], if right_first w then u n else u v)"
  using assms FindOrCreate_new [of "u n" as] toUtf8_converts converts_cstr
  by (auto simp: set_prop_def SetAttribute_def)

lemma c_string_ok: "(\<And>a. p = Some a \<Longrightarrow> str_ok h a) \<Longrightarrow> c_string p h = Inr (str h p)"
  by (cases p) (auto simp: c_string_def str_def str_ok_def split: option.splits)

lemma words_names [simp]:
  "XML_NODE_MNTR_SERIVICE \<in> words" "XML_NODE_MNTR_INFO \<in> words" "XML_NODE_CTL_CMD \<in> words" "XML_NODE_PARAM \<in> words"
  "XML_PROP_SOFT_NAME \<in> words" "XML_PROP_NAME \<in> words" "XML_PROP_TYPE \<in> words" "XML_PROP_UNIT \<in> words" "type_name \<in> words"
  by (simp_all add: words_def)

lemma words_okD:
  assumes "words_ok w u" "s \<in> words"
  shows "converts w u s" "good_name (u s)" "cstr (u s) = u s" "u s \<noteq> []"
  using assms converts_cstr by (auto simp: words_ok_def good_name_def)

lemma words_differ:
  assumes "words_ok w u"
  shows "u XML_PROP_NAME \<noteq> u XML_PROP_UNIT" "u XML_PROP_NAME \<noteq> u XML_PROP_TYPE" "u XML_PROP_UNIT \<noteq> u XML_PROP_TYPE"
    "u XML_PROP_SOFT_NAME \<noteq> u type_name"
proof -
  have *: "u s \<noteq> u t" if "s \<in> words" "t \<in> words" "s \<noteq> t" for s t
    using assms that by (auto simp: words_ok_def inj_on_def)
  show "u XML_PROP_NAME \<noteq> u XML_PROP_UNIT" "u XML_PROP_NAME \<noteq> u XML_PROP_TYPE" "u XML_PROP_UNIT \<noteq> u XML_PROP_TYPE"
    "u XML_PROP_SOFT_NAME \<noteq> u type_name"
    by (rule *, simp only: words_names, simp only: words_names,
        simp add: XML_PROP_NAME_def XML_PROP_UNIT_def XML_PROP_TYPE_def XML_PROP_SOFT_NAME_def type_name_def)+
qed

lemma target_make_xml_view:
  assumes "words_ok w u" "tgts h a = Some t" "\<forall>s \<in> set (tstrs t). str_ok h s" "view_ok w u (tview h t)"
  shows "\<exists>st'. target_make_xml w h (Some a) (Some kids) st = Inr (0, Some (kids @ [target_node u (tview h t)]), st')"
proof -
  obtain l v where v: "str h (t_label t) = Some l" "text_ok w u l" "str h (t_value t) = Some v" "text_ok w u v"
    using assms(4) by (auto simp: view_ok_def tview_def)
  let ?unt = "str h (t_unit t)"
  have unt: "?unt = None \<or> ?unt = Some [] \<or> text_ok w u (the ?unt)" using assms(4) by (auto simp: view_ok_def tview_def)
  have s: "c_string (t_label t) h = Inr (Some l)" "c_string (t_value t) h = Inr (Some v)" "c_string (t_unit t) h = Inr ?unt"
    using c_string_ok [of _ h] v assms(3) by (auto simp: tstrs_def opt_list_def)
  note W = words_okD [OF assms(1)]
  have c: "converts w u l" "converts w u v" using v by (auto simp: text_ok_def)
  let ?a1 = "[attr (u XML_PROP_NAME) (u l)]"
  obtain s1 where s1: "set_prop w XML_PROP_NAME l [] (u XML_NODE_PARAM) = Inr (?a1, s1)"
    using set_prop_new [OF W(1) c(1), of XML_PROP_NAME "[]"] by (auto simp: names_def)
  have "\<exists>s2. set_prop_if w XML_PROP_UNIT (if ?unt = Some [] then None else ?unt) ?a1 (u v) = Inr (?a1 @ unit_attr u ?unt, s2)"
  proof (cases "?unt = None \<or> ?unt = Some []")
    case False
    then obtain x where x: "?unt = Some x" "x \<noteq> []" "converts w u x" using unt by (auto simp: text_ok_def)
    have "\<exists>s2. set_prop w XML_PROP_UNIT x ?a1 (u v) = Inr (?a1 @ [attr (u XML_PROP_UNIT) (u x)], s2)"
      using W W(4) [THEN not_sym] words_differ [OF assms(1)] set_prop_new [of w u XML_PROP_UNIT x ?a1 "u v"] x(3)
      by (auto simp: names_def)
    then show ?thesis using x by (simp add: set_prop_if_def unit_attr_def)
  qed (auto simp: set_prop_if_def unit_attr_def)
  then obtain s2 where s2: "set_prop_if w XML_PROP_UNIT (if ?unt = Some [] then None else ?unt) ?a1 (u v)
      = Inr (?a1 @ unit_attr u ?unt, s2)" by blast
  let ?a2 = "?a1 @ unit_attr u ?unt"
  have n: "u XML_PROP_TYPE \<notin> set (names ?a2)" "[] \<notin> set (names ?a2)"
    using words_differ [OF assms(1)] W W(4) [THEN not_sym] by (auto simp: names_def unit_attr_def)
  have "SetAttribute_int (u XML_PROP_TYPE) (t_type t) ?a2 = Inr (?a2 @ [attr (u XML_PROP_TYPE) (print_int (t_type t))])"
    using FindOrCreate_new [of "u XML_PROP_TYPE" ?a2 "SetIntValue (t_type t)"] n W
    by (simp add: SetAttribute_int_def SetIntValue_def)
  then show ?thesis
    using toUtf8_converts [OF W(1)] toUtf8_converts [OF c(2)] W(3) converts_cstr [OF c(2)] s s1 s2 assms(2)
    by (auto simp: target_make_xml_def load_target_def set_prop_if_def TiXmlText_def target_node_def tview_def v)
qed

lemma targets_make_xml_views:
  assumes "words_ok w u" "tlist.chain h p ts" "\<forall>s \<in> set (tlstrs ts). str_ok h s" "\<forall>(b, t) \<in> set ts. view_ok w u (tview h t)"
  shows "\<exists>st'. targets_make_xml w h p kids st = Some (Inr (kids @ map (\<lambda>(b, t). target_node u (tview h t)) ts, st'))"
  using assms(2-4)
proof (induction ts arbitrary: p kids st)
  case Nil
  then show ?case by (subst targets_make_xml.simps) simp
next
  case (Cons x ts)
  obtain b t where x: "x = (b, t)" by (cases x)
  then have t: "p = Some b" "tgts h b = Some t" "tlist.chain h (t_next t) ts" using Cons.prems(1) by auto
  obtain s1 where "target_make_xml w h (Some b) (Some kids) st = Inr (0, Some (kids @ [target_node u (tview h t)]), s1)"
    using target_make_xml_view [OF assms(1) t(2), of kids st] Cons.prems(2,3) x by auto
  moreover obtain s2 where "targets_make_xml w h (t_next t) (kids @ [target_node u (tview h t)]) s1
      = Some (Inr ((kids @ [target_node u (tview h t)]) @ map (\<lambda>(b, t). target_node u (tview h t)) ts, s2))"
    using Cons.IH [OF t(3), of "kids @ [target_node u (tview h t)]" s1] Cons.prems(2,3) x by auto
  ultimately show ?case using t x by (subst targets_make_xml.simps) (simp add: load_target_def)
qed

text \<open>A monitor of the device at \<open>pd\<close> that can be reported: its blocks are there and its texts can be converted.\<close>

definition reportable :: "win \<Rightarrow> (string \<Rightarrow> string) \<Rightarrow> heap \<Rightarrow> nat \<Rightarrow> mnode \<Rightarrow> bool" where
  "reportable w u h pd x \<longleftrightarrow> (case x of (a, m, ts) \<Rightarrow>
     mons h a = Some m \<and> tlist.chain h (m_target m) ts \<and> (\<forall>s \<in> set (mstrs x). str_ok h s) \<and> m_pd m = Some (Some pd) \<and>
     str h (m_label m) \<noteq> None \<and> text_ok w u (the (str h (m_label m))) \<and> (\<forall>(b, t) \<in> set ts. view_ok w u (tview h t)))"

text \<open>A device whose label can be converted, with the two strings it shows.\<close>

definition device_shows :: "win \<Rightarrow> (string \<Rightarrow> string) \<Rightarrow> heap \<Rightarrow> nat \<Rightarrow> string \<Rightarrow> string \<Rightarrow> bool" where
  "device_shows w u h pd label ip \<longleftrightarrow> (\<exists>d. devs h pd = Some d \<and> (\<forall>s \<in> set (opt_list (d_label d) @ opt_list (d_ip d)). str_ok h s) \<and>
     str h (d_label d) = Some label \<and> str h (d_ip d) = Some ip \<and> text_ok w u label)"

abbreviation report_of :: "(string \<Rightarrow> string) \<Rightarrow> heap \<Rightarrow> string \<Rightarrow> mnode \<Rightarrow> xnode list" where
  "report_of u h dlabel x \<equiv> (case x of (a, m, ts) \<Rightarrow>
     report u (the (str h (m_label m))) dlabel (map (\<lambda>(b, t). tview h t) ts))"

lemma monitor_to_string_report:
  assumes "words_ok w u" "device_shows w u h pd dl ip" "reportable w u h pd (a, m, ts)"
  shows "\<exists>fl st'. monitor_to_string w opens h (Some a) st = Some (Inr (PrintS (report_of u h dl (a, m, ts)), fl, st'))"
proof -
  note W = words_okD [OF assms(1)]
  obtain d where d: "devs h pd = Some d" "c_string (d_label d) h = Inr (Some dl)" "converts w u dl"
    using assms(2) c_string_ok [of _ h] by (auto simp: device_shows_def opt_list_def text_ok_def)
  obtain l where l: "str h (m_label m) = Some l" "converts w u l" "c_string (m_label m) h = Inr (Some l)"
    and m: "mons h a = Some m" "m_pd m = Some (Some pd)" "tlist.chain h (m_target m) ts" "\<forall>s \<in> set (tlstrs ts). str_ok h s"
      "\<forall>(b, t) \<in> set ts. view_ok w u (tview h t)"
    using assms(3) c_string_ok [of _ h] by (auto simp: reportable_def text_ok_def mstrs_def opt_list_def)
  let ?a1 = "[attr (u XML_PROP_SOFT_NAME) (u l)]"
  obtain s1 where s1: "set_prop w XML_PROP_SOFT_NAME l [] (u XML_NODE_CTL_CMD) = Inr (?a1, s1)"
    using set_prop_new [OF W(1) l(2), of XML_PROP_SOFT_NAME "[]"] by (auto simp: names_def)
  have "\<exists>s2. set_prop w type_name dl ?a1 s1 = Inr (?a1 @ [attr (u type_name) (u dl)], s2)"
    using W W(4) [THEN not_sym] words_differ(4) [OF assms(1), THEN not_sym] d(3)
      set_prop_new [of w u type_name dl ?a1 s1] by (auto simp: names_def)
  then obtain s2 where s2: "set_prop w type_name dl ?a1 s1 = Inr (?a1 @ [attr (u type_name) (u dl)], s2)" by blast
  obtain s3 where s3: "targets_make_xml w h (m_target m) [] s2 = Some (Inr (map (\<lambda>(b, t). target_node u (tview h t)) ts, s3))"
    using targets_make_xml_views [OF assms(1) m(3-5), of "[]" s2] by auto
  have "monitor_make_xml w h (Some a) (Some []) (u XML_NODE_MNTR_INFO) = Some (Inr (0, Some
      [XElement no_cursor (u XML_NODE_CTL_CMD) [attr (u XML_PROP_SOFT_NAME) (u l), attr (u type_name) (u dl)]
        (map (\<lambda>(b, t). target_node u (tview h t)) ts)], s3))"
    using toUtf8_converts [OF W(1)] W(3) m(1,2) l(3) d(1,2) s1 s2 s3
    by (simp add: monitor_make_xml_def load_monitor_def load_device_def set_prop_if_def)
  then show ?thesis
    using toUtf8_converts [OF W(1)] W(3) l(1)
    by (simp add: monitor_to_string_def report_def Let_def comp_def case_prod_unfold)
qed

lemma upload_loop_reports:
  assumes "words_ok w u" "device_shows w u h pd dl ip" "mchain h p ms" "\<forall>x \<in> set ms. reportable w u h pd x"
  shows "\<exists>s'. upload_loop w opens h (Some pd) p s = Some (Inr s')
    \<and> sent s' = sent s @ map (\<lambda>x. (ip, PrintS (report_of u h dl x))) ms \<and> pFun s' = pFun s"
  using assms(3,4)
proof (induction ms arbitrary: p s)
  case Nil
  then show ?case by (subst upload_loop.simps) simp
next
  case (Cons x ms)
  obtain a m ts where x: "x = (a, m, ts)" by (cases x)
  have c: "p = Some a" "mons h a = Some m" "mchain h (m_next m) ms" using Cons.prems(1) by (auto simp: x mchain_Cons)
  obtain d where d: "devs h pd = Some d" "c_string (d_ip d) h = Inr (Some ip)"
    using assms(2) c_string_ok [of _ h] by (auto simp: device_shows_def opt_list_def)
  obtain fl st where r: "monitor_to_string w opens h (Some a) (utf8_str s) = Some (Inr (PrintS (report_of u h dl x), fl, st))"
    using monitor_to_string_report [OF assms(1,2)] Cons.prems(2) x by fastforce
  let ?s = "s\<lparr>utf8_str := st, xml_file := (if fl = None then xml_file s else fl),
    sent := sent s @ [(ip, PrintS (report_of u h dl x))]\<rparr>"
  have "upload_loop w opens h (Some pd) p s = upload_loop w opens h (Some pd) (m_next m) ?s"
    using r c d by (subst upload_loop.simps) (simp add: load_device_def load_monitor_def)
  then show ?case using Cons.IH [OF c(3), of ?s] Cons.prems(2) by auto
qed

text \<open>C17:
  upload of a device whose monitors can be reported returns 0 after calling the library function once
  for every monitor, in the order of the list, with the address of the device and the report of the monitor.\<close>

theorem upload_sends_every_monitor:
  assumes "words_ok w u" "device_shows w u h pd dl ip" "devs h pd = Some d" "mchain h (d_monitor d) ms"
    and "\<forall>x \<in> set ms. reportable w u h pd x" "pFun s \<or> dll"
  shows "\<exists>s'. upload w dll opens h (Some pd) s = Some (Inr (0, s')) \<and> pFun s'
    \<and> sent s' = sent s @ map (\<lambda>x. (ip, PrintS (report_of u h dl x))) ms"
  using upload_loop_reports [OF assms(1,2,4,5), of opens "s\<lparr>pFun := True\<rparr>"] assms(3,6)
  by (auto simp: upload_def load_device_def)

section \<open>Reading the report\<close>

lemma print_int_plain: "no_reference (print_int i)"
proof (rule no_reference_free)
  have "CHR ''#'' \<notin> set (decimal n)" for n using decimal_digits [of "CHR ''#''" n] by (auto simp: c_isdigit_def uchar_def)
  then show "CHR ''#'' \<notin> set (print_int i)" by (simp add: print_int_def)
qed

lemma target_printable: "words_ok w u \<Longrightarrow> view_ok w u v \<Longrightarrow> printable (target_node u v) \<and> strip (target_node u v) = target_node u v
    \<and> \<not> plain (target_node u v)"
  using words_okD [of w u] words_differ [of w u] print_int_plain
  by (auto simp: target_node_def view_ok_def unit_attr_def good_attrs_def text_ok_def plain_def is_text_def)

lemma apart_elements: "\<forall>n \<in> set ns. \<not> plain n \<Longrightarrow> apart ns"
  by (induction ns rule: apart.induct) auto

lemma report_printable:
  assumes "words_ok w u" "text_ok w u l" "text_ok w u dl" "\<forall>v \<in> set vs. view_ok w u v"
  shows "list_all (\<lambda>n. printable n \<and> \<not> plain n) (report u l dl vs)" "map strip (report u l dl vs) = report u l dl vs"
proof -
  have t: "\<forall>n \<in> set (map (target_node u) vs). printable n \<and> strip n = n \<and> \<not> plain n"
    using target_printable [OF assms(1)] assms(4) by auto
  then have "apart (map (target_node u) vs)" by (intro apart_elements) auto
  then show "list_all (\<lambda>n. printable n \<and> \<not> plain n) (report u l dl vs)"
    using words_okD(2) [OF assms(1)] words_differ(4) [OF assms(1)] assms(2,3) t
    by (simp add: report_def good_attrs_def plain_def is_text_def good_declared_def text_ok_def list_all_iff)
  show "map strip (report u l dl vs) = report u l dl vs" using t by (simp add: report_def)
qed

text \<open>C1:
  The report of a monitor can be read: the string monitor_to_string returns is parsed, in the legacy encoding, without an
  error and to its end, to the nodes of the report, which hold the label of the monitor and of its device and
  label, unit, type and value of every target, in order and converted to UTF-8.\<close>

theorem report_can_be_read:
  assumes "words_ok w u" "device_shows w u h pd dl ip" "reportable w u h pd (a, m, ts)"
  shows "\<exists>xml fl st' ms d'. monitor_to_string w opens h (Some a) st = Some (Inr (xml, fl, st'))
    \<and> Document_Parse True [] (Some xml) None TIXML_ENCODING_LEGACY d = Inr (ms, Some [], d')
    \<and> map strip ms = report u (the (str h (m_label m))) dl (map (\<lambda>(b, t). tview h t) ts) \<and> \<not> error d'"
proof -
  let ?r = "report u (the (str h (m_label m))) dl (map (\<lambda>(b, t). tview h t) ts)"
  have "text_ok w u (the (str h (m_label m)))" "text_ok w u dl" "\<forall>v \<in> set (map (\<lambda>(b, t). tview h t) ts). view_ok w u v"
    using assms(2,3) by (auto simp: reportable_def device_shows_def)
  note p = report_printable [OF assms(1) this]
  obtain ms d' where "Document_Parse True [] (Some (PrintS ?r)) None TIXML_ENCODING_LEGACY d = Inr (ms, Some [], d')"
    "map strip ms = map strip ?r" "\<not> error d'"
    using printed_document_parses [OF _ p(1), of d] by (auto simp: report_def)
  then show ?thesis using monitor_to_string_report [OF assms, of opens st] p(2) by auto
qed

section \<open>A value that cannot be converted\<close>

text \<open>
  A conversion that fails leaves the static string of toUtf8 as it was: a target whose value cannot be converted is
  reported with another text as its value, the word for the attribute that was set before or, where arguments are evaluated from
  the left, the label of the target.\<close>

theorem unconvertible_value_repeats:
  assumes "words_ok w u" "tgts h a = Some t" "str h (t_label t) = Some l" "str h (t_value t) = Some v" "t_unit t = None"
    and "\<forall>s \<in> set (tstrs t). str_ok h s" "converts w u l" "MultiByteToWideChar w CP_ACP v 0 = []"
  shows "target_make_xml w h (Some a) (Some kids) st = Inr (0, Some (kids @
      [XElement no_cursor (u XML_NODE_PARAM) [attr (u XML_PROP_NAME) (u l), attr (u XML_PROP_TYPE) (print_int (t_type t))]
        [XText no_cursor (if right_first w then u XML_PROP_NAME else u l) False]]), u XML_PROP_TYPE)"
proof -
  note W = words_okD [OF assms(1)]
  have s: "c_string (t_label t) h = Inr (Some l)" "c_string (t_value t) h = Inr (Some v)" "c_string None h = Inr None"
    using c_string_ok [of _ h] assms(3,4,6) by (auto simp: tstrs_def opt_list_def c_string_def)
  have "cstr v = v" using assms(4) by (auto simp: str_def split: option.splits)
  then have "toUtf8 w (Some v) x = (x, x)" for x
    using assms(8) by (simp add: toUtf8_def ANSIToUTF8_def ANSIToUnicode_def)
  moreover have "set_prop w XML_PROP_NAME l [] (u XML_NODE_PARAM)
      = Inr ([attr (u XML_PROP_NAME) (u l)], if right_first w then u XML_PROP_NAME else u l)"
    using set_prop_new [OF W(1) assms(7), of XML_PROP_NAME "[]"] by (simp add: names_def)
  moreover have "SetAttribute_int (u XML_PROP_TYPE) (t_type t) [attr (u XML_PROP_NAME) (u l)]
      = Inr [attr (u XML_PROP_NAME) (u l), attr (u XML_PROP_TYPE) (print_int (t_type t))]"
    using FindOrCreate_new [of "u XML_PROP_TYPE" "[attr (u XML_PROP_NAME) (u l)]" "SetIntValue (t_type t)"] W W(4) [THEN not_sym]
      words_differ(2) [OF assms(1), THEN not_sym]
    by (simp add: SetAttribute_int_def SetIntValue_def names_def)
  ultimately show ?thesis
    using toUtf8_converts [OF W(1)] W(3) converts_cstr [OF assms(7)] s assms(2,5)
    by (simp add: target_make_xml_def load_target_def set_prop_if_def TiXmlText_def)
qed

section \<open>Witnesses\<close>

text \<open>A system that widens every byte to a unit and back, but for texts with the given first character.\<close>

definition byte_win :: "char \<Rightarrow> bool \<Rightarrow> win" where
  "byte_win bad right = \<lparr>
     MultiByteToWideChar = (\<lambda>cp s n. if take 1 s = [bad] then [] else map (\<lambda>c. of_nat (of_char c)) s @ [0]),
     WideCharToMultiByte = (\<lambda>cp s n. map (\<lambda>x. char_of (unat x)) s @ [NUL]),
     malloc_ok = True, right_first = right\<rparr>"

lemma byte_win_converts: "take 1 (cstr s) \<noteq> [bad] \<Longrightarrow> converts (byte_win bad right) cstr s"
proof -
  assume s: "take 1 (cstr s) \<noteq> [bad]"
  have u: "unat (of_nat (of_char c) :: wchar) = of_char c" for c
  proof -
    have "(of_char c :: nat) < 65536" using nat_of_char_less_256 [of c] by linarith
    then show ?thesis by (simp add: unat_of_nat)
  qed
  have nz: "(of_nat (of_char c) :: wchar) \<noteq> 0" if "c \<noteq> NUL" for c
  proof
    assume "(of_nat (of_char c) :: wchar) = 0"
    then have "of_char c = (of_char NUL :: nat)" using u [of c] by simp
    then show False using that by (simp only: of_char_eq_iff)
  qed
  have wcs_append: "(\<And>x. x \<in> set xs \<Longrightarrow> x \<noteq> 0) \<Longrightarrow> wcs (xs @ [0]) = xs" for xs
    by (induction xs) (simp_all add: wcs_def)
  have wide: "wcs (map (\<lambda>c. of_nat (of_char c)) (cstr s) @ [0]) = map (\<lambda>c. of_nat (of_char c)) (cstr s)"
  proof (rule wcs_append)
    fix x :: wchar assume "x \<in> set (map (\<lambda>c. of_nat (of_char c)) (cstr s))"
    then obtain c where "c \<in> set (cstr s)" "x = of_nat (of_char c)" unfolding set_map by blast
    then show "x \<noteq> 0" using nz [of c] NUL_notin_cstr [of s] by metis
  qed
  have inv: "map (\<lambda>x. char_of (unat x)) (map (\<lambda>c. of_nat (of_char c) :: wchar) t) = t" for t
    unfolding map_map comp_def u by simp
  have "MultiByteToWideChar (byte_win bad right) CP_ACP (cstr s) n = map (\<lambda>c. of_nat (of_char c)) (cstr s) @ [0]" for n
    using s by (simp add: byte_win_def)
  moreover have "WideCharToMultiByte (byte_win bad right) CP_UTF8 (map (\<lambda>c. of_nat (of_char c)) (cstr s)) n = cstr s @ [NUL]" for n
    using inv [of "cstr s"] by (simp only: byte_win_def win.simps)
  moreover have "malloc_ok (byte_win bad right)" by (simp add: byte_win_def)
  ultimately show ?thesis by (simp add: converts_def wide Let_def)
qed

lemma byte_win_words: "bad \<in> {CHR ''?'', CHR ''!''} \<Longrightarrow> words_ok (byte_win bad right) cstr"
proof -
  assume bad: "bad \<in> {CHR ''?'', CHR ''!''}"
  have "\<forall>s \<in> words. cstr s = s \<and> take 1 s \<noteq> [bad] \<and> good_name s"
    using bad
    by (auto simp: words_def XML_NODE_MNTR_SERIVICE_def XML_NODE_MNTR_INFO_def XML_NODE_CTL_CMD_def XML_NODE_PARAM_def
        XML_PROP_SOFT_NAME_def XML_PROP_NAME_def XML_PROP_TYPE_def XML_PROP_UNIT_def type_name_def cstr_def good_name_def
        name_start_def name_char_def IsAlpha_def IsAlphaNum_def uchar_def)
  then show ?thesis using byte_win_converts by (auto simp: words_ok_def inj_on_def)
qed

lemma demo_reportable:
  "device_shows (byte_win (CHR ''?'') True) cstr demo_heap 0 ''d'' ''i''"
  "reportable (byte_win (CHR ''?'') True) cstr demo_heap 0 (3, demo_monitor, [(4, demo_target)])"
proof -
  have c: "text_ok (byte_win (CHR ''?'') True) cstr [x]" if "x \<in> {CHR ''d'', CHR ''m'', CHR ''w'', CHR ''0''}" for x
  proof -
    have "cstr [x] = [x]" using that by (auto simp: cstr_def)
    then show ?thesis using that byte_win_converts [of "[x]"] no_reference_free [of "[x]"] by (auto simp: text_ok_def)
  qed
  have "\<not> IsWhiteSpace (CHR ''0'')" by (simp add: IsWhiteSpace_def c_isspace_def uchar_def)
  then have "good_text ''0''" using c [of "CHR ''0''"] by (simp add: good_text_def text_ok_def cstr_def)
  then show "device_shows (byte_win (CHR ''?'') True) cstr demo_heap 0 ''d'' ''i''"
    "reportable (byte_win (CHR ''?'') True) cstr demo_heap 0 (3, demo_monitor, [(4, demo_target)])"
    using c
    by (simp_all add: device_shows_def reportable_def demo_heap_def demo_device_def demo_monitor_def demo_target_def
        opt_list_def str_ok_def str_def tview_def view_ok_def mstrs_def tlstrs_def tstrs_def cstr_def)
qed

definition no_uploads :: uploads where
  "no_uploads = \<lparr>utf8_str = [], pFun = False, xml_file = None, sent = []\<rparr>"

theorem upload_sends_every_monitor_witness:
  "\<exists>s'. upload (byte_win (CHR ''?'') True) True True demo_heap (Some 0) no_uploads = Some (Inr (0, s'))
    \<and> map fst (sent s') = [''i'']"
proof -
  have "mchain demo_heap (d_monitor demo_device) [(3, demo_monitor, [(4, demo_target)])]"
    using demo_shape by (simp add: dev_shape_def)
  moreover have "devs demo_heap 0 = Some demo_device" by (simp add: demo_heap_def)
  ultimately show ?thesis
    using upload_sends_every_monitor [OF byte_win_words demo_reportable(1), of demo_device "[(3, demo_monitor, [(4, demo_target)])]"
        no_uploads True True] demo_reportable(2)
    by (auto simp: no_uploads_def)
qed

theorem report_can_be_read_witness:
  "\<exists>xml fl st' ms d'. monitor_to_string (byte_win (CHR ''?'') True) True demo_heap (Some 3) [] = Some (Inr (xml, fl, st'))
    \<and> Document_Parse True [] (Some xml) None TIXML_ENCODING_LEGACY new_document = Inr (ms, Some [], d')
    \<and> map strip ms = report cstr ''m'' ''d'' [(Some ''w'', Some ''0'', None, 1)] \<and> \<not> error d'"
  using report_can_be_read [OF byte_win_words demo_reportable, of True "[]" new_document]
  by (simp add: demo_heap_def demo_monitor_def demo_target_def str_def tview_def cstr_def)

theorem unconvertible_value_repeats_witness:
  "\<exists>st'. target_make_xml (byte_win (CHR ''!'') False) (demo_heap\<lparr>strs := (strs demo_heap)(6 \<mapsto> ''!'' @ [NUL])\<rparr>) (Some 4) (Some []) []
    = Inr (0, Some [XElement no_cursor XML_NODE_PARAM [attr XML_PROP_NAME ''w'', attr XML_PROP_TYPE ''1'']
        [XText no_cursor ''w'' False]], st')"
proof -
  let ?h = "demo_heap\<lparr>strs := (strs demo_heap)(6 \<mapsto> ''!'' @ [NUL])\<rparr>"
  have "converts (byte_win (CHR ''!'') False) cstr ''w''" by (rule byte_win_converts) (simp add: cstr_def)
  moreover have "MultiByteToWideChar (byte_win (CHR ''!'') False) CP_ACP ''!'' 0 = []" by (simp add: byte_win_def)
  moreover have "\<not> right_first (byte_win (CHR ''!'') False)" by (simp add: byte_win_def)
  moreover have "\<not> right_first (byte_win (CHR ''!'') False)" by (simp add: byte_win_def)
  moreover have "print_int 1 = ''1''" by code_simp
  moreover have "\<forall>s \<in> {XML_NODE_PARAM, XML_PROP_NAME, XML_PROP_TYPE}. cstr s = s"
    by (simp add: XML_NODE_PARAM_def XML_PROP_NAME_def XML_PROP_TYPE_def cstr_def)
  ultimately show ?thesis
    using unconvertible_value_repeats [OF byte_win_words, of "CHR ''!''" ?h 4 demo_target "''w''" "''!''" False "[]" "[]"]
    by (simp add: demo_heap_def demo_target_def str_def tstrs_def opt_list_def str_ok_def) (simp add: cstr_def)
qed

end
