(* ===== verification/XmlDom.thy ===== *)
theory XmlDom
  imports XmlElem
begin

text \<open>
  The nodes of a TinyXML document as they are linked on the heap (\<open>tinyxml.cpp\<close> 136-434, 453-521, 853-897,
  1115-1142, 1315-1505, 1639-1760): building, searching, copying and deleting a tree of nodes with pointers to the
  parent, the first and last child and both siblings. The theory XmlParse works on the trees
  that these operations keep; attributes are those of XmlElem. An address is never used twice. A loop or
  recursion over the nodes that does not end, as on a cycle, has the result \<open>None\<close>.
\<close>

section \<open>Nodes\<close>

datatype ntype = TINYXML_DOCUMENT | TINYXML_ELEMENT | TINYXML_COMMENT | TINYXML_UNKNOWN | TINYXML_TEXT | TINYXML_DECLARATION

type_synonym link = "nat option"

text \<open>
  The fields of all classes of nodes, but for \<open>userData\<close> and the settings of a document; the error is that
  of a document.
\<close>

record dnode =
  n_type :: ntype
  n_value :: string
  n_attrs :: "xattr list"
  n_cdata :: bool
  n_decl :: "string \<times> string \<times> string"
  n_error :: xml_error
  n_location :: cursor
  n_parent :: link
  n_first :: link
  n_last :: link
  n_prev :: link
  n_next :: link

record dom =
  nodes :: "nat \<Rightarrow> dnode option"
  top :: nat

definition node_at :: "link \<Rightarrow> dom \<Rightarrow> dnode res" where
  "node_at p h = (case p of None \<Rightarrow> Inl Null_deref
     | Some a \<Rightarrow> (case nodes h a of None \<Rightarrow> Inl Use_after_free | Some n \<Rightarrow> Inr n))"

definition put_node :: "nat \<Rightarrow> dnode \<Rightarrow> dom \<Rightarrow> dom" where
  "put_node a n h = h\<lparr>nodes := (nodes h)(a \<mapsto> n)\<rparr>"

definition upd_node :: "link \<Rightarrow> (dnode \<Rightarrow> dnode) \<Rightarrow> dom \<Rightarrow> dom res" where
  "upd_node p f h = bindr (node_at p h) (\<lambda>n. Inr (put_node (the p) (f n) h))"

definition new_node :: "dnode \<Rightarrow> dom \<Rightarrow> nat \<times> dom" where
  "new_node n h = (top h, (put_node (top h) n h)\<lparr>top := Suc (top h)\<rparr>)"

definition free_node :: "nat \<Rightarrow> dom \<Rightarrow> dom res" where
  "free_node a h = (if nodes h a = None then Inl Double_free else Inr (h\<lparr>nodes := (nodes h)(a := None)\<rparr>))"

section \<open>Documents and destructors\<close>

partial_function (option) GetDocument :: "dom \<Rightarrow> link \<Rightarrow> link res option" where
  "GetDocument h p = (case p of None \<Rightarrow> Some (Inr None)
     | Some a \<Rightarrow> (case nodes h a of None \<Rightarrow> Some (Inl Use_after_free)
         | Some n \<Rightarrow> if n_type n = TINYXML_DOCUMENT then Some (Inr p) else GetDocument h (n_parent n)))"

text \<open>\<open>SetError(TIXML_ERROR_DOCUMENT_TOP_ONLY, 0, 0, ...)\<close> on the document of a node, if there is one.\<close>

definition top_only :: "link \<Rightarrow> dom \<Rightarrow> dom res option" where
  "top_only p h = bindo (GetDocument h p) (\<lambda>d. case d of None \<Rightarrow> Some (Inr h)
     | Some a \<Rightarrow> Some (upd_node d (\<lambda>n. if n_error n = TIXML_NO_ERROR
         then n\<lparr>n_error := TIXML_ERROR_DOCUMENT_TOP_ONLY\<rparr> else n) h))"

text \<open>
  The loop of \<open>~TiXmlNode\<close> and \<open>Clear\<close>, from a node on to its last sibling; \<open>delete\<close> runs it on the
  children before the memory of the node is released.
\<close>

partial_function (option) delete_list :: "link \<Rightarrow> dom \<Rightarrow> dom res option" where
  "delete_list p h = (case p of None \<Rightarrow> Some (Inr h)
     | Some a \<Rightarrow> (case nodes h a of None \<Rightarrow> Some (Inl Use_after_free)
         | Some n \<Rightarrow> bindo (delete_list (n_first n) h) (\<lambda>h. bindo (Some (free_node a h)) (delete_list (n_next n)))))"

definition delete_node :: "nat \<Rightarrow> dom \<Rightarrow> dom res option" where
  "delete_node a h = bindo (Some (node_at (Some a) h)) (\<lambda>n.
     bindo (delete_list (n_first n) h) (\<lambda>h. Some (free_node a h)))"

definition Clear :: "link \<Rightarrow> dom \<Rightarrow> dom res option" where
  "Clear this h = bindo (Some (node_at this h)) (\<lambda>n. bindo (delete_list (n_first n) h) (\<lambda>h.
     Some (upd_node this (\<lambda>n. n\<lparr>n_first := None, n_last := None\<rparr>) h)))"

section \<open>Linking and copying\<close>

definition LinkEndChild :: "link \<Rightarrow> link \<Rightarrow> dom \<Rightarrow> (link \<times> dom) res option" where
  "LinkEndChild this node h =
     bindo (Some (node_at node h)) (\<lambda>n.
     if \<not> (n_parent n = None \<or> n_parent n = this) then Some (Inl Assert_failed)
     else bindo (GetDocument h node) (\<lambda>d. bindo (if d = None then Some (Inr None) else GetDocument h this) (\<lambda>d'.
       if \<not> (d = None \<or> d = d') then Some (Inl Assert_failed)
       else if n_type n = TINYXML_DOCUMENT
       then bindo (delete_node (the node) h) (\<lambda>h. bindo (top_only this h) (\<lambda>h. Some (Inr (None, h))))
       else Some (
         bindr (node_at this h) (\<lambda>t.
         bindr (upd_node node (\<lambda>n. n\<lparr>n_parent := this, n_prev := n_last t, n_next := None\<rparr>) h) (\<lambda>h.
         bindr (if n_last t \<noteq> None then upd_node (n_last t) (\<lambda>l. l\<lparr>n_next := node\<rparr>) h
                else upd_node this (\<lambda>t. t\<lparr>n_first := node\<rparr>) h) (\<lambda>h.
         bindr (upd_node this (\<lambda>t. t\<lparr>n_last := node\<rparr>) h) (\<lambda>h. Inr (node, h)))))))))"

text \<open>The nodes that the constructors make, and what the members \<open>CopyTo\<close> copy into them but for the children.\<close>

definition new_dnode :: "ntype \<Rightarrow> dnode" where
  "new_dnode ty = \<lparr>n_type = ty, n_value = '''', n_attrs = [], n_cdata = False, n_decl = ('''', '''', ''''),
     n_error = TIXML_NO_ERROR, n_location = no_cursor, n_parent = None, n_first = None, n_last = None, n_prev = None, n_next = None\<rparr>"

definition Node_CopyTo :: "dnode \<Rightarrow> dnode \<Rightarrow> dnode" where
  "Node_CopyTo n target = target\<lparr>n_value := cstr (n_value n), n_location := n_location n\<rparr>"

definition Element_CopyTo :: "dnode \<Rightarrow> dnode \<Rightarrow> dnode res" where
  "Element_CopyTo n target = (let target = Node_CopyTo n target in
     bindr (foldr_res (\<lambda>a. SetAttribute (cstr (aname a)) (cstr (avalue a))) (attr_walk (n_attrs n)) (n_attrs target)) (\<lambda>as.
     Inr (target\<lparr>n_attrs := as\<rparr>)))"

definition Text_CopyTo :: "dnode \<Rightarrow> dnode \<Rightarrow> dnode" where
  "Text_CopyTo n target = (Node_CopyTo n target)\<lparr>n_cdata := n_cdata n\<rparr>"

definition Declaration_CopyTo :: "dnode \<Rightarrow> dnode \<Rightarrow> dnode" where
  "Declaration_CopyTo n target = (Node_CopyTo n target)\<lparr>n_decl := n_decl n\<rparr>"

definition Document_CopyTo :: "dnode \<Rightarrow> dnode \<Rightarrow> dnode" where
  "Document_CopyTo n target = (Node_CopyTo n target)\<lparr>n_error := n_error n\<rparr>"

definition copy_node :: "dnode \<Rightarrow> dnode res" where
  "copy_node n = (let target = new_dnode (n_type n) in case n_type n of
       TINYXML_ELEMENT \<Rightarrow> Element_CopyTo n target
     | TINYXML_TEXT \<Rightarrow> Inr (Text_CopyTo n target)
     | TINYXML_DECLARATION \<Rightarrow> Inr (Declaration_CopyTo n target)
     | TINYXML_DOCUMENT \<Rightarrow> Inr (Document_CopyTo n target)
     | TINYXML_COMMENT \<Rightarrow> Inr (Node_CopyTo n target)
     | TINYXML_UNKNOWN \<Rightarrow> Inr (Node_CopyTo n target))"

text \<open>The loop of \<open>CopyTo\<close> over the children from \<open>p\<close> on: each is cloned and linked to the node \<open>b\<close>. Only elements and documents copy their children.\<close>

partial_function (option) clone_list :: "link \<Rightarrow> nat \<Rightarrow> dom \<Rightarrow> dom res option" where
  "clone_list p b h = (case p of None \<Rightarrow> Some (Inr h)
     | Some c \<Rightarrow> bindo (Some (node_at p h)) (\<lambda>n. bindo (Some (copy_node n)) (\<lambda>m.
         case new_node m h of (c', h) \<Rightarrow>
         bindo (if n_type n = TINYXML_ELEMENT \<or> n_type n = TINYXML_DOCUMENT then clone_list (n_first n) c' h else Some (Inr h)) (\<lambda>h.
         bindo (LinkEndChild (Some b) (Some c') h) (\<lambda>(_, h).
         bindo (Some (node_at p h)) (\<lambda>n. clone_list (n_next n) b h))))))"

definition Clone :: "link \<Rightarrow> dom \<Rightarrow> (nat \<times> dom) res option" where
  "Clone p h = bindo (Some (node_at p h)) (\<lambda>n. bindo (Some (copy_node n)) (\<lambda>m.
     case new_node m h of (c, h) \<Rightarrow>
     bindo (if n_type n = TINYXML_ELEMENT \<or> n_type n = TINYXML_DOCUMENT then clone_list (n_first n) c h else Some (Inr h)) (\<lambda>h.
       Some (Inr (c, h)))))"

definition is_document :: "link \<Rightarrow> dom \<Rightarrow> bool res" where
  "is_document p h = bindr (node_at p h) (\<lambda>n. Inr (n_type n = TINYXML_DOCUMENT))"

definition InsertEndChild :: "link \<Rightarrow> link \<Rightarrow> dom \<Rightarrow> (link \<times> dom) res option" where
  "InsertEndChild this addThis h = bindo (Some (is_document addThis h)) (\<lambda>d.
     if d then bindo (top_only this h) (\<lambda>h. Some (Inr (None, h)))
     else bindo (Clone addThis h) (\<lambda>(c, h). LinkEndChild this (Some c) h))"

text \<open>\<open>if (p) p->next = q; else firstChild = q;\<close> and the same with \<open>prev\<close> and \<open>lastChild\<close>.\<close>

definition link_next :: "link \<Rightarrow> link \<Rightarrow> link \<Rightarrow> dom \<Rightarrow> dom res" where
  "link_next this p q h = (if p \<noteq> None then upd_node p (\<lambda>n. n\<lparr>n_next := q\<rparr>) h else upd_node this (\<lambda>n. n\<lparr>n_first := q\<rparr>) h)"

definition link_prev :: "link \<Rightarrow> link \<Rightarrow> link \<Rightarrow> dom \<Rightarrow> dom res" where
  "link_prev this p q h = (if p \<noteq> None then upd_node p (\<lambda>n. n\<lparr>n_prev := q\<rparr>) h else upd_node this (\<lambda>n. n\<lparr>n_last := q\<rparr>) h)"

definition InsertBeforeChild :: "link \<Rightarrow> link \<Rightarrow> link \<Rightarrow> dom \<Rightarrow> (link \<times> dom) res option" where
  "InsertBeforeChild this beforeThis addThis h =
     (if beforeThis = None then Some (Inr (None, h))
      else bindo (Some (node_at beforeThis h)) (\<lambda>b.
        if n_parent b \<noteq> this then Some (Inr (None, h))
        else bindo (Some (is_document addThis h)) (\<lambda>d.
          if d then bindo (top_only this h) (\<lambda>h. Some (Inr (None, h)))
          else bindo (Clone addThis h) (\<lambda>(c, h). Some (
            bindr (node_at beforeThis h) (\<lambda>b.
            bindr (upd_node (Some c) (\<lambda>n. n\<lparr>n_parent := this, n_next := beforeThis, n_prev := n_prev b\<rparr>) h) (\<lambda>h.
            bindr (node_at this h) (\<lambda>t.
            if n_prev b = None \<and> n_first t \<noteq> beforeThis then Inl Assert_failed
            else bindr (link_next this (n_prev b) (Some c) h) (\<lambda>h.
            bindr (upd_node beforeThis (\<lambda>n. n\<lparr>n_prev := Some c\<rparr>) h) (\<lambda>h. Inr (Some c, h)))))))))))"

definition InsertAfterChild :: "link \<Rightarrow> link \<Rightarrow> link \<Rightarrow> dom \<Rightarrow> (link \<times> dom) res option" where
  "InsertAfterChild this afterThis addThis h =
     (if afterThis = None then Some (Inr (None, h))
      else bindo (Some (node_at afterThis h)) (\<lambda>b.
        if n_parent b \<noteq> this then Some (Inr (None, h))
        else bindo (Some (is_document addThis h)) (\<lambda>d.
          if d then bindo (top_only this h) (\<lambda>h. Some (Inr (None, h)))
          else bindo (Clone addThis h) (\<lambda>(c, h). Some (
            bindr (node_at afterThis h) (\<lambda>b.
            bindr (upd_node (Some c) (\<lambda>n. n\<lparr>n_parent := this, n_prev := afterThis, n_next := n_next b\<rparr>) h) (\<lambda>h.
            bindr (node_at this h) (\<lambda>t.
            if n_next b = None \<and> n_last t \<noteq> afterThis then Inl Assert_failed
            else bindr (link_prev this (n_next b) (Some c) h) (\<lambda>h.
            bindr (upd_node afterThis (\<lambda>n. n\<lparr>n_next := Some c\<rparr>) h) (\<lambda>h. Inr (Some c, h)))))))))))"

definition ReplaceChild :: "link \<Rightarrow> link \<Rightarrow> link \<Rightarrow> dom \<Rightarrow> (link \<times> dom) res option" where
  "ReplaceChild this replaceThis withThis h =
     (case replaceThis of None \<Rightarrow> Some (Inr (None, h))
      | Some x \<Rightarrow> bindo (Some (node_at replaceThis h)) (\<lambda>b.
        if n_parent b \<noteq> this then Some (Inr (None, h))
        else bindo (Some (is_document withThis h)) (\<lambda>d.
          if d then bindo (top_only this h) (\<lambda>h. Some (Inr (None, h)))
          else bindo (Clone withThis h) (\<lambda>(c, h).
            bindo (Some (
              bindr (node_at replaceThis h) (\<lambda>b.
              bindr (upd_node (Some c) (\<lambda>n. n\<lparr>n_next := n_next b, n_prev := n_prev b\<rparr>) h) (\<lambda>h.
              bindr (link_prev this (n_next b) (Some c) h) (\<lambda>h.
              link_next this (n_prev b) (Some c) h))))) (\<lambda>h.
            bindo (delete_node x h) (\<lambda>h.
              Some (bindr (upd_node (Some c) (\<lambda>n. n\<lparr>n_parent := this\<rparr>) h) (\<lambda>h. Inr (Some c, h)))))))))"

definition RemoveChild :: "link \<Rightarrow> link \<Rightarrow> dom \<Rightarrow> (bool \<times> dom) res option" where
  "RemoveChild this removeThis h =
     (case removeThis of None \<Rightarrow> Some (Inr (False, h))
      | Some x \<Rightarrow> bindo (Some (node_at removeThis h)) (\<lambda>b.
        if n_parent b \<noteq> this then Some (Inl Assert_failed)
        else bindo (Some (
          bindr (link_prev this (n_next b) (n_prev b) h) (\<lambda>h.
          bindr (node_at removeThis h) (\<lambda>b.
          link_next this (n_prev b) (n_next b) h)))) (\<lambda>h.
          bindo (delete_node x h) (\<lambda>h. Some (Inr (True, h))))))"

section \<open>Searching\<close>

text \<open>The loops over siblings, forwards and backwards, for a value; without one (\<open>None\<close>) the link itself is the answer.\<close>

definition has_value :: "string \<Rightarrow> dnode \<Rightarrow> bool" where
  "has_value v n \<longleftrightarrow> cstr (n_value n) = cstr v"

partial_function (option) search :: "(dnode \<Rightarrow> link) \<Rightarrow> (dnode \<Rightarrow> bool) \<Rightarrow> dom \<Rightarrow> link \<Rightarrow> link res option" where
  "search nxt P h p = (case p of None \<Rightarrow> Some (Inr None)
     | Some a \<Rightarrow> (case nodes h a of None \<Rightarrow> Some (Inl Use_after_free)
         | Some n \<Rightarrow> if P n then Some (Inr p) else search nxt P h (nxt n)))"

definition search_value :: "(dnode \<Rightarrow> link) \<Rightarrow> string option \<Rightarrow> dom \<Rightarrow> link \<Rightarrow> link res option" where
  "search_value nxt v h p = (case v of None \<Rightarrow> Some (Inr p) | Some s \<Rightarrow> search nxt (has_value s) h p)"

definition FirstChild :: "string option \<Rightarrow> dom \<Rightarrow> link \<Rightarrow> link res option" where
  "FirstChild v h this = bindo (Some (node_at this h)) (\<lambda>n. search_value n_next v h (n_first n))"

definition LastChild :: "string option \<Rightarrow> dom \<Rightarrow> link \<Rightarrow> link res option" where
  "LastChild v h this = bindo (Some (node_at this h)) (\<lambda>n. search_value n_prev v h (n_last n))"

definition NextSibling :: "string option \<Rightarrow> dom \<Rightarrow> link \<Rightarrow> link res option" where
  "NextSibling v h this = bindo (Some (node_at this h)) (\<lambda>n. search_value n_next v h (n_next n))"

definition PreviousSibling :: "string option \<Rightarrow> dom \<Rightarrow> link \<Rightarrow> link res option" where
  "PreviousSibling v h this = bindo (Some (node_at this h)) (\<lambda>n. search_value n_prev v h (n_prev n))"

definition IterateChildren :: "string option \<Rightarrow> dom \<Rightarrow> link \<Rightarrow> link \<Rightarrow> link res option" where
  "IterateChildren v h this previous =
     (if previous = None then FirstChild v h this
      else bindo (Some (node_at previous h)) (\<lambda>n.
        if n_parent n \<noteq> this then Some (Inl Assert_failed) else NextSibling v h previous))"

partial_function (option) search_element :: "string option \<Rightarrow> dom \<Rightarrow> link \<Rightarrow> link res option" where
  "search_element v h p = (case p of None \<Rightarrow> Some (Inr None)
     | Some a \<Rightarrow> (case nodes h a of None \<Rightarrow> Some (Inl Use_after_free)
         | Some n \<Rightarrow> if n_type n = TINYXML_ELEMENT then Some (Inr p)
             else bindo (NextSibling v h p) (search_element v h)))"

definition FirstChildElement :: "string option \<Rightarrow> dom \<Rightarrow> link \<Rightarrow> link res option" where
  "FirstChildElement v h this = bindo (FirstChild v h this) (search_element v h)"

definition NextSiblingElement :: "string option \<Rightarrow> dom \<Rightarrow> link \<Rightarrow> link res option" where
  "NextSiblingElement v h this = bindo (NextSibling v h this) (search_element v h)"

text \<open>A \<open>TiXmlHandle\<close> is a pointer that may be null; \<open>Child\<close> and \<open>ChildElement\<close> count.\<close>

definition Handle_FirstChild :: "string option \<Rightarrow> dom \<Rightarrow> link \<Rightarrow> link res option" where
  "Handle_FirstChild v h node = (if node = None then Some (Inr None) else FirstChild v h node)"

definition Handle_FirstChildElement :: "string option \<Rightarrow> dom \<Rightarrow> link \<Rightarrow> link res option" where
  "Handle_FirstChildElement v h node = (if node = None then Some (Inr None) else FirstChildElement v h node)"

fun skip_siblings :: "nat \<Rightarrow> (dom \<Rightarrow> link \<Rightarrow> link res option) \<Rightarrow> dom \<Rightarrow> link \<Rightarrow> link res option" where
  "skip_siblings 0 nxt h p = Some (Inr p)"
| "skip_siblings (Suc n) nxt h p = (if p = None then Some (Inr None) else bindo (nxt h p) (skip_siblings n nxt h))"

definition Child :: "string option \<Rightarrow> int \<Rightarrow> dom \<Rightarrow> link \<Rightarrow> link res option" where
  "Child v count h node = (if node = None then Some (Inr None)
     else bindo (FirstChild v h node) (skip_siblings (nat count) (NextSibling v) h))"

definition ChildElement :: "string option \<Rightarrow> int \<Rightarrow> dom \<Rightarrow> link \<Rightarrow> link res option" where
  "ChildElement v count h node = (if node = None then Some (Inr None)
     else bindo (FirstChildElement v h node) (skip_siblings (nat count) (NextSiblingElement v) h))"

end
