(* ===== verification/DomTree.thy ===== *)
theory DomTree
  imports XmlDom
begin

text \<open>
  The heap of XmlDom seen as trees: which nodes are linked as a tree, what linking, removing and deleting
  does to the trees of a document, and what the members that search find.
\<close>

section \<open>Trees on the heap\<close>

datatype dtree = DT (root: nat) (kids: "dtree list")

fun addrs :: "dtree \<Rightarrow> nat list" where
  "addrs (DT a ts) = a # concat (map addrs ts)"

abbreviation addrs_list :: "dtree list \<Rightarrow> nat list" where
  "addrs_list ts \<equiv> concat (map addrs ts)"

definition head :: "dtree list \<Rightarrow> link" where
  "head ts = (case ts of [] \<Rightarrow> None | t # _ \<Rightarrow> Some (root t))"

definition final :: "dtree list \<Rightarrow> link" where
  "final ts = (if ts = [] then None else Some (root (last ts)))"

text \<open>
  The tree is linked at a place with this parent and these siblings; and the list of children of \<open>a\<close> between
  a previous and a next sibling.
\<close>

fun tree_at :: "dom \<Rightarrow> link \<Rightarrow> link \<Rightarrow> link \<Rightarrow> dtree \<Rightarrow> bool"
  and list_at :: "dom \<Rightarrow> nat \<Rightarrow> link \<Rightarrow> dtree list \<Rightarrow> link \<Rightarrow> bool" where
  "tree_at h par pv nx (DT a ts) \<longleftrightarrow> (\<exists>n. nodes h a = Some n \<and> n_parent n = par \<and> n_prev n = pv \<and> n_next n = nx
     \<and> n_first n = head ts \<and> n_last n = final ts) \<and> list_at h a None ts None"
| "list_at h a pv [] nx \<longleftrightarrow> True"
| "list_at h a pv (t # ts) nx \<longleftrightarrow>
     tree_at h (Some a) pv (if ts = [] then nx else head ts) t \<and> list_at h a (Some (root t)) ts nx"

lemma head_simps [simp]: "head [] = None" "head (t # ts) = Some (root t)" "head (xs @ ys) = (if xs = [] then head ys else head xs)"
  by (auto simp: head_def split: list.split)

lemma final_simps [simp]: "final [] = None" "final (ts @ [t]) = Some (root t)"
  "final (xs @ ys) = (if ys = [] then final xs else final ys)" "final (t # ts) = (if ts = [] then Some (root t) else final ts)"
  by (auto simp: final_def)

lemma head_None [simp]: "head ts = None \<longleftrightarrow> ts = []" "final ts = None \<longleftrightarrow> ts = []"
  by (auto simp: head_def final_def split: list.split)

lemma root_addrs [simp]: "root t \<in> set (addrs t)"
  by (cases t) simp

lemma head_final_addrs: "head ts = Some a \<Longrightarrow> a \<in> set (addrs_list ts)" "final ts = Some a \<Longrightarrow> a \<in> set (addrs_list ts)"
  by (auto simp: head_def final_def split: list.splits if_splits intro: last_in_set bexI [of _ "last ts"])

lemma list_at_append:
  "list_at h a pv (xs @ ys) nx \<longleftrightarrow> list_at h a pv xs (if ys = [] then nx else head ys)
    \<and> list_at h a (if xs = [] then pv else final xs) ys nx"
proof (induction xs arbitrary: pv)
  case (Cons x xs)
  then show ?case by (cases "xs = []") (auto simp: final_def)
qed auto

lemma tree_list_cong:
  "(\<forall>b \<in> set (addrs t). nodes h' b = nodes h b) \<Longrightarrow> tree_at h' par pv nx t = tree_at h par pv nx t"
  "(\<forall>b \<in> set (addrs_list ts). nodes h' b = nodes h b) \<Longrightarrow> list_at h' a pv ts nx = list_at h a pv ts nx"
  by (induction h par pv nx t and h a pv ts nx rule: tree_at_list_at.induct) auto

lemma put_simps_dom [simp]: "nodes (put_node a n h) b = (if b = a then Some n else nodes h b)" "top (put_node a n h) = top h"
  by (auto simp: put_node_def)

lemma tree_root: "tree_at h par pv nx t \<Longrightarrow> \<exists>n. nodes h (root t) = Some n \<and> n_parent n = par \<and> n_prev n = pv \<and> n_next n = nx
    \<and> n_first n = head (kids t) \<and> n_last n = final (kids t)"
  by (cases t) auto

lemma tree_put_root:
  assumes "tree_at h par pv nx t" "distinct (addrs t)" "nodes h (root t) = Some n"
    and "n_first n' = n_first n" "n_last n' = n_last n"
  shows "tree_at (put_node (root t) n' h) (n_parent n') (n_prev n') (n_next n') t"
proof -
  obtain a ts where t: "t = DT a ts" by (cases t)
  have "list_at (put_node a n' h) a None ts None = list_at h a None ts None"
    by (rule tree_list_cong) (use assms(2) t in auto)
  then show ?thesis using assms t by auto
qed

text \<open>What a node holds but for its links; the tree of what the nodes hold.\<close>

definition bare :: "dnode \<Rightarrow> dnode" where
  "bare n = n\<lparr>n_parent := None, n_first := None, n_last := None, n_prev := None, n_next := None\<rparr>"

definition info :: "dom \<Rightarrow> nat \<Rightarrow> dnode option" where
  "info h a = map_option bare (nodes h a)"

lemma bare_simps [simp]: "bare (n\<lparr>n_parent := p\<rparr>) = bare n" "bare (n\<lparr>n_first := p\<rparr>) = bare n" "bare (n\<lparr>n_last := p\<rparr>) = bare n"
  "bare (n\<lparr>n_prev := p\<rparr>) = bare n" "bare (n\<lparr>n_next := p\<rparr>) = bare n" "bare (bare n) = bare n"
  "n_type (bare n) = n_type n"
  by (simp_all add: bare_def)

lemma info_at: "nodes h a = Some n \<Longrightarrow> info h a = Some (bare n)"
  by (simp add: info_def)

lemma info_put [simp]: "info (put_node a n h) b = (if b = a then Some (bare n) else info h b)"
  by (simp add: info_def)

text \<open>Setting the link behind the last and before the first of a list.\<close>

definition set_next :: "link \<Rightarrow> link \<Rightarrow> dom \<Rightarrow> dom" where
  "set_next p q h = (case p of None \<Rightarrow> h | Some a \<Rightarrow> put_node a ((the (nodes h a))\<lparr>n_next := q\<rparr>) h)"

definition set_prev :: "link \<Rightarrow> link \<Rightarrow> dom \<Rightarrow> dom" where
  "set_prev p q h = (case p of None \<Rightarrow> h | Some a \<Rightarrow> put_node a ((the (nodes h a))\<lparr>n_prev := q\<rparr>) h)"

lemma set_other [simp]:
  "p \<noteq> Some b \<Longrightarrow> nodes (set_next p q h) b = nodes h b" "p \<noteq> Some b \<Longrightarrow> nodes (set_prev p q h) b = nodes h b"
  "top (set_next p q h) = top h" "top (set_prev p q h) = top h"
  by (auto simp: set_next_def set_prev_def split: option.split)

lemma info_set [simp]: "(\<And>a. p = Some a \<Longrightarrow> nodes h a \<noteq> None) \<Longrightarrow> info (set_next p q h) = info h"
  "(\<And>a. p = Some a \<Longrightarrow> nodes h a \<noteq> None) \<Longrightarrow> info (set_prev p q h) = info h"
  by (auto simp: set_next_def set_prev_def info_def fun_eq_iff split: option.split)

lemma list_set_next:
  assumes "list_at h a pv ts nx" "distinct (addrs_list ts)"
  shows "list_at (set_next (final ts) q h) a pv ts q"
proof (cases ts rule: rev_cases)
  case (snoc us t)
  have d: "distinct (addrs t)" "set (addrs_list us) \<inter> set (addrs t) = {}" using assms(2) snoc by auto
  have l: "tree_at h (Some a) (if us = [] then pv else final us) nx t" "list_at h a pv us (Some (root t))"
    using assms(1) snoc by (auto simp: list_at_append)
  obtain n where n: "nodes h (root t) = Some n" "tree_at h (Some a) (if us = [] then pv else final us) nx t"
      "list_at h a pv us (Some (root t))"
    using tree_root [OF l(1)] l by blast
  let ?h = "set_next (Some (root t)) q h"
  have "tree_at ?h (Some a) (if us = [] then pv else final us) q t"
    using tree_put_root [OF n(2) d(1) n(1), of "n\<lparr>n_next := q\<rparr>"] tree_root [OF n(2)] n(1) by (simp add: set_next_def)
  moreover have "list_at ?h a pv us (Some (root t))"
    using n(3) d(2) root_addrs [of t] by (subst tree_list_cong(2) [of us ?h h]) (auto simp del: root_addrs intro!: set_other)
  ultimately show ?thesis by (simp add: snoc list_at_append)
qed (simp add: set_next_def)

lemma list_set_prev:
  assumes "list_at h a pv ts nx" "distinct (addrs_list ts)"
  shows "list_at (set_prev (head ts) q h) a q ts nx"
proof (cases ts)
  case (Cons t us)
  have d: "distinct (addrs t)" "set (addrs_list us) \<inter> set (addrs t) = {}" using assms(2) Cons by auto
  have l: "tree_at h (Some a) pv (if us = [] then nx else head us) t" "list_at h a (Some (root t)) us nx"
    using assms(1) Cons by auto
  obtain n where n: "nodes h (root t) = Some n" "tree_at h (Some a) pv (if us = [] then nx else head us) t"
      "list_at h a (Some (root t)) us nx"
    using tree_root [OF l(1)] l by blast
  let ?h = "set_prev (Some (root t)) q h"
  have "tree_at ?h (Some a) q (if us = [] then nx else head us) t"
    using tree_put_root [OF n(2) d(1) n(1), of "n\<lparr>n_prev := q\<rparr>"] tree_root [OF n(2)] n(1) by (simp add: set_prev_def)
  moreover have "list_at ?h a (Some (root t)) us nx"
    using n(3) d(2) root_addrs [of t] by (subst tree_list_cong(2) [of us ?h h]) (auto simp del: root_addrs intro!: set_other)
  ultimately show ?thesis by (simp add: Cons)
qed (simp add: set_prev_def)

lemma upd_node_at: "nodes h a = Some n \<Longrightarrow> upd_node (Some a) f h = Inr (put_node a (f n) h)"
  by (simp add: upd_node_def node_at_def)

lemma list_final:
  assumes "list_at h a pv ts nx" "final ts = Some b"
  shows "\<exists>n. nodes h b = Some n \<and> n_parent n = Some a \<and> n_next n = nx"
  using assms by (cases ts rule: rev_cases) (auto simp: list_at_append dest: tree_root)

lemma list_head:
  assumes "list_at h a pv ts nx" "head ts = Some b"
  shows "\<exists>n. nodes h b = Some n \<and> n_parent n = Some a \<and> n_prev n = pv"
  using assms by (cases ts) (auto dest: tree_root)

text \<open>What relinking behind or before a list of siblings does to the list, to the parent and to the rest.\<close>

lemma link_next_step:
  assumes "list_at h a pv xs nx" "distinct (a # addrs_list xs)" "nodes h a = Some t"
  obtains h' where "link_next (Some a) (final xs) q h = Inr h'" "list_at h' a pv xs q"
    "nodes h' a = Some (t\<lparr>n_first := if xs = [] then q else n_first t\<rparr>)"
    "\<And>b. b \<notin> set (a # addrs_list xs) \<Longrightarrow> nodes h' b = nodes h b" "top h' = top h" "info h' = info h"
proof (cases "xs = []")
  case True
  with that [of "put_node a (t\<lparr>n_first := q\<rparr>) h"] show ?thesis
    using assms(3) by (simp add: link_next_def upd_node_at fun_eq_iff info_def)
next
  case False
  then obtain b where b: "final xs = Some b" by (cases "final xs") auto
  then obtain n where n: "nodes h b = Some n" using list_final [OF assms(1)] by blast
  have i: "b \<in> set (addrs_list xs)" by (rule head_final_addrs(2) [OF b])
  then have "a \<noteq> b" using assms(2) by auto
  show ?thesis
  proof (rule that)
    show "link_next (Some a) (final xs) q h = Inr (set_next (final xs) q h)"
      using b n by (simp add: link_next_def upd_node_at set_next_def)
    show "list_at (set_next (final xs) q h) a pv xs q" by (rule list_set_next [OF assms(1)]) (use assms(2) in simp)
    show "nodes (set_next (final xs) q h) a = Some (t\<lparr>n_first := if xs = [] then q else n_first t\<rparr>)"
      using assms(3) \<open>a \<noteq> b\<close> b False by simp
    show "nodes (set_next (final xs) q h) c = nodes h c" if "c \<notin> set (a # addrs_list xs)" for c
      using that b i by (intro set_other) auto
    show "info (set_next (final xs) q h) = info h" by (rule info_set) (use n b in simp)
  qed simp
qed

lemma link_prev_step:
  assumes "list_at h a pv xs nx" "distinct (a # addrs_list xs)" "nodes h a = Some t"
  obtains h' where "link_prev (Some a) (head xs) q h = Inr h'" "list_at h' a q xs nx"
    "nodes h' a = Some (t\<lparr>n_last := if xs = [] then q else n_last t\<rparr>)"
    "\<And>b. b \<notin> set (a # addrs_list xs) \<Longrightarrow> nodes h' b = nodes h b" "top h' = top h" "info h' = info h"
proof (cases "xs = []")
  case True
  with that [of "put_node a (t\<lparr>n_last := q\<rparr>) h"] show ?thesis
    using assms(3) by (simp add: link_prev_def upd_node_at fun_eq_iff info_def)
next
  case False
  then obtain b where b: "head xs = Some b" by (cases "head xs") auto
  then obtain n where n: "nodes h b = Some n" using list_head [OF assms(1)] by blast
  have i: "b \<in> set (addrs_list xs)" by (rule head_final_addrs(1) [OF b])
  then have "a \<noteq> b" using assms(2) by auto
  show ?thesis
  proof (rule that)
    show "link_prev (Some a) (head xs) q h = Inr (set_prev (head xs) q h)"
      using b n by (simp add: link_prev_def upd_node_at set_prev_def)
    show "list_at (set_prev (head xs) q h) a q xs nx" by (rule list_set_prev [OF assms(1)]) (use assms(2) in simp)
    show "nodes (set_prev (head xs) q h) a = Some (t\<lparr>n_last := if xs = [] then q else n_last t\<rparr>)"
      using assms(3) \<open>a \<noteq> b\<close> b False by simp
    show "nodes (set_prev (head xs) q h) c = nodes h c" if "c \<notin> set (a # addrs_list xs)" for c
      using that b i by (intro set_other) auto
    show "info (set_prev (head xs) q h) = info h" by (rule info_set) (use n b in simp)
  qed simp
qed

text \<open>Releasing a tree releases its nodes and no other.\<close>

definition free_all :: "nat set \<Rightarrow> dom \<Rightarrow> dom" where
  "free_all A h = h\<lparr>nodes := \<lambda>b. if b \<in> A then None else nodes h b\<rparr>"

lemma free_all_simps [simp]: "nodes (free_all A h) b = (if b \<in> A then None else nodes h b)" "top (free_all A h) = top h"
  "free_all {} h = h" "free_all A (free_all B h) = free_all (A \<union> B) h"
  by (auto simp: free_all_def fun_eq_iff)

lemma info_free [simp]: "info (free_all A h) b = (if b \<in> A then None else info h b)"
  by (simp add: info_def)

lemma free_node_all: "nodes h a \<noteq> None \<Longrightarrow> free_node a h = Inr (free_all {a} h)"
  by (auto simp: free_node_def free_all_def fun_eq_iff)

lemma delete_list_None [simp]: "delete_list None h = Some (Inr h)"
  by (simp add: delete_list.simps)

lemma delete_siblings:
  assumes "\<And>t h par pv nx. t \<in> set ts \<Longrightarrow> tree_at h par pv nx t \<Longrightarrow> distinct (addrs t) \<Longrightarrow>
      delete_list (head (kids t)) h = Some (Inr (free_all (set (addrs_list (kids t))) h))"
    and "list_at h a pv ts None" "distinct (addrs_list ts)"
  shows "delete_list (head ts) h = Some (Inr (free_all (set (addrs_list ts)) h))"
  using assms
proof (induction ts arbitrary: h pv)
  case (Cons t ts)
  have l: "tree_at h (Some a) pv (head ts) t" "list_at h a (Some (root t)) ts None"
    using Cons.prems(2) by (auto split: if_splits)
  obtain n where n: "nodes h (root t) = Some n" "n_next n = head ts" "n_first n = head (kids t)"
    using tree_root [OF l(1)] by blast
  have s: "set (addrs t) = insert (root t) (set (addrs_list (kids t)))" "root t \<notin> set (addrs_list (kids t))"
    using Cons.prems(3) by (cases t, auto)+
  have d: "set (addrs t) \<inter> set (addrs_list ts) = {}" "distinct (addrs t)" "distinct (addrs_list ts)"
    using Cons.prems(3) by auto
  have k: "delete_list (n_first n) h = Some (Inr (free_all (set (addrs_list (kids t))) h))"
    unfolding n(3) by (rule Cons.prems(1) [OF _ l(1) d(2)]) simp
  have f: "free_node (root t) (free_all (set (addrs_list (kids t))) h) = Inr (free_all (set (addrs t)) h)"
    using n(1) s by (subst free_node_all) auto
  have "list_at (free_all (set (addrs t)) h) a (Some (root t)) ts None"
    using l(2) d(1) by (subst tree_list_cong(2) [of ts _ h]) auto
  then have r: "delete_list (head ts) (free_all (set (addrs t)) h)
      = Some (Inr (free_all (set (addrs_list ts)) (free_all (set (addrs t)) h)))"
    by (intro Cons.IH) (use Cons.prems(1) d(3) in auto)
  show ?case
    by (simp only: head_simps, subst delete_list.simps) (simp add: n(1,2) k f r Un_commute del: addrs.simps set_concat)
qed simp

lemma delete_kids:
  "tree_at h par pv nx t \<Longrightarrow> distinct (addrs t) \<Longrightarrow>
    delete_list (head (kids t)) h = Some (Inr (free_all (set (addrs_list (kids t))) h))"
proof (induction t arbitrary: h par pv nx)
  case (DT a ts)
  have l: "list_at h a None ts None" "distinct (addrs_list ts)" using DT.prems by auto
  show ?case unfolding dtree.sel by (rule delete_siblings [OF _ l]) (rule DT.IH)
qed

lemma delete_node_tree:
  assumes "tree_at h par pv nx t" "distinct (addrs t)"
  shows "delete_node (root t) h = Some (Inr (free_all (set (addrs t)) h))"
proof -
  obtain n where n: "nodes h (root t) = Some n" "n_first n = head (kids t)"
    using tree_root [OF assms(1)] by blast
  have s: "set (addrs t) = insert (root t) (set (addrs_list (kids t)))" "root t \<notin> set (addrs_list (kids t))"
    using assms(2) by (cases t, auto)+
  show ?thesis
    using n delete_kids [OF assms] s by (simp add: delete_node_def node_at_def free_node_all)
qed

lemma if_head [simp]: "(if ts = [] then None else head ts) = head ts" "(if ts = [] then None else final ts) = final ts"
  by auto

lemma tree_frame:
  "tree_at h par pv nx t \<Longrightarrow> (\<And>b. b \<in> set (addrs t) \<Longrightarrow> nodes h' b = nodes h b) \<Longrightarrow> tree_at h' par pv nx t"
  "list_at h a pv ts nx \<Longrightarrow> (\<And>b. b \<in> set (addrs_list ts) \<Longrightarrow> nodes h' b = nodes h b) \<Longrightarrow> list_at h' a pv ts nx"
  using tree_list_cong by blast+

text \<open>The steps inside a list of siblings.\<close>

lemma list_middle:
  "list_at h a pv (xs @ t # ys) nx \<longleftrightarrow> list_at h a pv xs (Some (root t))
    \<and> tree_at h (Some a) (if xs = [] then pv else final xs) (if ys = [] then nx else head ys) t \<and> list_at h a (Some (root t)) ys nx"
  by (auto simp: list_at_append)

lemma disjoint_addrs:
  "distinct (addrs (DT a (xs @ u # ys))) \<Longrightarrow> a \<notin> set (addrs u) \<and> a \<notin> set (addrs_list xs) \<and> a \<notin> set (addrs_list ys)
    \<and> set (addrs_list xs) \<inter> set (addrs u) = {} \<and> set (addrs_list ys) \<inter> set (addrs u) = {}
    \<and> set (addrs_list xs) \<inter> set (addrs_list ys) = {} \<and> distinct (addrs u) \<and> distinct (addrs_list xs) \<and> distinct (addrs_list ys)"
  by auto

definition outside :: "dtree \<Rightarrow> dom \<Rightarrow> dom \<Rightarrow> bool" where
  "outside t h h' \<longleftrightarrow> (\<forall>b. b \<notin> set (addrs t) \<longrightarrow> nodes h' b = nodes h b) \<and> top h' = top h"

lemma remove_child_tree:
  assumes at: "tree_at h par pv nx (DT a (xs @ t # ys))" and d: "distinct (addrs (DT a (xs @ t # ys)))"
  shows "\<exists>h'. RemoveChild (Some a) (Some (root t)) h = Some (Inr (True, h')) \<and> tree_at h' par pv nx (DT a (xs @ ys))
    \<and> (\<forall>b \<in> set (addrs t). nodes h' b = None) \<and> outside (DT a (xs @ t # ys)) h h'
    \<and> (\<forall>b. b \<notin> set (addrs t) \<longrightarrow> info h' b = info h b)"
proof -
  obtain n where n: "nodes h a = Some n" "n_parent n = par" "n_prev n = pv" "n_next n = nx"
      "n_first n = head (xs @ t # ys)" "n_last n = final (xs @ t # ys)"
    and l: "list_at h a None xs (Some (root t))" "tree_at h (Some a) (final xs) (head ys) t" "list_at h a (Some (root t)) ys None"
    using at by (auto simp: list_middle)
  have dx: "distinct (a # addrs_list xs)" and dy: "distinct (a # addrs_list ys)" and dt: "distinct (addrs t)"
    and i: "a \<notin> set (addrs t)" "set (addrs_list xs) \<inter> set (addrs t) = {}" "set (addrs_list ys) \<inter> set (addrs t) = {}"
      "set (addrs_list xs) \<inter> set (addrs_list ys) = {}"
    using d by auto
  obtain h1 where h1: "link_prev (Some a) (head ys) (final xs) h = Inr h1" "list_at h1 a (final xs) ys None"
      "nodes h1 a = Some (n\<lparr>n_last := if ys = [] then final xs else n_last n\<rparr>)"
      "\<And>b. b \<notin> set (a # addrs_list ys) \<Longrightarrow> nodes h1 b = nodes h b" "top h1 = top h" "info h1 = info h"
    using link_prev_step [OF l(3) dy n(1)] by blast
  obtain n1 where n1: "nodes h1 a = Some n1" "n1 = n\<lparr>n_last := if ys = [] then final xs else n_last n\<rparr>"
    using h1(3) by blast
  have t1: "tree_at h1 (Some a) (final xs) (head ys) t" by (rule tree_frame(1) [OF l(2)], rule h1(4)) (use i dx dy in \<open>unfold list.set distinct.simps, blast\<close>)
  have x1: "list_at h1 a None xs (Some (root t))" by (rule tree_frame(2) [OF l(1)], rule h1(4)) (use i dx dy in \<open>unfold list.set distinct.simps, blast\<close>)
  obtain h2 where h2: "link_next (Some a) (final xs) (head ys) h1 = Inr h2" "list_at h2 a None xs (head ys)"
      "nodes h2 a = Some (n1\<lparr>n_first := if xs = [] then head ys else n_first n1\<rparr>)"
      "\<And>b. b \<notin> set (a # addrs_list xs) \<Longrightarrow> nodes h2 b = nodes h1 b" "top h2 = top h1" "info h2 = info h1"
    using link_next_step [OF x1 dx n1(1)] by blast
  have t2: "tree_at h2 (Some a) (final xs) (head ys) t" by (rule tree_frame(1) [OF t1], rule h2(4)) (use i dx dy in \<open>unfold list.set distinct.simps, blast\<close>)
  have y2: "list_at h2 a (final xs) ys None" by (rule tree_frame(2) [OF h1(2)], rule h2(4)) (use i dx dy in \<open>unfold list.set distinct.simps, blast\<close>)
  let ?h = "free_all (set (addrs t)) h2"
  have "list_at ?h a None xs (head ys)" "list_at ?h a (final xs) ys None"
    by (rule tree_frame(2) [OF h2(2)], use i(2) in \<open>auto simp: disjoint_iff\<close>,
        rule tree_frame(2) [OF y2], use i(3) in \<open>auto simp: disjoint_iff\<close>)
  then have "tree_at ?h par pv nx (DT a (xs @ ys))"
    using h2(3) n n1(2) i(1) by (auto simp: list_at_append)
  moreover obtain m where "nodes h (root t) = Some m" "n_parent m = Some a" "n_prev m = final xs" "n_next m = head ys"
    using tree_root [OF l(2)] by blast
  moreover obtain m' where "nodes h1 (root t) = Some m'" "n_prev m' = final xs" "n_next m' = head ys"
    using tree_root [OF t1] by blast
  moreover have "outside (DT a (xs @ t # ys)) h ?h"
    using h1(4,5) h2(4,5) by (auto simp: outside_def)
  moreover have "info ?h b = info h b" if "b \<notin> set (addrs t)" for b
    using that h1(6) h2(6) by (simp add: info_def fun_eq_iff)
  ultimately show ?thesis
    using h1(1) h2(1) delete_node_tree [OF t2 dt] by (auto simp: RemoveChild_def node_at_def)
qed

lemma clear_tree:
  assumes at: "tree_at h par pv nx (DT a ts)" and d: "distinct (addrs (DT a ts))"
  shows "\<exists>h'. Clear (Some a) h = Some (Inr h') \<and> tree_at h' par pv nx (DT a [])
    \<and> (\<forall>b \<in> set (addrs_list ts). nodes h' b = None) \<and> outside (DT a ts) h h'
    \<and> (\<forall>b. b \<notin> set (addrs_list ts) \<longrightarrow> info h' b = info h b)"
proof -
  obtain n where n: "nodes h a = Some n" "n_parent n = par" "n_prev n = pv" "n_next n = nx" "n_first n = head ts"
    using at by auto
  have "a \<notin> set (addrs_list ts)" using d by auto
  then show ?thesis
    using n info_at [OF n(1)] delete_kids [OF at d] by (auto simp: Clear_def node_at_def upd_node_at outside_def)
qed

text \<open>Where the walk to the document ends.\<close>

inductive up :: "dom \<Rightarrow> nat \<Rightarrow> link \<Rightarrow> bool" for h where
  up_document: "nodes h a = Some n \<Longrightarrow> n_type n = TINYXML_DOCUMENT \<Longrightarrow> up h a (Some a)"
| up_none: "nodes h a = Some n \<Longrightarrow> n_type n \<noteq> TINYXML_DOCUMENT \<Longrightarrow> n_parent n = None \<Longrightarrow> up h a None"
| up_parent: "nodes h a = Some n \<Longrightarrow> n_type n \<noteq> TINYXML_DOCUMENT \<Longrightarrow> n_parent n = Some b \<Longrightarrow> up h b d \<Longrightarrow> up h a d"

lemma GetDocument_up: "up h a d \<Longrightarrow> GetDocument h (Some a) = Some (Inr d)"
proof (induction rule: up.induct)
  case (up_none a n)
  then show ?case by (subst GetDocument.simps) (simp add: GetDocument.simps [of h None])
qed (subst GetDocument.simps, simp)+

lemma link_end_child_tree:
  assumes at: "tree_at h par pv nx (DT a ts)" and u: "tree_at h pr pu nu u" "pr = None \<or> pr = Some a" and d: "distinct (addrs (DT a (ts @ [u])))"
    and ty: "nodes h (root u) = Some c" "n_type c \<noteq> TINYXML_DOCUMENT" and doc: "up h a e"
  shows "\<exists>h'. LinkEndChild (Some a) (Some (root u)) h = Some (Inr (Some (root u), h'))
    \<and> tree_at h' par pv nx (DT a (ts @ [u])) \<and> outside (DT a (ts @ [u])) h h' \<and> info h' = info h"
proof -
  obtain n where n: "nodes h a = Some n" "n_parent n = par" "n_prev n = pv" "n_next n = nx"
      "n_first n = head ts" "n_last n = final ts" and l: "list_at h a None ts None"
    using at by auto
  have dx: "distinct (a # addrs_list ts)" and du: "distinct (addrs u)" and i: "a \<notin> set (addrs u)" "set (addrs_list ts) \<inter> set (addrs u) = {}"
    using d by auto
  obtain m where m: "n_parent c = pr" "n_first c = head (kids u)" "n_last c = final (kids u)"
    using tree_root [OF u(1)] ty(1) by auto
  let ?c = "c\<lparr>n_parent := Some a, n_prev := final ts, n_next := None\<rparr>"
  let ?h = "put_node (root u) ?c h"
  have u1: "tree_at ?h (Some a) (final ts) None u"
    using tree_put_root [OF u(1) du ty(1), of ?c] by simp
  have r: "root u \<in> set (addrs u)" by simp
  have l1: "list_at ?h a None ts None"
    by (rule tree_frame(2) [OF l]) (use i r in \<open>auto simp del: root_addrs simp: disjoint_iff\<close>)
  have n1: "nodes ?h a = Some n" using n(1) i(1) r by (auto simp del: root_addrs)
  obtain h1 where h1: "link_next (Some a) (final ts) (Some (root u)) ?h = Inr h1" "list_at h1 a None ts (Some (root u))"
      "nodes h1 a = Some (n\<lparr>n_first := if ts = [] then Some (root u) else n_first n\<rparr>)"
      "\<And>b. b \<notin> set (a # addrs_list ts) \<Longrightarrow> nodes h1 b = nodes ?h b" "top h1 = top ?h" "info h1 = info ?h"
    using link_next_step [OF l1 dx n1] by blast
  let ?n = "n\<lparr>n_first := if ts = [] then Some (root u) else n_first n, n_last := Some (root u)\<rparr>"
  let ?h' = "put_node a ?n h1"
  have "list_at ?h' a None ts (Some (root u))" by (rule tree_frame(2) [OF h1(2)]) (use dx in auto)
  moreover have "tree_at ?h' (Some a) (final ts) None u" by (rule tree_frame(1) [OF u1])
      (simp only: put_simps_dom, use i h1(4) in \<open>unfold list.set distinct.simps, fastforce\<close>)
  ultimately have t: "tree_at ?h' par pv nx (DT a (ts @ [u]))" using n by (auto simp: list_at_append)
  have "up h (root u) (if pr = None then None else e)"
    using ty m(1) u(2) doc by (auto intro: up_none up_parent)
  note g = GetDocument_up [OF this]
  obtain d' where "GetDocument h (Some (root u)) = Some (Inr d')" "d' = None \<or> d' = e" "n_parent c = None \<or> n_parent c = Some a"
    by (rule that [OF g]) (use m(1) u(2) in auto)
  moreover have "outside (DT a (ts @ [u])) h ?h'"
    using h1(4,5) r by (auto simp: outside_def simp del: root_addrs)
  moreover have "info ?h' = info h"
    using h1(3,6) ty(1) n(1) by (auto simp: info_def fun_eq_iff split: if_splits)
  ultimately show ?thesis
    using t h1(1,3) ty n n1 GetDocument_up [OF doc]
    by (cases "d' = None")
      (simp_all del: root_addrs tree_at.simps add: LinkEndChild_def node_at_def upd_node_at link_next_def split: if_splits)
qed

lemma tree_parents:
  "tree_at h par pv nx t \<Longrightarrow> tree_at h' par pv' nx' t \<Longrightarrow> b \<in> set (addrs t) \<Longrightarrow>
    map_option n_parent (nodes h' b) = map_option n_parent (nodes h b)"
  "list_at h a pv ts nx \<Longrightarrow> list_at h' a pv' ts nx' \<Longrightarrow> b \<in> set (addrs_list ts) \<Longrightarrow>
    map_option n_parent (nodes h' b) = map_option n_parent (nodes h b)"
  by (induction h par pv nx t and h a pv ts nx arbitrary: pv' nx' and pv' nx' rule: tree_at_list_at.induct)
    (simp, fastforce, simp, simp, fastforce)

text \<open>The walk depends on the types and parents of nodes only.\<close>

definition keeps_parents :: "dom \<Rightarrow> dom \<Rightarrow> bool" where
  "keeps_parents h h' \<longleftrightarrow> (\<forall>x n. nodes h x = Some n \<longrightarrow>
     (\<exists>n'. nodes h' x = Some n' \<and> n_parent n' = n_parent n \<and> n_type n' = n_type n))"

lemma up_keeps: "up h a e \<Longrightarrow> keeps_parents h h' \<Longrightarrow> up h' a e"
  unfolding keeps_parents_def by (induction rule: up.induct) (metis up.intros)+

section \<open>A node inside a document\<close>

fun subtrees :: "dtree \<Rightarrow> dtree list" where
  "subtrees (DT a ts) = DT a ts # concat (map subtrees ts)"

text \<open>The tree with other children at one node.\<close>

fun plug :: "nat \<Rightarrow> dtree list \<Rightarrow> dtree \<Rightarrow> dtree" where
  "plug a us (DT b ts) = (if a = b then DT b us else DT b (map (plug a us) ts))"

lemma subtrees_addrs: "s \<in> set (subtrees t) \<Longrightarrow> set (addrs s) \<subseteq> set (addrs t)"
  by (induction t) auto

lemma subtree_addr: "DT a ts \<in> set (subtrees t) \<Longrightarrow> a \<in> set (addrs t)"
  using subtrees_addrs by force

lemma plug_other: "a \<notin> set (addrs t) \<Longrightarrow> plug a us t = t"
  by (induction t) (auto simp: map_idI)

lemma root_plug [simp]: "root (plug a us t) = root t"
  by (cases t) simp

lemma tree_place:
  "tree_at h par pv nx T \<Longrightarrow> distinct (addrs T) \<Longrightarrow> DT a ts \<in> set (subtrees T) \<Longrightarrow>
    \<exists>p l r. tree_at h p l r (DT a ts) \<and> distinct (addrs (DT a ts)) \<and> (\<forall>h' us. tree_at h' p l r (DT a us)
      \<longrightarrow> (\<forall>b \<in> set (addrs T) - set (addrs (DT a ts)). nodes h' b = nodes h b) \<longrightarrow> tree_at h' par pv nx (plug a us T))"
proof (induction T arbitrary: par pv nx)
  case (DT b ks)
  show ?case
  proof (cases "a = b")
    case True
    then have "\<forall>k \<in> set ks. DT a ts \<notin> set (subtrees k)" using DT.prems(2) subtree_addr by fastforce
    then have "DT a ts = DT b ks" using DT.prems(3) by auto
    then show ?thesis using DT.prems(1,2) by auto
  next
    case False
    then obtain k where k: "k \<in> set ks" "DT a ts \<in> set (subtrees k)" using DT.prems(3) by auto
    then obtain xs ys where ks: "ks = xs @ k # ys" by (meson split_list)
    note j = disjoint_addrs [OF DT.prems(2) [unfolded ks]]
    have ak: "a \<in> set (addrs k)" using k(2) by (rule subtree_addr)
    have l: "list_at h b None xs (Some (root k))" "tree_at h (Some b) (final xs) (head ys) k" "list_at h b (Some (root k)) ys None"
      using DT.prems(1) unfolding ks by (auto simp: list_middle)
    have dk: "distinct (addrs k)" using j by blast
    obtain p l' r where p: "tree_at h p l' r (DT a ts)" "distinct (addrs (DT a ts))"
        "\<And>h' us. tree_at h' p l' r (DT a us) \<Longrightarrow> (\<forall>b \<in> set (addrs k) - set (addrs (DT a ts)). nodes h' b = nodes h b)
          \<Longrightarrow> tree_at h' (Some b) (final xs) (head ys) (plug a us k)"
      using DT.IH [OF k(1) l(2) dk k(2)] by blast
    have pm: "map (plug a us) ks = xs @ plug a us k # ys" for us
      using ak j unfolding ks by (auto intro!: map_idI plug_other simp: disjoint_iff)
    have st: "set (addrs (DT a ts)) \<subseteq> set (addrs k)" by (rule subtrees_addrs [OF k(2)])
    have "tree_at h' par pv nx (plug a us (DT b ks))"
      if h': "tree_at h' p l' r (DT a us)" and fr: "\<forall>x \<in> set (addrs (DT b ks)) - set (addrs (DT a ts)). nodes h' x = nodes h x"
      for h' us
    proof -
      have sub: "set (addrs (DT b ks)) = insert b (set (addrs_list xs) \<union> set (addrs k) \<union> set (addrs_list ys))" by (auto simp: ks)
      have "tree_at h' (Some b) (final xs) (head ys) (plug a us k)" by (rule p(3) [OF h']) (use fr sub in blast)
      moreover have "list_at h' b None xs (Some (root k))" by (rule tree_frame(2) [OF l(1)], rule bspec [OF fr]) (use sub st j in blast)
      moreover have "list_at h' b (Some (root k)) ys None" by (rule tree_frame(2) [OF l(3)], rule bspec [OF fr]) (use sub st j in blast)
      moreover have "nodes h' b = nodes h b" by (rule bspec [OF fr]) (use sub st j in blast)
      ultimately show ?thesis using False DT.prems(1) pm [of us] by (auto simp: ks list_middle)
    qed
    then show ?thesis using p(1,2) by blast
  qed
qed

lemma tree_up:
  "tree_at h par pv nx t \<Longrightarrow> (\<And>p. par = Some p \<Longrightarrow> \<exists>e. up h p e) \<Longrightarrow> x \<in> set (addrs t) \<Longrightarrow> \<exists>e. up h x e"
  "list_at h a pv ts nx \<Longrightarrow> \<exists>e. up h a e \<Longrightarrow> x \<in> set (addrs_list ts) \<Longrightarrow> \<exists>e. up h x e"
proof (induction h par pv nx t and h a pv ts nx rule: tree_at_list_at.induct)
  case (1 h par pv nx a ts)
  then obtain n where n: "nodes h a = Some n" "n_parent n = par" by auto
  have "\<exists>e. up h a e"
  proof (cases "n_type n = TINYXML_DOCUMENT")
    case True
    then show ?thesis using n by (blast intro: up_document)
  next
    case False
    then show ?thesis using n "1.prems"(2) by (cases par) (blast intro: up_none up_parent)+
  qed
  then show ?case using 1 by auto
qed auto

text \<open>The place of a node in a tree of a document, with its children.\<close>

definition inside :: "dom \<Rightarrow> dtree \<Rightarrow> nat \<Rightarrow> dtree list \<Rightarrow> bool" where
  "inside h T a ts \<longleftrightarrow> tree_at h None None None T \<and> distinct (addrs T) \<and> DT a ts \<in> set (subtrees T)"

lemma inside_place:
  assumes "inside h T a ts"
  obtains p l r e where "tree_at h p l r (DT a ts)" "distinct (addrs (DT a ts))" "set (addrs (DT a ts)) \<subseteq> set (addrs T)" "up h a e"
    "\<And>h' us. tree_at h' p l r (DT a us) \<Longrightarrow> (\<And>b. b \<in> set (addrs T) \<Longrightarrow> b \<notin> set (addrs (DT a ts)) \<Longrightarrow> nodes h' b = nodes h b)
      \<Longrightarrow> tree_at h' None None None (plug a us T)"
proof -
  have T: "tree_at h None None None T" "distinct (addrs T)" "DT a ts \<in> set (subtrees T)" using assms by (auto simp: inside_def)
  obtain e where "up h a e" using tree_up(1) [OF T(1)] subtree_addr [OF T(3)] by blast
  then show ?thesis using tree_place [OF T] subtrees_addrs [OF T(3)] that by (metis Diff_iff)
qed

section \<open>Operations on a document\<close>

lemma outside_inside: "outside t h h' \<Longrightarrow> b \<notin> set (addrs t) \<Longrightarrow> nodes h' b = nodes h b"
  by (simp add: outside_def)

lemma link_inside:
  assumes T: "inside h T a ts" and u: "tree_at h None pu nu u" "distinct (addrs u)" "set (addrs T) \<inter> set (addrs u) = {}"
    and ty: "nodes h (root u) = Some c" "n_type c \<noteq> TINYXML_DOCUMENT"
  shows "\<exists>h'. LinkEndChild (Some a) (Some (root u)) h = Some (Inr (Some (root u), h'))
    \<and> tree_at h' None None None (plug a (ts @ [u]) T) \<and> info h' = info h
    \<and> (\<forall>b. b \<notin> set (addrs T) \<union> set (addrs u) \<longrightarrow> nodes h' b = nodes h b)"
proof -
  obtain p l r e where s: "tree_at h p l r (DT a ts)" "distinct (addrs (DT a ts))" "set (addrs (DT a ts)) \<subseteq> set (addrs T)" "up h a e"
    "\<And>h' us. tree_at h' p l r (DT a us) \<Longrightarrow> (\<And>b. b \<in> set (addrs T) \<Longrightarrow> b \<notin> set (addrs (DT a ts)) \<Longrightarrow> nodes h' b = nodes h b)
      \<Longrightarrow> tree_at h' None None None (plug a us T)"
    using inside_place [OF T] by metis
  have e: "set (addrs (DT a (ts @ [u]))) = set (addrs (DT a ts)) \<union> set (addrs u)" by auto
  have d: "distinct (addrs (DT a (ts @ [u])))" using s(2,3) u(2,3) by auto
  obtain h' where h': "LinkEndChild (Some a) (Some (root u)) h = Some (Inr (Some (root u), h'))"
      "tree_at h' p l r (DT a (ts @ [u]))" "outside (DT a (ts @ [u])) h h'" "info h' = info h"
    using link_end_child_tree [OF s(1) u(1) disjI1 [OF refl] d ty s(4)] by blast
  have o: "nodes h' b = nodes h b" if "b \<notin> set (addrs (DT a ts))" "b \<notin> set (addrs u)" for b
    using outside_inside [OF h'(3)] that unfolding e by blast
  have "tree_at h' None None None (plug a (ts @ [u]) T)"
    by (rule s(5) [OF h'(2)]) (use o u(3) in blast)
  then show ?thesis using h'(1,4) o s(3) by blast
qed

lemma remove_inside:
  assumes T: "inside h T a (xs @ t # ys)"
  shows "\<exists>h'. RemoveChild (Some a) (Some (root t)) h = Some (Inr (True, h'))
    \<and> tree_at h' None None None (plug a (xs @ ys) T) \<and> (\<forall>b \<in> set (addrs t). nodes h' b = None)
    \<and> (\<forall>b. b \<notin> set (addrs t) \<longrightarrow> info h' b = info h b) \<and> (\<forall>b. b \<notin> set (addrs T) \<longrightarrow> nodes h' b = nodes h b)"
proof -
  let ?ts = "xs @ t # ys"
  obtain p l r e where s: "tree_at h p l r (DT a ?ts)" "distinct (addrs (DT a ?ts))" "set (addrs (DT a ?ts)) \<subseteq> set (addrs T)"
    "\<And>h' us. tree_at h' p l r (DT a us) \<Longrightarrow> (\<And>b. b \<in> set (addrs T) \<Longrightarrow> b \<notin> set (addrs (DT a ?ts)) \<Longrightarrow> nodes h' b = nodes h b)
      \<Longrightarrow> tree_at h' None None None (plug a us T)"
    using inside_place [OF T] by metis
  obtain h' where h': "RemoveChild (Some a) (Some (root t)) h = Some (Inr (True, h'))" "tree_at h' p l r (DT a (xs @ ys))"
      "\<forall>b \<in> set (addrs t). nodes h' b = None" "outside (DT a ?ts) h h'" "\<forall>b. b \<notin> set (addrs t) \<longrightarrow> info h' b = info h b"
    using remove_child_tree [OF s(1,2)] by blast
  have "tree_at h' None None None (plug a (xs @ ys) T)"
    by (rule s(4) [OF h'(2)]) (rule outside_inside [OF h'(4)])
  then show ?thesis using h' outside_inside [OF h'(4)] s(3) by blast
qed

lemma clear_inside:
  assumes T: "inside h T a ts"
  shows "\<exists>h'. Clear (Some a) h = Some (Inr h') \<and> tree_at h' None None None (plug a [] T)
    \<and> (\<forall>b. if b \<in> set (addrs_list ts) then nodes h' b = None else info h' b = info h b)"
proof -
  obtain p l r e where s: "tree_at h p l r (DT a ts)" "distinct (addrs (DT a ts))" "set (addrs (DT a ts)) \<subseteq> set (addrs T)"
    "\<And>h' us. tree_at h' p l r (DT a us) \<Longrightarrow> (\<And>b. b \<in> set (addrs T) \<Longrightarrow> b \<notin> set (addrs (DT a ts)) \<Longrightarrow> nodes h' b = nodes h b)
      \<Longrightarrow> tree_at h' None None None (plug a us T)"
    using inside_place [OF T] by metis
  obtain h' where h': "Clear (Some a) h = Some (Inr h')" "tree_at h' p l r (DT a [])"
      "\<forall>b \<in> set (addrs_list ts). nodes h' b = None" "outside (DT a ts) h h'" "\<forall>b. b \<notin> set (addrs_list ts) \<longrightarrow> info h' b = info h b"
    using clear_tree [OF s(1,2)] by blast
  have "tree_at h' None None None (plug a [] T)"
    by (rule s(4) [OF h'(2)]) (rule outside_inside [OF h'(4)])
  then show ?thesis using h' by auto
qed

section \<open>Searching among children\<close>

definition matches :: "string option \<Rightarrow> dnode \<Rightarrow> bool" where
  "matches v n \<longleftrightarrow> (case v of None \<Rightarrow> True | Some s \<Rightarrow> has_value s n)"

definition holds :: "dom \<Rightarrow> (dnode \<Rightarrow> bool) \<Rightarrow> dtree \<Rightarrow> bool" where
  "holds h P t \<longleftrightarrow> (case nodes h (root t) of None \<Rightarrow> False | Some n \<Rightarrow> P n)"

definition found :: "dom \<Rightarrow> (dnode \<Rightarrow> bool) \<Rightarrow> dtree list \<Rightarrow> link" where
  "found h P ts = map_option root (find (holds h P) ts)"

lemma search_None [simp]: "search nxt P h None = Some (Inr None)"
  by (simp add: search.simps)

lemma search_forward:
  "list_at h a pv ts None \<Longrightarrow> search n_next P h (head ts) = Some (Inr (found h P ts))"
proof (induction ts arbitrary: pv)
  case (Cons t ts)
  obtain n where "nodes h (root t) = Some n" "n_next n = head ts"
    using Cons.prems tree_root [of h "Some a" pv _ t] by (auto split: if_splits)
  moreover from this have "search n_next P h (Some (root t)) = (if P n then Some (Inr (Some (root t))) else search n_next P h (head ts))"
    by (subst search.simps) simp
  ultimately show ?case using Cons.IH [of "Some (root t)"] Cons.prems by (auto simp: found_def holds_def)
qed (simp add: found_def)

lemma search_backward:
  "list_at h a None ts nx \<Longrightarrow> search n_prev P h (final ts) = Some (Inr (found h P (rev ts)))"
proof (induction ts arbitrary: nx rule: rev_induct)
  case (snoc t ts)
  have l: "list_at h a None ts (Some (root t))" "tree_at h (Some a) (final ts) nx t"
    using snoc.prems by (auto simp: list_at_append split: if_splits)
  obtain n where "nodes h (root t) = Some n" "n_prev n = final ts" using tree_root [OF l(2)] by blast
  moreover from this have "search n_prev P h (Some (root t)) = (if P n then Some (Inr (Some (root t))) else search n_prev P h (final ts))"
    by (subst search.simps) simp
  ultimately show ?case using snoc.IH [OF l(1)] by (simp add: found_def holds_def)
qed (simp add: found_def)

lemma found_any: "list_at h a pv ts nx \<Longrightarrow> found h (\<lambda>_. True) ts = head ts"
  by (cases ts) (auto simp: found_def holds_def dest!: tree_root)

lemma found_any_rev: "list_at h a pv ts nx \<Longrightarrow> found h (\<lambda>_. True) (rev ts) = final ts"
  by (cases ts rule: rev_cases) (auto simp: found_def holds_def list_at_append dest!: tree_root)

lemma search_value_forward:
  "list_at h a pv ts None \<Longrightarrow> search_value n_next v h (head ts) = Some (Inr (found h (matches v) ts))"
  by (cases v) (auto simp: search_value_def matches_def [abs_def] found_any search_forward)

lemma search_value_backward:
  "list_at h a None ts nx \<Longrightarrow> search_value n_prev v h (final ts) = Some (Inr (found h (matches v) (rev ts)))"
  by (cases v) (auto simp: search_value_def matches_def [abs_def] found_any_rev search_backward)

lemma inside_list:
  assumes "inside h T a ts"
  obtains n where "nodes h a = Some n" "n_first n = head ts" "n_last n = final ts" "list_at h a None ts None"
  using inside_place [OF assms] by (metis tree_at.simps)

text \<open>A child and its siblings.\<close>

lemma child_node:
  assumes "list_at h a None (xs @ t # ys) None"
  obtains n where "nodes h (root t) = Some n" "n_parent n = Some a" "n_next n = head ys" "n_prev n = final xs"
    "list_at h a None xs (Some (root t))" "list_at h a (Some (root t)) ys None"
  using assms tree_root [of h "Some a" "final xs" "head ys" t] by (auto simp: list_middle)

lemma next_sibling:
  assumes "list_at h a None (xs @ t # ys) None"
  shows "NextSibling v h (Some (root t)) = Some (Inr (found h (matches v) ys))"
  using child_node [OF assms] search_value_forward by (metis (no_types, lifting) NextSibling_def node_at_def bind.bind_lunit option.case(2) sum.case(2))

definition is_element :: "string option \<Rightarrow> dnode \<Rightarrow> bool" where
  "is_element v n \<longleftrightarrow> matches v n \<and> n_type n = TINYXML_ELEMENT"

lemma find_found:
  "find (holds h P) ts = None \<Longrightarrow> found h P ts = None"
  "find (holds h P) ts = Some t \<Longrightarrow> found h P ts = Some (root t) \<and> holds h P t
    \<and> (\<exists>us vs. ts = us @ t # vs \<and> (\<forall>u \<in> set us. \<not> holds h P u))"
proof -
  assume "find (holds h P) ts = Some t"
  moreover from this have "holds h P t \<and> (\<exists>us vs. ts = us @ t # vs \<and> (\<forall>u \<in> set us. \<not> holds h P u))"
  proof (induction ts)
    case (Cons s ts)
    show ?case
    proof (cases "holds h P s")
      case False
      then obtain us vs where "ts = us @ t # vs" "\<forall>u \<in> set us. \<not> holds h P u" "holds h P t" using Cons by auto
      then show ?thesis using False by (intro conjI exI [of _ "s # us"] exI [of _ vs]) auto
    qed (use Cons.prems in \<open>auto intro: exI [of _ "[]"]\<close>)
  qed simp
  ultimately show "found h P ts = Some (root t) \<and> holds h P t \<and> (\<exists>us vs. ts = us @ t # vs \<and> (\<forall>u \<in> set us. \<not> holds h P u))"
    by (simp add: found_def)
qed (simp add: found_def)

lemma found_skip: "\<forall>u \<in> set us. \<not> holds h P u \<Longrightarrow> found h P (us @ vs) = found h P vs"
  by (induction us) (auto simp: found_def)

lemma search_element_found:
  "list_at h a None (xs @ ys) None \<Longrightarrow> search_element v h (found h (matches v) ys) = Some (Inr (found h (is_element v) ys))"
proof (induction "length ys" arbitrary: xs ys rule: less_induct)
  case less
  show ?case
  proof (cases "find (holds h (matches v)) ys")
    case None
    moreover have "find (holds h (is_element v)) ys = None"
      using None by (auto simp: find_None_iff holds_def is_element_def split: option.splits)
    ultimately show ?thesis by (simp add: find_found(1)) (subst search_element.simps, simp)
  next
    case (Some t)
    obtain us vs where ys: "ys = us @ t # vs" "\<forall>u \<in> set us. \<not> holds h (matches v) u" and f: "found h (matches v) ys = Some (root t)"
        "holds h (matches v) t"
      using find_found(2) [OF Some] by blast
    have l: "list_at h a None ((xs @ us) @ t # vs) None" using less.prems ys by simp
    obtain n where n: "nodes h (root t) = Some n" using child_node [OF l] by blast
    have "search_element v h (found h (matches v) vs) = Some (Inr (found h (is_element v) vs))"
      using less.hyps [of vs "xs @ us @ [t]"] l ys(1) by simp
    moreover have "\<forall>u \<in> set us. \<not> holds h (is_element v) u"
      using ys(2) by (auto simp: holds_def is_element_def split: option.splits)
    then have "found h (is_element v) ys = (if n_type n = TINYXML_ELEMENT then Some (root t) else found h (is_element v) vs)"
      using f(2) n unfolding ys(1) by (simp add: found_skip) (simp add: found_def holds_def is_element_def)
    ultimately show ?thesis
      unfolding f(1) using next_sibling [OF l, of v] n by (subst search_element.simps) simp
  qed
qed

lemma next_sibling_element:
  assumes "list_at h a None (xs @ t # ys) None"
  shows "NextSiblingElement v h (Some (root t)) = Some (Inr (found h (is_element v) ys))"
  using assms next_sibling [OF assms, of v] search_element_found [of h a "xs @ [t]" ys] by (simp add: NextSiblingElement_def)

text \<open>Counting from a child on.\<close>

definition nth_child :: "dom \<Rightarrow> (dnode \<Rightarrow> bool) \<Rightarrow> dtree list \<Rightarrow> nat \<Rightarrow> link" where
  "nth_child h P ts i = (let l = filter (holds h P) ts in if i < length l then Some (root (l ! i)) else None)"

lemma skip_siblings_nth:
  assumes "list_at h a None (xs @ ys) None"
    and nxt: "\<And>us t vs. xs @ ys = us @ t # vs \<Longrightarrow> nxt h (Some (root t)) = Some (Inr (found h P vs))"
  shows "skip_siblings i nxt h (found h P ys) = Some (Inr (nth_child h P ys i))"
  using assms
proof (induction i arbitrary: xs ys)
  case 0
  have "find P ts = (if filter P ts = [] then None else Some (filter P ts ! 0))" for P and ts :: "dtree list"
    by (induction ts) auto
  then show ?case by (simp add: found_def nth_child_def Let_def)
next
  case (Suc i)
  show ?case
  proof (cases "find (holds h P) ys")
    case None
    then show ?thesis by (auto simp: found_def nth_child_def find_None_iff filter_empty_conv Let_def)
  next
    case (Some t)
    then obtain us vs where ys: "ys = us @ t # vs" "\<forall>u \<in> set us. \<not> holds h P u" "holds h P t"
      using find_found(2) by blast
    have "skip_siblings i nxt h (found h P vs) = Some (Inr (nth_child h P vs i))"
      by (rule Suc.IH [of "xs @ us @ [t]"]) (use Suc.prems ys in simp_all)
    moreover have "nxt h (Some (root t)) = Some (Inr (found h P vs))"
      using Suc.prems(2) [of "xs @ us" t vs] ys by simp
    moreover have "filter (holds h P) ys = t # filter (holds h P) vs" using ys by auto
    ultimately show ?thesis by (simp add: found_def Some nth_child_def Let_def)
  qed
qed


lemma first_child:
  assumes "inside h T a ts"
  shows "FirstChild v h (Some a) = Some (Inr (found h (matches v) ts))" "LastChild v h (Some a) = Some (Inr (found h (matches v) (rev ts)))"
    "FirstChildElement v h (Some a) = Some (Inr (found h (is_element v) ts))"
proof -
  obtain n where n: "nodes h a = Some n" "n_first n = head ts" "n_last n = final ts" "list_at h a None ts None"
    using inside_list [OF assms] .
  show f: "FirstChild v h (Some a) = Some (Inr (found h (matches v) ts))"
    using n by (simp add: FirstChild_def node_at_def search_value_forward)
  show "LastChild v h (Some a) = Some (Inr (found h (matches v) (rev ts)))"
    using n by (simp add: LastChild_def node_at_def search_value_backward)
  show "FirstChildElement v h (Some a) = Some (Inr (found h (is_element v) ts))"
    using f search_element_found [of h a "[]" ts] n(4) by (simp add: FirstChildElement_def)
qed

lemma counted_child:
  assumes "inside h T a ts"
  shows "Child v i h (Some a) = Some (Inr (nth_child h (matches v) ts (nat i)))"
    "ChildElement v i h (Some a) = Some (Inr (nth_child h (is_element v) ts (nat i)))"
proof -
  obtain n where n: "list_at h a None ts None" using inside_list [OF assms] by metis
  show "Child v i h (Some a) = Some (Inr (nth_child h (matches v) ts (nat i)))"
  proof -
    have "skip_siblings (nat i) (NextSibling v) h (found h (matches v) ts) = Some (Inr (nth_child h (matches v) ts (nat i)))"
      by (rule skip_siblings_nth [of h a "[]"]) (use n in \<open>simp, metis next_sibling append_Nil\<close>)
    then show ?thesis by (simp add: Child_def first_child [OF assms])
  qed
  show "ChildElement v i h (Some a) = Some (Inr (nth_child h (is_element v) ts (nat i)))"
  proof -
    have "skip_siblings (nat i) (NextSiblingElement v) h (found h (is_element v) ts) = Some (Inr (nth_child h (is_element v) ts (nat i)))"
      by (rule skip_siblings_nth [of h a "[]"]) (use n in \<open>simp, metis next_sibling_element append_Nil\<close>)
    then show ?thesis by (simp add: ChildElement_def first_child [OF assms])
  qed
qed

section \<open>Documents and linked nodes as children\<close>

lemma tree_up_inside:
  "tree_at h par pv nx t \<Longrightarrow> (\<And>p. par = Some p \<Longrightarrow> \<exists>e. up h p e \<and> set_option e \<subseteq> A) \<Longrightarrow> set (addrs t) \<subseteq> A \<Longrightarrow> x \<in> set (addrs t) \<Longrightarrow>
    \<exists>e. up h x e \<and> set_option e \<subseteq> A"
  "list_at h a pv ts nx \<Longrightarrow> \<exists>e. up h a e \<and> set_option e \<subseteq> A \<Longrightarrow> set (addrs_list ts) \<subseteq> A \<Longrightarrow> x \<in> set (addrs_list ts) \<Longrightarrow>
    \<exists>e. up h x e \<and> set_option e \<subseteq> A"
proof (induction h par pv nx t and h a pv ts nx rule: tree_at_list_at.induct)
  case (1 h par pv nx a ts)
  then obtain n where n: "nodes h a = Some n" "n_parent n = par" by auto
  have "\<exists>e. up h a e \<and> set_option e \<subseteq> A"
  proof (cases "n_type n = TINYXML_DOCUMENT")
    case True
    moreover have "a \<in> A" using "1.prems"(3) by auto
    ultimately show ?thesis using n up_document by fastforce
  next
    case False
    then show ?thesis using n "1.prems"(2) by (cases par) (fastforce intro: up_none up_parent)+
  qed
  then show ?case using 1 by auto
qed auto

text \<open>The walk upwards from a node of a document stays in it.\<close>

lemma inside_up:
  assumes "inside h T a ts"
  obtains e where "GetDocument h (Some a) = Some (Inr e)" "set_option e \<subseteq> set (addrs T)"
proof -
  have T: "tree_at h None None None T" "a \<in> set (addrs T)" using assms subtree_addr by (auto simp: inside_def)
  obtain e where "up h a e" "set_option e \<subseteq> set (addrs T)" using tree_up_inside(1) [OF T(1) _ order_refl T(2)] by auto
  then show ?thesis using that GetDocument_up by blast
qed

lemma link_document:
  assumes T: "inside h T a ts" and d: "nodes h d = Some n" "n_type n = TINYXML_DOCUMENT" "d = root T \<or> d \<notin> set (addrs T)"
  shows "LinkEndChild (Some a) (Some d) h \<in> {Some (Inl Assert_failed), Some (Inl Use_after_free)}
    \<and> (d \<notin> set (addrs T) \<longrightarrow> LinkEndChild (Some a) (Some d) h = Some (Inl Assert_failed))"
proof -
  obtain e where e: "GetDocument h (Some a) = Some (Inr e)" "set_option e \<subseteq> set (addrs T)" using inside_up [OF T] .
  have g: "GetDocument h (Some d) = Some (Inr (Some d))" using GetDocument_up [OF up_document [OF d(1,2)]] .
  show ?thesis
  proof (cases "d \<in> set (addrs T)")
    case False
    then have "Some d \<noteq> e" using e(2) by auto
    then show ?thesis using False d(1) g e(1) by (auto simp: LinkEndChild_def node_at_def)
  next
    case True
    then have r: "d = root T" using d(3) by simp
    have T': "tree_at h None None None T" "distinct (addrs T)" "a \<in> set (addrs T)" using T subtree_addr by (auto simp: inside_def)
    have "n_parent n = None" using tree_root [OF T'(1)] d(1) r by auto
    moreover have "delete_node d h = Some (Inr (free_all (set (addrs T)) h))" using delete_node_tree [OF T'(1,2)] r by simp
    moreover have "top_only (Some a) (free_all (set (addrs T)) h) = Some (Inl Use_after_free)"
      using T'(3) unfolding top_only_def by (subst GetDocument.simps) simp
    ultimately show ?thesis using True d(1,2) g e(1) by (auto simp: LinkEndChild_def node_at_def)
  qed
qed

text \<open>A loop of siblings: the search never ends.\<close>

lemma search_loop:
  assumes "nodes h a = Some n" "nxt n = Some a" "\<not> P n"
  shows "search nxt P h (Some a) = None"
proof -
  have "(\<lambda>x y. x \<noteq> (((nxt, P), h), Some a)) (((nxt, P), h), p) y" if "search nxt P h p = Some y" for p y
    by (rule search.raw_induct [OF _ that]) (use assms in \<open>fastforce split: option.splits if_splits\<close>)
  then show ?thesis by (cases "search nxt P h (Some a)") auto
qed

lemma link_twice:
  assumes T: "inside h T a [t]" and ty: "nodes h (root t) = Some c" "n_type c \<noteq> TINYXML_DOCUMENT"
  shows "\<exists>h'. LinkEndChild (Some a) (Some (root t)) h = Some (Inr (Some (root t), h')) \<and> Clear (Some a) h' = Some (Inl Use_after_free)
    \<and> (\<forall>v. \<not> has_value v c \<longrightarrow> FirstChild (Some v) h' (Some a) = None)"
proof -
  obtain p l r e where s: "tree_at h p l r (DT a [t])" "distinct (addrs (DT a [t]))" "up h a e"
    using inside_place [OF T] by metis
  obtain n where n: "nodes h a = Some n" "n_first n = Some (root t)" "n_last n = Some (root t)" and t: "tree_at h (Some a) None None t"
    using s(1) by auto
  have c: "n_parent c = Some a" "n_first c = head (kids t)" using tree_root [OF t] ty(1) by auto
  have ne: "a \<noteq> root t" using s(2) root_addrs [of t] by (auto simp del: root_addrs)
  have dt: "distinct (addrs t)" using s(2) by simp
  let ?c = "c\<lparr>n_prev := Some (root t), n_next := Some (root t)\<rparr>"
  let ?h = "put_node a n (put_node (root t) ?c h)"
  have eq: "n\<lparr>n_last := Some (root t)\<rparr> = n" "c\<lparr>n_parent := Some a, n_prev := Some (root t), n_next := Some (root t)\<rparr> = ?c"
    by (rule dnode.equality; use n c(1) in simp)+
  have "up h (root t) e" by (rule up_parent [OF ty c(1) s(3)])
  then have L: "LinkEndChild (Some a) (Some (root t)) h = Some (Inr (Some (root t), ?h))"
    using GetDocument_up [OF s(3)] GetDocument_up [of h "root t" e] ty c n ne
    by (simp add: LinkEndChild_def node_at_def upd_node_def put_node_def fun_upd_twist eq)
  have k: "kids t = ks \<Longrightarrow> delete_list (head ks) ?h = Some (Inr (free_all (set (addrs_list ks)) ?h))" for ks
  proof -
    assume ks: "kids t = ks"
    have "tree_at (put_node (root t) ?c h) (Some a) (Some (root t)) (Some (root t)) t"
      using tree_put_root [OF t dt ty(1), of ?c] c(1) by simp
    then have "tree_at ?h (Some a) (Some (root t)) (Some (root t)) t"
      by (rule tree_frame(1)) (use s(2) in auto)
    from delete_kids [OF this dt] ks show ?thesis by simp
  qed
  have s2: "root t \<notin> set (addrs_list (kids t))" "a \<notin> set (addrs_list (kids t))" using s(2) by (cases t, auto)+
  have "delete_list (Some (root t)) ?h = Some (Inl Use_after_free)"
    apply (subst delete_list.simps)
    using k [OF refl] c(2) ne s2 by (simp add: free_node_all) (subst delete_list.simps, simp)
  then have "Clear (Some a) ?h = Some (Inl Use_after_free)" using n(2) by (simp add: Clear_def node_at_def)
  moreover have "FirstChild (Some v) ?h (Some a) = None" if "\<not> has_value v c" for v
    using n(2) ne that search_loop [of ?h "root t" ?c n_next "has_value v"]
    by (simp add: FirstChild_def node_at_def search_value_def has_value_def)
  ultimately show ?thesis using L by blast
qed

section \<open>The members of a node\<close>

text \<open>A document with two elements, the first with a text, and an element outside of it with a comment.\<close>

definition demo_node :: "ntype \<Rightarrow> string \<Rightarrow> link \<Rightarrow> link \<Rightarrow> link \<Rightarrow> link \<Rightarrow> link \<Rightarrow> dnode" where
  "demo_node ty v par fi la pv nx = \<lparr>n_type = ty, n_value = v, n_attrs = [], n_cdata = False, n_decl = ('''', '''', ''''),
     n_error = TIXML_NO_ERROR, n_location = no_cursor, n_parent = par, n_first = fi, n_last = la, n_prev = pv, n_next = nx\<rparr>"

definition demo :: dom where
  "demo = \<lparr>nodes = [0 \<mapsto> demo_node TINYXML_DOCUMENT '''' None (Some 1) (Some 3) None None,
     1 \<mapsto> demo_node TINYXML_ELEMENT ''a'' (Some 0) (Some 2) (Some 2) None (Some 3),
     2 \<mapsto> demo_node TINYXML_TEXT ''t'' (Some 1) None None None None,
     3 \<mapsto> demo_node TINYXML_ELEMENT ''b'' (Some 0) None None (Some 1) None,
     4 \<mapsto> demo_node TINYXML_ELEMENT ''c'' None (Some 5) (Some 5) None None,
     5 \<mapsto> demo_node TINYXML_COMMENT ''d'' (Some 4) None None None None], top = 6\<rparr>"

lemma demo_trees:
  "inside demo (DT 0 [DT 1 [DT 2 []], DT 3 []]) 0 ([DT 1 [DT 2 []]] @ DT 3 [] # [])" "tree_at demo None None None (DT 4 [DT 5 []])"
  "inside demo (DT 0 [DT 1 [DT 2 []], DT 3 []]) 1 [DT 2 []]" "inside demo (DT 4 [DT 5 []]) 4 [DT 5 []]"
  by (simp_all add: inside_def demo_def demo_node_def)

lemma demo_nodes:
  "nodes demo 0 = Some (demo_node TINYXML_DOCUMENT '''' None (Some 1) (Some 3) None None)"
  "nodes demo 2 = Some (demo_node TINYXML_TEXT ''t'' (Some 1) None None None None)"
  "nodes demo 4 = Some (demo_node TINYXML_ELEMENT ''c'' None (Some 5) (Some 5) None None)"
  "n_type (demo_node ty v p f l pv nx) = ty" "n_value (demo_node ty v p f l pv nx) = v"
  by (simp_all add: demo_def demo_node_def)

text \<open>C5:
  LinkEndChild appends a detached tree to the children of a node anywhere in a document: it returns the
  node, the document is the same tree with the new child behind the others, no node holds anything else than
  before, and no node outside of both trees has changed.\<close>

theorem link_end_child_appends:
  assumes "inside h T a ts" and "tree_at h None pu nu u" "distinct (addrs u)" "set (addrs T) \<inter> set (addrs u) = {}"
    and "nodes h (root u) = Some c" "n_type c \<noteq> TINYXML_DOCUMENT"
  shows "\<exists>h'. LinkEndChild (Some a) (Some (root u)) h = Some (Inr (Some (root u), h'))
    \<and> tree_at h' None None None (plug a (ts @ [u]) T) \<and> info h' = info h
    \<and> (\<forall>b. b \<notin> set (addrs T) \<union> set (addrs u) \<longrightarrow> nodes h' b = nodes h b)"
  by (rule link_inside [OF assms])

theorem link_end_child_appends_witness:
  "\<exists>h'. LinkEndChild (Some 1) (Some 4) demo = Some (Inr (Some 4, h'))
    \<and> tree_at h' None None None (DT 0 [DT 1 [DT 2 [], DT 4 [DT 5 []]], DT 3 []])"
  using link_end_child_appends [OF demo_trees(3,2) _ _ _] demo_nodes by fastforce

text \<open>C6:
  RemoveChild takes a child with its subtree out of a document and releases exactly the nodes of
  the subtree; Clear releases exactly the nodes below the one it is called for. Deleting a whole document releases
  exactly its nodes. What the other nodes hold stays, and nodes outside of the document do not change.\<close>

theorem remove_releases_subtree:
  assumes "inside h T a (xs @ t # ys)"
  shows "(\<exists>h'. RemoveChild (Some a) (Some (root t)) h = Some (Inr (True, h'))
      \<and> tree_at h' None None None (plug a (xs @ ys) T) \<and> (\<forall>b \<in> set (addrs t). nodes h' b = None)
      \<and> (\<forall>b. b \<notin> set (addrs t) \<longrightarrow> info h' b = info h b) \<and> (\<forall>b. b \<notin> set (addrs T) \<longrightarrow> nodes h' b = nodes h b))
    \<and> (\<exists>h'. Clear (Some a) h = Some (Inr h') \<and> tree_at h' None None None (plug a [] T)
      \<and> (\<forall>b. if b \<in> set (addrs_list (xs @ t # ys)) then nodes h' b = None else info h' b = info h b))
    \<and> delete_node (root T) h = Some (Inr (h\<lparr>nodes := \<lambda>b. if b \<in> set (addrs T) then None else nodes h b\<rparr>))"
  using remove_inside [OF assms] clear_inside [OF assms] assms delete_node_tree [of h None None None T]
  by (simp add: inside_def free_all_def)

theorem remove_releases_subtree_witness:
  "\<exists>h'. RemoveChild (Some 4) (Some 5) demo = Some (Inr (True, h')) \<and> tree_at h' None None None (DT 4 []) \<and> nodes h' 5 = None"
  using remove_releases_subtree [of demo "DT 4 [DT 5 []]" 4 "[]" "DT 5 []" "[]"] demo_trees(4) by fastforce

text \<open>C25:
  The members that search agree with searching the list of children: FirstChild and LastChild, NextSibling and
  PreviousSibling from a child, with a value or without, IterateChildren from the start and from a child, the
  variants for elements, and Child and ChildElement of a handle with the index of the match. They all return.\<close>

theorem search_members:
  assumes "inside h T a (xs @ t # ys)"
  shows "FirstChild v h (Some a) = Some (Inr (found h (matches v) (xs @ t # ys)))
    \<and> LastChild v h (Some a) = Some (Inr (found h (matches v) (rev (xs @ t # ys))))
    \<and> NextSibling v h (Some (root t)) = Some (Inr (found h (matches v) ys))
    \<and> PreviousSibling v h (Some (root t)) = Some (Inr (found h (matches v) (rev xs)))
    \<and> IterateChildren v h (Some a) None = Some (Inr (found h (matches v) (xs @ t # ys)))
    \<and> IterateChildren v h (Some a) (Some (root t)) = Some (Inr (found h (matches v) ys))
    \<and> FirstChildElement v h (Some a) = Some (Inr (found h (is_element v) (xs @ t # ys)))
    \<and> NextSiblingElement v h (Some (root t)) = Some (Inr (found h (is_element v) ys))
    \<and> Child v i h (Some a) = Some (Inr (nth_child h (matches v) (xs @ t # ys) (nat i)))
    \<and> ChildElement v i h (Some a) = Some (Inr (nth_child h (is_element v) (xs @ t # ys) (nat i)))"
proof -
  obtain m where l: "list_at h a None (xs @ t # ys) None" using inside_list [OF assms] by metis
  obtain n where n: "nodes h (root t) = Some n" "n_parent n = Some a" "n_prev n = final xs" "list_at h a None xs (Some (root t))"
    using child_node [OF l] by metis
  have "PreviousSibling v h (Some (root t)) = Some (Inr (found h (matches v) (rev xs)))"
    using n search_value_backward [OF n(4)] by (simp add: PreviousSibling_def node_at_def)
  then show ?thesis
    using first_child [OF assms] counted_child [OF assms] next_sibling [OF l] next_sibling_element [OF l] n
    by (simp add: IterateChildren_def node_at_def)
qed

theorem search_members_witness:
  "FirstChild (Some ''b'') demo (Some 0) = Some (Inr (Some 3)) \<and> ChildElement None 1 demo (Some 0) = Some (Inr (Some 3))"
  using search_members [OF demo_trees(1), of "Some ''b''" 1] search_members [OF demo_trees(1), of None 1]
  by (simp add: found_def nth_child_def holds_def matches_def is_element_def has_value_def cstr_def demo_def demo_node_def)

text \<open>
  A document is never linked below a node, and TIXML_ERROR_DOCUMENT_TOP_ONLY is never reported for it: LinkEndChild
  fails its second assertion for a document that is not the node's own, and for the node's own document fails
  an assertion or uses the node that it has deleted with the document.\<close>

theorem link_document_fails:
  assumes "inside h T a ts" "nodes h d = Some n" "n_type n = TINYXML_DOCUMENT" "d = root T \<or> d \<notin> set (addrs T)"
  shows "LinkEndChild (Some a) (Some d) h \<in> {Some (Inl Assert_failed), Some (Inl Use_after_free)}
    \<and> (d \<notin> set (addrs T) \<longrightarrow> LinkEndChild (Some a) (Some d) h = Some (Inl Assert_failed))"
  by (rule link_document [OF assms])

theorem link_document_fails_witness:
  "LinkEndChild (Some 4) (Some 0) demo = Some (Inl Assert_failed)"
  using link_document_fails [OF demo_trees(4) demo_nodes(1)] demo_nodes by simp

text \<open>C26:
  The assertions of LinkEndChild let a node pass that already is a child of this node. Linking the only child once
  more returns as usual and leaves it as its own sibling: Clear then uses a node that is deleted, and a
  search for a value that the child does not have never returns.\<close>

theorem link_twice_corrupts:
  assumes "inside h T a [t]" "nodes h (root t) = Some c" "n_type c \<noteq> TINYXML_DOCUMENT"
  shows "\<exists>h'. LinkEndChild (Some a) (Some (root t)) h = Some (Inr (Some (root t), h')) \<and> Clear (Some a) h' = Some (Inl Use_after_free)
    \<and> (\<forall>v. \<not> has_value v c \<longrightarrow> FirstChild (Some v) h' (Some a) = None)"
  by (rule link_twice [OF assms])

theorem link_twice_corrupts_witness:
  "\<exists>h'. LinkEndChild (Some 1) (Some 2) demo = Some (Inr (Some 2, h')) \<and> Clear (Some 1) h' = Some (Inl Use_after_free)
    \<and> FirstChild (Some ''x'') h' (Some 1) = None"
  using link_twice_corrupts [OF demo_trees(3)] demo_nodes by (fastforce simp: has_value_def cstr_def)

end
