(* ===== verification/DomCopy.thy ===== *)
theory DomCopy
  imports DomTree
begin

text \<open>
  Copies of trees of nodes on the heap: what \<open>Clone\<close> builds, and the members of \<open>TiXmlNode\<close> that put a copy
  into a document.
\<close>

section \<open>Copies\<close>

text \<open>What a node and a tree hold, and what a copy of them holds.\<close>

datatype vtree = VN dnode "vtree list"

fun view :: "dom \<Rightarrow> dtree \<Rightarrow> vtree" where
  "view h (DT a ts) = VN (the (info h a)) (map (view h) ts)"

definition copied :: "dnode \<Rightarrow> dnode" where
  "copied n = bare n\<lparr>n_value := cstr (n_value n),
     n_attrs := if n_type n = TINYXML_ELEMENT
       then map (\<lambda>a. \<lparr>aname = cstr (aname a), avalue = cstr (avalue a), alocation = no_cursor\<rparr>) (n_attrs n) else [],
     n_cdata := (n_type n = TINYXML_TEXT \<and> n_cdata n),
     n_decl := if n_type n = TINYXML_DECLARATION then n_decl n else ('''', '''', ''''),
     n_error := if n_type n = TINYXML_DOCUMENT then n_error n else TIXML_NO_ERROR\<rparr>"

definition with_children :: "dnode \<Rightarrow> bool" where
  "with_children n \<longleftrightarrow> n_type n = TINYXML_ELEMENT \<or> n_type n = TINYXML_DOCUMENT"

fun copy_view :: "vtree \<Rightarrow> vtree" where
  "copy_view (VN n vs) = VN (copied n) (if with_children n then map copy_view vs else [])"

definition node_ok :: "dnode \<Rightarrow> bool" where
  "node_ok n \<longleftrightarrow> (n_type n = TINYXML_ELEMENT \<longrightarrow> distinct (names (n_attrs n)) \<and> [] \<notin> set (names (n_attrs n)))"

lemma copied_simps [simp]: "copied (bare n) = copied n" "bare (copied n) = copied n" "n_type (copied n) = n_type n"
  "n_parent (copied n) = None" "n_prev (copied n) = None" "n_next (copied n) = None"
  "n_first (copied n) = None" "n_last (copied n) = None" "with_children (bare n) = with_children n"
  by (simp_all add: copied_def bare_def with_children_def)

lemma view_cong: "(\<And>b. b \<in> set (addrs t) \<Longrightarrow> info h' b = info h b) \<Longrightarrow> view h' t = view h t"
  by (induction t) auto

lemma attr_walk_all: "[] \<notin> set (names as) \<Longrightarrow> attr_walk as = as"
proof -
  assume "[] \<notin> set (names as)"
  then have "aname a \<noteq> []" if "a \<in> set as" for a
    using that by (force simp: names_def cstr_def)
  then show ?thesis by (auto simp: attr_walk_def intro!: takeWhile_eq_all_conv [THEN iffD2] split: list.split)
qed

lemma copy_attributes:
  assumes "distinct (names (bs @ as))" "[] \<notin> set (names (bs @ as))"
  shows "foldr_res (\<lambda>a. SetAttribute (cstr (aname a)) (cstr (avalue a))) as bs
    = Inr (bs @ map (\<lambda>a. \<lparr>aname = cstr (aname a), avalue = cstr (avalue a), alocation = no_cursor\<rparr>) as)"
  using assms
proof (induction as arbitrary: bs)
  case (Cons a as)
  let ?a = "\<lparr>aname = cstr (aname a), avalue = cstr (avalue a), alocation = no_cursor\<rparr>"
  have "cstr (cstr (aname a)) \<notin> set (names bs)" "[] \<notin> set (names bs)"
    using Cons.prems by (auto simp: names_def)
  moreover have "at_first (named n) f (bs @ [b]) = bs @ [f b]" if "cstr n \<notin> set (names bs)" "named n b" for n f and b
    using that by (induction bs) (auto simp: named_def names_def)
  ultimately have "SetAttribute (cstr (aname a)) (cstr (avalue a)) bs = Inr (bs @ [?a])"
    by (simp add: SetAttribute_def FindOrCreate_cases named_def)
  moreover have "names ((bs @ [?a]) @ as) = names (bs @ a # as)" by (simp add: names_def)
  ultimately show ?case using Cons.IH [of "bs @ [?a]"] Cons.prems by simp
qed simp

lemma copy_node_copied:
  assumes "node_ok n"
  shows "copy_node n = Inr (copied n)"
proof -
  note defs = copy_node_def copied_def bare_def new_dnode_def Node_CopyTo_def
  show ?thesis
  proof (cases "n_type n")
    case TINYXML_ELEMENT
    then show ?thesis using assms copy_attributes [of "[]" "n_attrs n"] attr_walk_all [of "n_attrs n"]
      by (simp add: defs Element_CopyTo_def Let_def node_ok_def)
  qed (simp_all add: defs Text_CopyTo_def Declaration_CopyTo_def Document_CopyTo_def)
qed

definition fresh :: "dom \<Rightarrow> bool" where
  "fresh h \<longleftrightarrow> (\<forall>b. top h \<le> b \<longrightarrow> nodes h b = None)"

lemma tree_allocated:
  "tree_at h par pv nx t \<Longrightarrow> b \<in> set (addrs t) \<Longrightarrow> nodes h b \<noteq> None"
  "list_at h a pv ts nx \<Longrightarrow> b \<in> set (addrs_list ts) \<Longrightarrow> nodes h b \<noteq> None"
  by (induction h par pv nx t and h a pv ts nx rule: tree_at_list_at.induct) auto

lemma tree_below:
  "fresh h \<Longrightarrow> tree_at h par pv nx t \<Longrightarrow> set (addrs t) \<subseteq> {..<top h}"
  "fresh h \<Longrightarrow> list_at h a pv ts nx \<Longrightarrow> set (addrs_list ts) \<subseteq> {..<top h}"
  using tree_allocated unfolding fresh_def by (meson lessThan_iff not_le subsetI)+

definition may_copy :: "dom \<Rightarrow> dtree list \<Rightarrow> bool" where
  "may_copy h ts \<longleftrightarrow> (\<forall>b \<in> set (addrs_list ts). \<forall>n. nodes h b = Some n \<longrightarrow> node_ok n \<and> n_type n \<noteq> TINYXML_DOCUMENT)"

text \<open>
  A tree \<open>u\<close> that holds \<open>V\<close> has been made in new nodes, with the parent \<open>par\<close>; trees \<open>vs\<close> that hold \<open>Vs\<close>, behind the
  children \<open>us\<close> of the node \<open>b\<close>.
\<close>

definition grown :: "link \<Rightarrow> dom \<Rightarrow> vtree \<Rightarrow> dom \<Rightarrow> dtree \<Rightarrow> bool" where
  "grown par h V h' u \<longleftrightarrow> tree_at h' par None None u \<and> view h' u = V
     \<and> (\<forall>x < top h. nodes h' x = nodes h x) \<and> top h \<le> top h' \<and> set (addrs u) \<subseteq> {top h..<top h'} \<and> distinct (addrs u) \<and> fresh h'"

definition appended :: "link \<times> link \<times> link \<Rightarrow> dom \<Rightarrow> nat \<Rightarrow> dtree list \<Rightarrow> vtree list \<Rightarrow> dom \<Rightarrow> dtree list \<Rightarrow> bool" where
  "appended at h b us Vs h' vs \<longleftrightarrow> tree_at h' (fst at) (fst (snd at)) (snd (snd at)) (DT b (us @ vs)) \<and> map (view h') vs = Vs
     \<and> (\<forall>x < top h. info h' x = info h x \<and> (x \<notin> set (addrs (DT b us)) \<longrightarrow> nodes h' x = nodes h x))
     \<and> top h \<le> top h' \<and> set (addrs_list vs) \<subseteq> {top h..<top h'} \<and> distinct (addrs_list vs) \<and> fresh h'"

abbreviation cloned :: "link \<times> link \<times> link \<Rightarrow> dom \<Rightarrow> nat \<Rightarrow> dtree list \<Rightarrow> dtree list \<Rightarrow> dom \<Rightarrow> dtree list \<Rightarrow> bool" where
  "cloned at h b us ts h' vs \<equiv> appended at h b us (map (\<lambda>t. copy_view (view h t)) ts) h' vs"

abbreviation clone_of :: "dom \<Rightarrow> dtree \<Rightarrow> dom \<Rightarrow> dtree \<Rightarrow> bool" where
  "clone_of h t \<equiv> grown None h (copy_view (view h t))"

lemma clone_list_None [simp]: "clone_list None b h = Some (Inr h)"
  by (simp add: clone_list.simps)

lemma up_root: "nodes h a = Some n \<Longrightarrow> n_parent n = None \<Longrightarrow> \<exists>e. up h a e"
  by (cases "n_type n = TINYXML_DOCUMENT") (auto intro: up_document up_none)

lemma clone_list_Clone:
  "clone_list (Some c) b h = bindo (Clone (Some c) h) (\<lambda>(c', h). bindo (LinkEndChild (Some b) (Some c') h) (\<lambda>(_, h).
     bindo (Some (node_at (Some c) h)) (\<lambda>n. clone_list (n_next n) b h)))"
proof (cases "node_at (Some c) h")
  case (Inr n)
  show ?thesis
  proof (cases "copy_node n")
    case m: (Inr m)
    obtain c' h1 where nn: "new_node m h = (c', h1)" by (cases "new_node m h")
    show ?thesis
    proof (cases "if n_type n = TINYXML_ELEMENT \<or> n_type n = TINYXML_DOCUMENT then clone_list (n_first n) c' h1 else Some (Inr h1)")
      case None
      then show ?thesis by (subst clone_list.simps) (simp add: Clone_def Inr m nn)
    next
      case (Some r)
      then show ?thesis by (subst clone_list.simps) (cases r; simp add: Clone_def Inr m nn)
    qed
  qed (subst clone_list.simps, simp add: Clone_def Inr)
qed (subst clone_list.simps, simp add: Clone_def)

text \<open>A new tree can be linked as the last child.\<close>

lemma link_grown:
  assumes b: "tree_at h par l r (DT b us)" "distinct (addrs (DT b us))" "up h b e" and f: "fresh h"
    and g: "grown pr h (VN n Vs) h2 u" "pr = None \<or> pr = Some b" and ty: "n_type n \<noteq> TINYXML_DOCUMENT"
  obtains h3 where "LinkEndChild (Some b) (Some (root u)) h2 = Some (Inr (Some (root u), h3))"
    "tree_at h3 par l r (DT b (us @ [u]))" "distinct (addrs (DT b (us @ [u])))" "fresh h3"
    "outside (DT b (us @ [u])) h2 h3" "info h3 = info h2" "up h3 b e"
proof -
  let ?c = "top h"
  have bu: "set (addrs (DT b us)) \<subseteq> {..<?c}" by (rule tree_below(1) [OF f b(1)])
  have w: "tree_at h2 pr None None u" "set (addrs u) \<subseteq> {?c..<top h2}" "distinct (addrs u)" "fresh h2" "?c \<le> top h2"
      "\<And>x. x < ?c \<Longrightarrow> nodes h2 x = nodes h x" "view h2 u = VN n Vs"
    using g(1) by (auto simp: grown_def)
  have b2: "tree_at h2 par l r (DT b us)" by (rule tree_frame(1) [OF b(1)], rule w(6)) (use bu in auto)
  have eu: "set (addrs (DT b (us @ [u]))) = set (addrs (DT b us)) \<union> set (addrs u)" by auto
  have du: "set (addrs (DT b us)) \<inter> set (addrs u) = {}"
    using bu w(2) by (meson disjoint_iff lessThan_iff atLeastLessThan_iff subsetD leD)
  then have d2: "distinct (addrs (DT b (us @ [u])))" using b(2) w(3) by auto
  have "info h2 (root u) = Some n" using tree_root [OF w(1)] w(7) by (cases u) (auto simp: info_def)
  then have tu: "n_type m \<noteq> TINYXML_DOCUMENT" if "nodes h2 (root u) = Some m" for m
    using ty that bare_simps(7) [of m] by (auto simp: info_def simp del: bare_simps)
  have k2: "keeps_parents h h2"
    using f w(6) unfolding keeps_parents_def fresh_def by (metis not_le option.distinct(1))
  obtain m where m: "nodes h2 (root u) = Some m" using tree_root [OF w(1)] by blast
  obtain h3 where h3: "LinkEndChild (Some b) (Some (root u)) h2 = Some (Inr (Some (root u), h3))"
      "tree_at h3 par l r (DT b (us @ [u]))" "outside (DT b (us @ [u])) h2 h3" "info h3 = info h2"
    using link_end_child_tree [OF b2 w(1) g(2) d2 m tu [OF m] up_keeps [OF b(3) k2]] by blast
  have "keeps_parents h h3"
    unfolding keeps_parents_def
  proof (intro allI impI)
    fix x n assume x: "nodes h x = Some n"
    then have lt: "x < ?c" using f unfolding fresh_def by (metis not_le option.distinct(1))
    then have i: "info h3 x = Some (bare n)" using x w(6) h3(4) by (simp add: info_def)
    have "map_option n_parent (nodes h3 x) = Some (n_parent n)"
    proof (cases "x \<in> set (addrs (DT b us))")
      case True
      have "list_at h3 b None us (Some (root u))" "list_at h b None us None" using h3(2) b(1) by (auto simp: list_at_append)
      moreover have "map_option n_parent (nodes h3 b) = map_option n_parent (nodes h b)" using h3(2) b(1) by auto
      ultimately show ?thesis using True x tree_parents(2) by fastforce
    next
      case False
      then have "x \<notin> set (addrs (DT b (us @ [u])))" using lt w(2) unfolding eu by auto
      then show ?thesis using h3(3) w(6) [OF lt] x by (simp add: outside_def)
    qed
    with i show "\<exists>n'. nodes h3 x = Some n' \<and> n_parent n' = n_parent n \<and> n_type n' = n_type n"
      by (auto simp: info_def) (metis bare_simps(7))
  qed
  note u3 = up_keeps [OF b(3) this]
  have "set (addrs (DT b (us @ [u]))) \<subseteq> {..<top h2}"
    unfolding eu using bu w(2,5) by (meson Un_least atLeastLessThan_iff lessThan_iff order.strict_trans2 subset_iff)
  then have "nodes h3 x = nodes h2 x" if "top h2 \<le> x" for x
    using h3(3) that unfolding outside_def by (meson lessThan_iff not_le subsetD)
  then have "fresh h3" using w(4) h3(3) by (simp add: fresh_def outside_def)
  then show thesis using that [OF h3(1,2) d2 _ h3(3,4) u3] by blast
qed

lemma clone_node:
  assumes IH: "\<And>h par pv nx c. tree_at h par pv nx t \<Longrightarrow> may_copy h (kids t) \<Longrightarrow> fresh h \<Longrightarrow>
      tree_at h None None None (DT c []) \<Longrightarrow> c \<notin> set (addrs t) \<Longrightarrow>
      \<exists>h' vs. clone_list (head (kids t)) c h = Some (Inr h') \<and> cloned (None, None, None) h c [] (kids t) h' vs"
    and t: "tree_at h par pv nx t" "may_copy h (kids t)" and n: "nodes h (root t) = Some n" "node_ok n" and f: "fresh h"
  shows "\<exists>h' ws. Clone (Some (root t)) h = Some (Inr (top h, h')) \<and> clone_of h t h' (DT (top h) ws)"
proof -
  let ?c = "top h"
  have bt: "set (addrs t) \<subseteq> {..<?c}" using tree_below(1) [OF f t(1)] .
  have k: "set (addrs_list (kids t)) \<subseteq> set (addrs t)" by (cases t) auto
  have n3: "n_first n = head (kids t)" using tree_root [OF t(1)] n(1) by auto
  define h1 where "h1 = (put_node ?c (copied n) h)\<lparr>top := Suc ?c\<rparr>"
  have h1: "new_node (copied n) h = (?c, h1)" "top h1 = Suc ?c" "nodes h1 ?c = Some (copied n)" "info h1 ?c = Some (copied n)"
      "\<And>x. x \<noteq> ?c \<Longrightarrow> nodes h1 x = nodes h x" "\<And>x. x \<noteq> ?c \<Longrightarrow> info h1 x = info h x" "fresh h1"
    using f by (auto simp: h1_def new_node_def put_node_def fresh_def info_def)
  have t1: "tree_at h1 par pv nx t" by (rule tree_frame(1) [OF t(1)], rule h1(5)) (use bt in auto)
  have c1: "tree_at h1 None None None (DT ?c [])" using h1(3) by simp
  have m1: "may_copy h1 (kids t)"
    unfolding may_copy_def
  proof (intro ballI allI impI)
    fix x m assume x: "x \<in> set (addrs_list (kids t))" "nodes h1 x = Some m"
    then have "x \<noteq> ?c" using k bt by auto
    with x h1(5) t(2) show "node_ok m \<and> n_type m \<noteq> TINYXML_DOCUMENT" by (auto simp: may_copy_def)
  qed
  have vt: "view h t = VN (bare n) (map (view h) (kids t))" using info_at [OF n(1)] by (cases t) simp
  show ?thesis
  proof (cases "with_children n")
    case True
    obtain h2 ws where w: "clone_list (head (kids t)) ?c h1 = Some (Inr h2)" "cloned (None, None, None) h1 ?c [] (kids t) h2 ws"
      using IH [OF t1 m1 h1(7) c1] bt by auto
    have "view h1 s = view h s" if "s \<in> set (kids t)" for s
      by (rule view_cong, rule h1(6)) (use that k bt in force)
    then have "map (\<lambda>s. copy_view (view h1 s)) (kids t) = map (\<lambda>s. copy_view (view h s)) (kids t)" by simp
    moreover have "info h2 ?c = Some (copied n)" using w(2) h1(2,4) by (auto simp: appended_def)
    ultimately have v: "view h2 (DT ?c ws) = copy_view (view h t)"
      using w(2) True by (simp add: appended_def vt o_def)
    have fr: "nodes h2 x = nodes h x" if "x < ?c" for x
      using w(2) that h1(2,5) by (auto simp: appended_def)
    have "tree_at h2 None None None (DT ?c ws)" "set (addrs_list ws) \<subseteq> {Suc ?c..<top h2}" "Suc ?c \<le> top h2"
        "distinct (addrs_list ws)" "fresh h2"
      using w(2) h1(2) by (simp_all add: appended_def)
    moreover from this have "set (addrs (DT ?c ws)) \<subseteq> {?c..<top h2}" "distinct (addrs (DT ?c ws))"
      unfolding addrs.simps list.set distinct.simps by auto
    ultimately have "clone_of h t h2 (DT ?c ws)"
      using v fr by (simp add: grown_def del: tree_at.simps addrs.simps view.simps)
    moreover have "Clone (Some (root t)) h = Some (Inr (?c, h2))"
      using w(1) True n n3 h1(1) by (simp add: Clone_def node_at_def copy_node_copied with_children_def)
    ultimately show ?thesis by blast
  next
    case False
    have "clone_of h t h1 (DT ?c [])" using c1 h1 False by (auto simp: grown_def vt)
    moreover have "Clone (Some (root t)) h = Some (Inr (?c, h1))"
      using False n h1(1) by (simp add: Clone_def node_at_def copy_node_copied with_children_def)
    ultimately show ?thesis by blast
  qed
qed

lemma clone_step:
  assumes l: "list_at h a pv (t # ts) None" and m: "may_copy h (t # ts)" and f: "fresh h"
    and b: "tree_at h p l r (DT b us)" "up h b e" "distinct (addrs (DT b us))" "set (addrs (DT b us)) \<inter> set (addrs_list (t # ts)) = {}"
    and C: "Clone (Some (root t)) h = Some (Inr (top h, h2))" "clone_of h t h2 u" "root u = top h"
  obtains h3 where "clone_list (head (t # ts)) b h = clone_list (head ts) b h3" "list_at h3 a (Some (root t)) ts None"
    "may_copy h3 ts" "fresh h3" "tree_at h3 p l r (DT b (us @ [u]))" "distinct (addrs (DT b (us @ [u])))"
    "set (addrs (DT b (us @ [u]))) \<inter> set (addrs_list ts) = {}" "info h3 = info h2" "outside (DT b (us @ [u])) h2 h3" "up h3 b e"
proof -
  let ?c = "top h"
  obtain n where n: "nodes h (root t) = Some n" "n_next n = head ts" and ts: "list_at h a (Some (root t)) ts None"
    and ty: "n_type n \<noteq> TINYXML_DOCUMENT"
    using l m tree_root [of h "Some a" pv] by (cases ts) (fastforce simp: may_copy_def)+
  have bs: "set (addrs_list (t # ts)) \<subseteq> {..<?c}" and bu: "set (addrs (DT b us)) \<subseteq> {..<?c}"
    using tree_below(2) [OF f l] tree_below(1) [OF f b(1)] by blast+
  have w: "set (addrs u) \<subseteq> {?c..<top h2}" "\<And>x. x < ?c \<Longrightarrow> nodes h2 x = nodes h x"
    using C(2) by (auto simp: grown_def)
  have eu: "set (addrs (DT b (us @ [u]))) = set (addrs (DT b us)) \<union> set (addrs u)" by auto
  obtain k ks where "t = DT k ks" by (cases t)
  then have g: "grown None h (VN (copied n) (if with_children n then map copy_view (map (view h) ks) else [])) h2 u"
    using C(2) info_at [OF n(1)] by simp
  obtain h3 where h3: "LinkEndChild (Some b) (Some (root u)) h2 = Some (Inr (Some (root u), h3))"
      "tree_at h3 p l r (DT b (us @ [u]))" "distinct (addrs (DT b (us @ [u])))" "fresh h3"
      "outside (DT b (us @ [u])) h2 h3" "info h3 = info h2" "up h3 b e"
    by (rule link_grown [OF b(1,3,2) f g disjI1 [OF refl]]) (use ty in \<open>simp, blast\<close>)
  have dj: "set (addrs (DT b (us @ [u]))) \<inter> set (addrs_list (t # ts)) = {}"
    using b(4) w(1) bs unfolding eu by (auto simp: disjoint_iff subset_iff) (metis not_le)+
  have n3: "nodes h3 x = nodes h x" if "x \<in> set (addrs_list (t # ts))" for x
  proof -
    have "x \<notin> set (addrs (DT b (us @ [u])))" "x < ?c" using dj bs that by blast+
    then show ?thesis using h3(5) w(2) by (simp add: outside_def)
  qed
  show thesis
  proof (rule that)
    have "nodes h3 (root t) = Some n" using n3 [of "root t"] n(1) by simp
    then show "clone_list (head (t # ts)) b h = clone_list (head ts) b h3"
      using C(1,3) h3(1) n(2) by (simp add: clone_list_Clone node_at_def)
    show "list_at h3 a (Some (root t)) ts None" by (rule tree_frame(2) [OF ts], rule n3) simp
    show "may_copy h3 ts" using m n3 by (auto simp: may_copy_def)
    show "set (addrs (DT b (us @ [u]))) \<inter> set (addrs_list ts) = {}" using dj by auto
  qed (use h3 in simp_all)
qed

lemma appended_step:
  assumes C: "grown pr h V h2 u" and h3: "info h3 = info h2" "outside (DT b (us @ [u])) h2 h3"
    and r: "appended at h3 b (us @ [u]) Vs h' vs"
  shows "appended at h b us (V # Vs) h' (u # vs)"
proof -
  have w: "set (addrs u) \<subseteq> {top h..<top h2}" "distinct (addrs u)" "top h \<le> top h2" "\<And>x. x < top h \<Longrightarrow> nodes h2 x = nodes h x"
      "view h2 u = V"
    using C by (auto simp: grown_def)
  have i: "\<And>x. x < top h \<Longrightarrow> info h3 x = info h x" using w(4) h3(1) by (simp add: info_def)
  have tp: "top h3 = top h2" using h3(2) by (simp add: outside_def)
  have q: "tree_at h' (fst at) (fst (snd at)) (snd (snd at)) (DT b ((us @ [u]) @ vs))" "map (view h') vs = Vs"
      "\<And>x. x < top h2 \<Longrightarrow> info h' x = info h3 x" "\<And>x. x < top h2 \<Longrightarrow> x \<notin> set (addrs (DT b (us @ [u]))) \<Longrightarrow> nodes h' x = nodes h3 x"
      "top h2 \<le> top h'" "set (addrs_list vs) \<subseteq> {top h2..<top h'}" "distinct (addrs_list vs)" "fresh h'"
    using r unfolding appended_def tp by blast+
  have "view h' u = view h2 u" by (rule view_cong) (use w(1) q(3) h3(1) in auto)
  moreover have "nodes h' x = nodes h x" if "x < top h" "x \<notin> set (addrs (DT b us))" for x
  proof -
    have "x \<notin> set (addrs (DT b (us @ [u])))" using that w(1) by auto
    then show ?thesis using q(4) h3(2) w(3,4) that(1) by (simp add: outside_def)
  qed
  moreover have "set (addrs_list (u # vs)) \<subseteq> {top h..<top h'}" "distinct (addrs_list (u # vs))"
    using w(1-3) q(5-7) by (auto simp: disjoint_iff subset_iff simp del: set_concat) (metis not_le)+
  ultimately show ?thesis
    using q w(3,5) i unfolding appended_def by (auto simp del: addrs.simps set_concat)
qed

lemma cloned_step:
  assumes C: "clone_of h t h2 u" and h3: "info h3 = info h2" "outside (DT b (us @ [u])) h2 h3"
    and r: "cloned at h3 b (us @ [u]) ts h' vs" and bs: "set (addrs_list ts) \<subseteq> {..<top h}"
  shows "cloned at h b us (t # ts) h' (u # vs)"
proof -
  have "info h3 x = info h x" if "x < top h" for x using C h3(1) that by (simp add: grown_def info_def)
  then have "view h3 s = view h s" if "s \<in> set ts" for s by (intro view_cong) (use that bs in force)
  then have e: "map (\<lambda>t. copy_view (view h3 t)) ts = map (\<lambda>t. copy_view (view h t)) ts" by simp
  show ?thesis using appended_step [OF C h3 r] unfolding e list.map .
qed

lemma clone_siblings:
  assumes IH: "\<And>t h par pv nx c. t \<in> set ts \<Longrightarrow> tree_at h par pv nx t \<Longrightarrow> may_copy h (kids t) \<Longrightarrow> fresh h \<Longrightarrow>
      tree_at h None None None (DT c []) \<Longrightarrow> c \<notin> set (addrs t) \<Longrightarrow>
      \<exists>h' vs. clone_list (head (kids t)) c h = Some (Inr h') \<and> cloned (None, None, None) h c [] (kids t) h' vs"
    and "list_at h a pv ts None" "may_copy h ts" "fresh h" "tree_at h p l r (DT b us)" "up h b e"
    and "distinct (addrs (DT b us))" "set (addrs (DT b us)) \<inter> set (addrs_list ts) = {}"
  shows "\<exists>h' vs. clone_list (head ts) b h = Some (Inr h') \<and> cloned (p, l, r) h b us ts h' vs"
  using assms
proof (induction ts arbitrary: h pv us)
  case Nil
  then show ?case by (auto simp: appended_def)
next
  case (Cons t ts)
  have l: "tree_at h (Some a) pv (if ts = [] then None else head ts) t" using Cons.prems(2) by simp
  obtain n where n: "nodes h (root t) = Some n" using tree_root [OF l] by blast
  have ok: "node_ok n" "may_copy h (kids t)" using Cons.prems(3) n by (cases t, force simp: may_copy_def)+
  have "\<exists>h' ws. Clone (Some (root t)) h = Some (Inr (top h, h')) \<and> clone_of h t h' (DT (top h) ws)"
    by (rule clone_node [OF _ l ok(2) n ok(1) Cons.prems(4)]) (rule Cons.prems(1), simp)
  then obtain h2 ws where C: "Clone (Some (root t)) h = Some (Inr (top h, h2))" "clone_of h t h2 (DT (top h) ws)" by blast
  obtain h3 where h3: "clone_list (head (t # ts)) b h = clone_list (head ts) b h3" "list_at h3 a (Some (root t)) ts None"
      "may_copy h3 ts" "fresh h3" "tree_at h3 p l r (DT b (us @ [DT (top h) ws]))" "distinct (addrs (DT b (us @ [DT (top h) ws])))"
      "set (addrs (DT b (us @ [DT (top h) ws]))) \<inter> set (addrs_list ts) = {}" "info h3 = info h2" "outside (DT b (us @ [DT (top h) ws])) h2 h3" "up h3 b e"
    using clone_step [OF Cons.prems(2-8) C] by auto
  have "\<exists>h' vs. clone_list (head ts) b h3 = Some (Inr h') \<and> cloned (p, l, r) h3 b (us @ [DT (top h) ws]) ts h' vs"
    by (rule Cons.IH [OF _ h3(2-5,10,6,7)]) (rule Cons.prems(1), simp)
  then obtain h' vs where q: "clone_list (head ts) b h3 = Some (Inr h')" "cloned (p, l, r) h3 b (us @ [DT (top h) ws]) ts h' vs" by blast
  have "set (addrs_list ts) \<subseteq> {..<top h}" using tree_below(2) [OF Cons.prems(4,2)] by auto
  from cloned_step [OF C(2) h3(8,9) q(2) this] q(1) h3(1) show ?case by auto
qed

lemma clone_kids:
  "tree_at h par pv nx t \<Longrightarrow> may_copy h (kids t) \<Longrightarrow> fresh h \<Longrightarrow> tree_at h None None None (DT c []) \<Longrightarrow> c \<notin> set (addrs t) \<Longrightarrow>
    \<exists>h' vs. clone_list (head (kids t)) c h = Some (Inr h') \<and> cloned (None, None, None) h c [] (kids t) h' vs"
proof (induction t arbitrary: h par pv nx c)
  case (DT a ts)
  have l: "list_at h a None ts None" using DT.prems by simp
  have d: "distinct (addrs (DT c []))" "set (addrs (DT c [])) \<inter> set (addrs_list ts) = {}" using DT.prems(5) by auto
  have m: "may_copy h ts" using DT.prems(2) by simp
  obtain e where e: "up h c e" using up_root DT.prems(4) by fastforce
  show ?case unfolding dtree.sel by (rule clone_siblings [OF _ l m DT.prems(3,4) e d]) (rule DT.IH)
qed

definition copyable :: "dom \<Rightarrow> dtree \<Rightarrow> bool" where
  "copyable h t \<longleftrightarrow> (\<forall>n. nodes h (root t) = Some n \<longrightarrow> node_ok n) \<and> may_copy h (kids t)"

lemma clone_tree:
  assumes "tree_at h par pv nx t" "copyable h t" "fresh h"
  shows "\<exists>h' ws. Clone (Some (root t)) h = Some (Inr (top h, h')) \<and> clone_of h t h' (DT (top h) ws)"
proof -
  obtain n where n: "nodes h (root t) = Some n" using tree_root [OF assms(1)] by blast
  show ?thesis
    by (rule clone_node [OF clone_kids assms(1) _ n _ assms(3)]) (use assms(2) n in \<open>simp_all add: copyable_def\<close>)
qed

section \<open>Inserting and replacing copies\<close>

lemma upd_set: "p = Some b \<Longrightarrow> nodes h b = Some n \<Longrightarrow> upd_node p (\<lambda>n. n\<lparr>n_next := q\<rparr>) h = Inr (set_next p q h)"
  "p = Some b \<Longrightarrow> nodes h b = Some n \<Longrightarrow> upd_node p (\<lambda>n. n\<lparr>n_prev := q\<rparr>) h = Inr (set_prev p q h)"
  by (simp_all add: upd_node_at set_next_def set_prev_def)

lemma insert_before_links:
  assumes at: "tree_at h par pv nx (DT a (xs @ t # ys))" and u: "tree_at h None None None u"
    and d: "distinct (addrs (DT a (xs @ u # t # ys)))"
  obtains b h1 n h2 h3 where "nodes h (root t) = Some b" "n_parent b = Some a" "n_prev b = final xs"
    "upd_node (Some (root u)) (\<lambda>n. n\<lparr>n_parent := Some a, n_next := Some (root t), n_prev := final xs\<rparr>) h = Inr h1"
    "nodes h1 a = Some n" "n_first n = head (xs @ t # ys)" "link_next (Some a) (final xs) (Some (root u)) h1 = Inr h2"
    "upd_node (Some (root t)) (\<lambda>n. n\<lparr>n_prev := Some (root u)\<rparr>) h2 = Inr h3"
    "tree_at h3 par pv nx (DT a (xs @ u # t # ys))" "outside (DT a (xs @ u # t # ys)) h h3" "info h3 = info h"
proof -
  obtain n where n: "nodes h a = Some n" "n_parent n = par" "n_prev n = pv" "n_next n = nx"
      "n_first n = head (xs @ t # ys)" "n_last n = final (xs @ t # ys)"
    and l: "list_at h a None xs (Some (root t))" "list_at h a (final xs) (t # ys) None"
    using at by (auto simp: list_at_append)
  have j: "a \<notin> set (addrs u)" "a \<notin> set (addrs_list xs)" "a \<notin> set (addrs_list (t # ys))"
      "set (addrs_list xs) \<inter> set (addrs u) = {}" "set (addrs_list (t # ys)) \<inter> set (addrs u) = {}"
      "set (addrs_list xs) \<inter> set (addrs_list (t # ys)) = {}" "distinct (addrs u)" "distinct (addrs_list xs)" "distinct (addrs_list (t # ys))"
    using disjoint_addrs [OF d] by blast+
  obtain b where b: "nodes h (root t) = Some b" "n_parent b = Some a" "n_prev b = final xs"
    using list_head [OF l(2)] by auto
  obtain m where m: "nodes h (root u) = Some m" using tree_root [OF u] by blast
  let ?m = "m\<lparr>n_parent := Some a, n_next := Some (root t), n_prev := final xs\<rparr>"
  let ?h1 = "put_node (root u) ?m h"
  have r: "root u \<in> set (addrs u)" "root t \<in> set (addrs_list (t # ys))" by simp_all
  have u1: "tree_at ?h1 (Some a) (final xs) (Some (root t)) u" using tree_put_root [OF u j(7) m, of ?m] by simp
  have x1: "list_at ?h1 a None xs (Some (root t))" by (rule tree_frame(2) [OF l(1)]) (use j(4) r(1) in \<open>auto simp del: root_addrs simp: disjoint_iff\<close>)
  have y1: "list_at ?h1 a (final xs) (t # ys) None" by (rule tree_frame(2) [OF l(2)], simp only: put_simps_dom) (use j(5) r(1) in \<open>metis disjoint_iff\<close>)
  have n1: "nodes ?h1 a = Some n" using n(1) j(1) r(1) by (auto simp del: root_addrs)
  have dx: "distinct (a # addrs_list xs)" using j(2,8) by simp
  obtain h2 where h2: "link_next (Some a) (final xs) (Some (root u)) ?h1 = Inr h2" "list_at h2 a None xs (Some (root u))"
      "nodes h2 a = Some (n\<lparr>n_first := if xs = [] then Some (root u) else n_first n\<rparr>)"
      "\<And>b. b \<notin> set (a # addrs_list xs) \<Longrightarrow> nodes h2 b = nodes ?h1 b" "top h2 = top ?h1" "info h2 = info ?h1"
    using link_next_step [OF x1 dx n1] by blast
  have u2: "tree_at h2 (Some a) (final xs) (Some (root t)) u"
    by (rule tree_frame(1) [OF u1], rule h2(4)) (use j in \<open>unfold list.set, blast\<close>)
  have y2: "list_at h2 a (final xs) (t # ys) None"
    by (rule tree_frame(2) [OF y1], rule h2(4)) (use j in \<open>unfold list.set, blast\<close>)
  obtain b2 where b2: "nodes h2 (root t) = Some b2" using list_head [OF y2] by auto
  let ?h3 = "set_prev (head (t # ys)) (Some (root u)) h2"
  have o3: "nodes ?h3 x = nodes h2 x" if "x \<notin> set (addrs_list (t # ys))" for x
    by (rule set_other) (use that r(2) in \<open>metis head_simps(2) option.inject\<close>)
  have "list_at ?h3 a (Some (root u)) (t # ys) None" by (rule list_set_prev [OF y2 j(9)])
  moreover have "tree_at ?h3 (Some a) (final xs) (Some (root t)) u" by (rule tree_frame(1) [OF u2], rule o3) (use j in blast)
  moreover have "list_at ?h3 a None xs (Some (root u))" by (rule tree_frame(2) [OF h2(2)], rule o3) (use j in blast)
  moreover have "nodes ?h3 a = Some (n\<lparr>n_first := if xs = [] then Some (root u) else n_first n\<rparr>)"
    using h2(3) o3 [OF j(3)] by simp
  ultimately have "tree_at ?h3 par pv nx (DT a (xs @ u # t # ys))" using n by (auto simp: list_at_append)
  moreover have "outside (DT a (xs @ u # t # ys)) h ?h3"
    using h2(4,5) o3 r by (auto simp: outside_def simp del: root_addrs)
  moreover have "info ?h3 = info h2" by (rule info_set) (use b2 in simp)
  then have "info ?h3 = info h" using h2(6) m by (auto simp: fun_eq_iff info_at)
  ultimately show thesis
    using that [OF b upd_node_at [OF m] n1 n(5) h2(1)] b2 by (simp add: upd_set)
qed

lemma insert_after_links:
  assumes at: "tree_at h par pv nx (DT a (xs @ t # ys))" and u: "tree_at h None None None u"
    and d: "distinct (addrs (DT a ((xs @ [t]) @ u # ys)))"
  obtains b h1 n h2 h3 where "nodes h (root t) = Some b" "n_parent b = Some a" "n_next b = head ys"
    "upd_node (Some (root u)) (\<lambda>n. n\<lparr>n_parent := Some a, n_prev := Some (root t), n_next := head ys\<rparr>) h = Inr h1"
    "nodes h1 a = Some n" "n_last n = final (xs @ t # ys)" "link_prev (Some a) (head ys) (Some (root u)) h1 = Inr h2"
    "upd_node (Some (root t)) (\<lambda>n. n\<lparr>n_next := Some (root u)\<rparr>) h2 = Inr h3"
    "tree_at h3 par pv nx (DT a (xs @ t # u # ys))" "outside (DT a (xs @ t # u # ys)) h h3" "info h3 = info h"
proof -
  let ?xs = "xs @ [t]"
  obtain n where n: "nodes h a = Some n" "n_parent n = par" "n_prev n = pv" "n_next n = nx"
      "n_first n = head (xs @ t # ys)" "n_last n = final (xs @ t # ys)"
    and l: "list_at h a None ?xs (head ys)" "list_at h a (Some (root t)) ys None"
    using at by (auto simp: list_at_append)
  have j: "a \<notin> set (addrs u)" "a \<notin> set (addrs_list ?xs)" "a \<notin> set (addrs_list ys)"
      "set (addrs_list ?xs) \<inter> set (addrs u) = {}" "set (addrs_list ys) \<inter> set (addrs u) = {}"
      "set (addrs_list ?xs) \<inter> set (addrs_list ys) = {}" "distinct (addrs u)" "distinct (addrs_list ?xs)" "distinct (addrs_list ys)"
    using disjoint_addrs [OF d] by blast+
  obtain b where b: "nodes h (root t) = Some b" "n_parent b = Some a" "n_next b = head ys"
    using list_final [OF l(1)] by auto
  obtain m where m: "nodes h (root u) = Some m" using tree_root [OF u] by blast
  let ?m = "m\<lparr>n_parent := Some a, n_prev := Some (root t), n_next := head ys\<rparr>"
  let ?h1 = "put_node (root u) ?m h"
  have r: "root u \<in> set (addrs u)" "root t \<in> set (addrs_list ?xs)" by simp_all
  have u1: "tree_at ?h1 (Some a) (Some (root t)) (head ys) u" using tree_put_root [OF u j(7) m, of ?m] by simp
  have x1: "list_at ?h1 a None ?xs (head ys)" by (rule tree_frame(2) [OF l(1)], simp only: put_simps_dom) (use j(4) r(1) in \<open>metis disjoint_iff\<close>)
  have y1: "list_at ?h1 a (Some (root t)) ys None" by (rule tree_frame(2) [OF l(2)], simp only: put_simps_dom) (use j(5) r(1) in \<open>metis disjoint_iff\<close>)
  have n1: "nodes ?h1 a = Some n" using n(1) j(1) r(1) by (auto simp del: root_addrs)
  have dy: "distinct (a # addrs_list ys)" using j(3,9) by simp
  obtain h2 where h2: "link_prev (Some a) (head ys) (Some (root u)) ?h1 = Inr h2" "list_at h2 a (Some (root u)) ys None"
      "nodes h2 a = Some (n\<lparr>n_last := if ys = [] then Some (root u) else n_last n\<rparr>)"
      "\<And>b. b \<notin> set (a # addrs_list ys) \<Longrightarrow> nodes h2 b = nodes ?h1 b" "top h2 = top ?h1" "info h2 = info ?h1"
    using link_prev_step [OF y1 dy n1] by blast
  have u2: "tree_at h2 (Some a) (Some (root t)) (head ys) u"
    by (rule tree_frame(1) [OF u1], rule h2(4)) (use j in \<open>unfold list.set, blast\<close>)
  have x2: "list_at h2 a None ?xs (head ys)"
    by (rule tree_frame(2) [OF x1], rule h2(4)) (use j in \<open>unfold list.set, blast\<close>)
  obtain b2 where b2: "nodes h2 (root t) = Some b2" using list_final [OF x2] by auto
  let ?h3 = "set_next (final ?xs) (Some (root u)) h2"
  have o3: "nodes ?h3 x = nodes h2 x" if "x \<notin> set (addrs_list ?xs)" for x
    by (rule set_other) (use that r(2) in \<open>metis final_simps(2) option.inject\<close>)
  have "list_at ?h3 a None ?xs (Some (root u))" by (rule list_set_next [OF x2 j(8)])
  moreover have "tree_at ?h3 (Some a) (Some (root t)) (head ys) u" by (rule tree_frame(1) [OF u2], rule o3) (use j in blast)
  moreover have "list_at ?h3 a (Some (root u)) ys None" by (rule tree_frame(2) [OF h2(2)], rule o3) (use j in blast)
  moreover have "nodes ?h3 a = Some (n\<lparr>n_last := if ys = [] then Some (root u) else n_last n\<rparr>)"
    using h2(3) o3 [OF j(2)] by simp
  ultimately have "tree_at ?h3 par pv nx (DT a (xs @ t # u # ys))" using n by (auto simp: list_at_append)
  moreover have "outside (DT a (xs @ t # u # ys)) h ?h3"
    using h2(4,5) o3 r by (auto simp: outside_def simp del: root_addrs)
  moreover have "info ?h3 = info h2" by (rule info_set) (use b2 in simp)
  then have "info ?h3 = info h" using h2(6) m by (auto simp: fun_eq_iff info_at)
  ultimately show thesis
    using that [OF b upd_node_at [OF m] n1 n(6)] h2(1) b2 by (simp add: upd_set)
qed

lemma replace_links:
  assumes at: "tree_at h par pv nx (DT a (xs @ t # ys))" and u: "tree_at h None None None u"
    and d: "distinct (addrs (DT a (xs @ t # ys)))" "distinct (addrs (DT a (xs @ u # ys)))" "set (addrs t) \<inter> set (addrs u) = {}"
  obtains b h1 h2 h3 h4 where "nodes h (root t) = Some b" "n_parent b = Some a" "n_prev b = final xs" "n_next b = head ys"
    "upd_node (Some (root u)) (\<lambda>n. n\<lparr>n_next := head ys, n_prev := final xs\<rparr>) h = Inr h1"
    "link_prev (Some a) (head ys) (Some (root u)) h1 = Inr h2" "link_next (Some a) (final xs) (Some (root u)) h2 = Inr h3"
    "delete_node (root t) h3 = Some (Inr (free_all (set (addrs t)) h3))"
    "upd_node (Some (root u)) (\<lambda>n. n\<lparr>n_parent := Some a\<rparr>) (free_all (set (addrs t)) h3) = Inr h4"
    "tree_at h4 par pv nx (DT a (xs @ u # ys))" "\<And>b. b \<in> set (addrs t) \<Longrightarrow> nodes h4 b = None"
    "\<And>b. b \<notin> set (addrs (DT a (xs @ t # ys))) \<Longrightarrow> b \<notin> set (addrs u) \<Longrightarrow> nodes h4 b = nodes h b"
    "\<And>b. b \<notin> set (addrs t) \<Longrightarrow> info h4 b = info h b" "top h4 = top h"
proof -
  obtain n where n: "nodes h a = Some n" "n_parent n = par" "n_prev n = pv" "n_next n = nx"
      "n_first n = head (xs @ t # ys)" "n_last n = final (xs @ t # ys)"
    and l: "list_at h a None xs (Some (root t))" "tree_at h (Some a) (final xs) (head ys) t" "list_at h a (Some (root t)) ys None"
    using at by (auto simp: list_middle)
  have i: "a \<notin> set (addrs t)" "set (addrs_list xs) \<inter> set (addrs t) = {}" "set (addrs_list ys) \<inter> set (addrs t) = {}" "distinct (addrs t)"
    using disjoint_addrs [OF d(1)] by blast+
  have j: "a \<notin> set (addrs u)" "a \<notin> set (addrs_list xs)" "a \<notin> set (addrs_list ys)"
      "set (addrs_list xs) \<inter> set (addrs u) = {}" "set (addrs_list ys) \<inter> set (addrs u) = {}"
      "set (addrs_list xs) \<inter> set (addrs_list ys) = {}" "distinct (addrs u)" "distinct (addrs_list xs)" "distinct (addrs_list ys)"
    using disjoint_addrs [OF d(2)] by blast+
  obtain b where b: "nodes h (root t) = Some b" "n_parent b = Some a" "n_prev b = final xs" "n_next b = head ys"
    using tree_root [OF l(2)] by blast
  obtain m where m: "nodes h (root u) = Some m" "n_first m = head (kids u)" "n_last m = final (kids u)" using tree_root [OF u] by blast
  let ?m = "m\<lparr>n_next := head ys, n_prev := final xs\<rparr>"
  let ?h1 = "put_node (root u) ?m h"
  have r: "root u \<in> set (addrs u)" "root t \<in> set (addrs t)" by simp_all
  have u1: "tree_at ?h1 None (final xs) (head ys) u" using tree_put_root [OF u j(7) m(1), of ?m] tree_root [OF u] m(1) by simp
  have f1: "nodes ?h1 x = nodes h x" if "x \<notin> set (addrs u)" for x using that r(1) by auto
  have x1: "list_at ?h1 a None xs (Some (root t))" by (rule tree_frame(2) [OF l(1)], rule f1) (use j in blast)
  have t1: "tree_at ?h1 (Some a) (final xs) (head ys) t" by (rule tree_frame(1) [OF l(2)], rule f1) (use d(3) in blast)
  have y1: "list_at ?h1 a (Some (root t)) ys None" by (rule tree_frame(2) [OF l(3)], rule f1) (use j in blast)
  have n1: "nodes ?h1 a = Some n" using n(1) f1 [OF j(1)] by simp
  have dy: "distinct (a # addrs_list ys)" and dx: "distinct (a # addrs_list xs)" using j by simp_all
  obtain h2 where h2: "link_prev (Some a) (head ys) (Some (root u)) ?h1 = Inr h2" "list_at h2 a (Some (root u)) ys None"
      "nodes h2 a = Some (n\<lparr>n_last := if ys = [] then Some (root u) else n_last n\<rparr>)"
      "\<And>b. b \<notin> set (a # addrs_list ys) \<Longrightarrow> nodes h2 b = nodes ?h1 b" "top h2 = top ?h1" "info h2 = info ?h1"
    using link_prev_step [OF y1 dy n1] by blast
  obtain n2 where n2: "nodes h2 a = Some n2" "n2 = n\<lparr>n_last := if ys = [] then Some (root u) else n_last n\<rparr>" using h2(3) by blast
  have x2: "list_at h2 a None xs (Some (root t))" by (rule tree_frame(2) [OF x1], rule h2(4)) (use j in \<open>unfold list.set, blast\<close>)
  obtain h3 where h3: "link_next (Some a) (final xs) (Some (root u)) h2 = Inr h3" "list_at h3 a None xs (Some (root u))"
      "nodes h3 a = Some (n2\<lparr>n_first := if xs = [] then Some (root u) else n_first n2\<rparr>)"
      "\<And>b. b \<notin> set (a # addrs_list xs) \<Longrightarrow> nodes h3 b = nodes h2 b" "top h3 = top h2" "info h3 = info h2"
    using link_next_step [OF x2 dx n2(1)] by blast
  have f3: "nodes h3 x = nodes ?h1 x" if "x \<notin> set (a # addrs_list xs)" "x \<notin> set (a # addrs_list ys)" for x
    using h3(4) [OF that(1)] h2(4) [OF that(2)] by simp
  have t3: "tree_at h3 (Some a) (final xs) (head ys) t"
    by (rule tree_frame(1) [OF t1], rule f3) (use i in \<open>unfold list.set, blast+\<close>)
  have u3: "tree_at h3 None (final xs) (head ys) u"
    by (rule tree_frame(1) [OF u1], rule f3) (use j in \<open>unfold list.set, blast+\<close>)
  have y3: "list_at h3 a (Some (root u)) ys None" by (rule tree_frame(2) [OF h2(2)], rule h3(4)) (use j in \<open>unfold list.set, blast\<close>)
  have "root u \<notin> set (a # addrs_list xs)" "root u \<notin> set (a # addrs_list ys)" using j r(1) unfolding list.set by blast+
  then have m3: "nodes h3 (root u) = Some ?m" using f3 [of "root u"] by simp
  let ?h = "free_all (set (addrs t)) h3"
  let ?h4 = "put_node (root u) (?m\<lparr>n_parent := Some a\<rparr>) ?h"
  have f4: "nodes ?h4 x = nodes h3 x" if "x \<notin> set (addrs t)" "x \<notin> set (addrs u)" for x using that r(1) by auto
  have m4: "nodes ?h (root u) = Some ?m" using m3 d(3) r(1) by auto
  have "tree_at ?h None (final xs) (head ys) u" by (rule tree_frame(1) [OF u3]) (use d(3) in auto)
  then have "tree_at ?h4 (Some a) (final xs) (head ys) u"
    using tree_put_root [of ?h None "final xs" "head ys" u, OF _ j(7) m4, of "?m\<lparr>n_parent := Some a\<rparr>"] by simp
  moreover have "list_at ?h4 a None xs (Some (root u))" by (rule tree_frame(2) [OF h3(2)], rule f4) (use i j in blast)+
  moreover have "list_at ?h4 a (Some (root u)) ys None" by (rule tree_frame(2) [OF y3], rule f4) (use i j in blast)+
  moreover have "nodes ?h4 a = Some (n2\<lparr>n_first := if xs = [] then Some (root u) else n_first n2\<rparr>)"
    using h3(3) f4 [OF i(1) j(1)] by simp
  ultimately have T: "tree_at ?h4 par pv nx (DT a (xs @ u # ys))" using n n2(2) by (auto simp: list_middle)
  have N: "nodes ?h4 x = None" if "x \<in> set (addrs t)" for x using that d(3) r(1) by auto
  have O: "nodes ?h4 x = nodes h x" if "x \<notin> set (addrs (DT a (xs @ t # ys)))" "x \<notin> set (addrs u)" for x
    using f4 [of x] f3 [of x] f1 [of x] that by auto
  have I: "info ?h4 x = info h x" if "x \<notin> set (addrs t)" for x
    using that h3(6) h2(6) m(1) by (simp add: info_at)
  have U: "upd_node (Some (root u)) (\<lambda>n. n\<lparr>n_parent := Some a\<rparr>) ?h = Inr ?h4" by (rule upd_node_at [OF m4])
  show thesis
    by (rule that [OF b upd_node_at [OF m(1)] h2(1) h3(1) delete_node_tree [OF t3 i(4)] U T N O I])
      (use h2(5) h3(5) in simp_all)
qed

text \<open>After the copy of \<open>s\<close> the document is as it was and the copy is outside of it.\<close>

lemma clone_outside:
  assumes T: "inside h T a ts" and s: "tree_at h ps ls rs s" "copyable h s" and f: "fresh h"
    and ty: "nodes h (root s) = Some m" "n_type m \<noteq> TINYXML_DOCUMENT"
  obtains h1 u where "Clone (Some (root s)) h = Some (Inr (root u, h1))" "inside h1 T a ts" "tree_at h1 None None None u"
    "distinct (addrs u)" "set (addrs T) \<inter> set (addrs u) = {}" "view h1 u = copy_view (view h s)" "set (addrs T) \<subseteq> {..<top h}"
    "\<And>b. b < top h \<Longrightarrow> nodes h1 b = nodes h b" "set (addrs u) \<subseteq> {top h..}"
    "\<And>n. nodes h1 (root u) = Some n \<Longrightarrow> n_type n \<noteq> TINYXML_DOCUMENT" "is_document (Some (root s)) h = Inr False"
proof -
  obtain h1 ws where C: "Clone (Some (root s)) h = Some (Inr (top h, h1))" "clone_of h s h1 (DT (top h) ws)"
    using clone_tree [OF s f] by blast
  let ?u = "DT (top h) ws"
  have w: "tree_at h1 None None None ?u" "set (addrs ?u) \<subseteq> {top h..<top h1}" "distinct (addrs ?u)"
      "view h1 ?u = copy_view (view h s)" "\<And>x. x < top h \<Longrightarrow> nodes h1 x = nodes h x"
    using C(2) unfolding grown_def by blast+
  have T': "tree_at h None None None T" using T by (simp add: inside_def)
  have b: "set (addrs T) \<subseteq> {..<top h}" by (rule tree_below(1) [OF f T'])
  have "tree_at h1 None None None T" by (rule tree_frame(1) [OF T'], rule w(5)) (use b in auto)
  then have "inside h1 T a ts" using T by (simp add: inside_def)
  moreover have "set (addrs T) \<inter> set (addrs ?u) = {}" using b w(2) by (meson atLeastLessThan_iff disjoint_iff lessThan_iff not_le subsetD)
  moreover have "info h1 (top h) = Some (copied m)"
    using w(1,4) info_at [OF ty(1)] by (cases s) (auto simp: info_def)
  then have "n_type n \<noteq> TINYXML_DOCUMENT" if "nodes h1 (root ?u) = Some n" for n
    using ty(2) that bare_simps(7) [of n] by (auto simp: info_def simp del: bare_simps)
  moreover have "set (addrs ?u) \<subseteq> {top h..}" using w(2) by (meson atLeastLessThan_iff atLeast_iff subset_iff)
  ultimately show thesis
    using that [of ?u h1] C(1) w b ty by (auto simp: is_document_def node_at_def simp del: tree_at.simps addrs.simps view.simps)
qed

text \<open>A copy \<open>u\<close> of \<open>s\<close> has been put into the document, which is otherwise as it was.\<close>

definition put_copy :: "dom \<Rightarrow> dtree \<Rightarrow> dom \<Rightarrow> dtree \<Rightarrow> bool" where
  "put_copy h s h' u \<longleftrightarrow> view h' u = copy_view (view h s) \<and> set (addrs u) \<subseteq> {top h..} \<and> distinct (addrs u)
     \<and> (\<forall>b < top h. info h' b = info h b)"

lemma put_copyI:
  assumes "view h1 u = copy_view (view h s)" "set (addrs u) \<subseteq> {top h..}" "distinct (addrs u)" "\<And>b. b < top h \<Longrightarrow> nodes h1 b = nodes h b"
    and "\<And>b. b < top h \<or> b \<in> set (addrs u) \<Longrightarrow> info h' b = info h1 b"
  shows "put_copy h s h' u"
proof -
  have "view h' u = view h1 u" by (rule view_cong) (use assms(5) in simp)
  then show ?thesis using assms by (auto simp: put_copy_def info_def)
qed

lemma insert_end_inside:
  assumes T: "inside h T a ts" and s: "tree_at h ps ls rs s" "copyable h s" and f: "fresh h"
    and ty: "nodes h (root s) = Some m" "n_type m \<noteq> TINYXML_DOCUMENT"
  shows "\<exists>h' u. InsertEndChild (Some a) (Some (root s)) h = Some (Inr (Some (root u), h'))
    \<and> tree_at h' None None None (plug a (ts @ [u]) T) \<and> put_copy h s h' u"
proof -
  obtain h1 u where c: "Clone (Some (root s)) h = Some (Inr (root u, h1))" "inside h1 T a ts" "tree_at h1 None None None u"
    "distinct (addrs u)" "set (addrs T) \<inter> set (addrs u) = {}" "view h1 u = copy_view (view h s)"
    "\<And>b. b < top h \<Longrightarrow> nodes h1 b = nodes h b" "set (addrs u) \<subseteq> {top h..}"
    "\<And>n. nodes h1 (root u) = Some n \<Longrightarrow> n_type n \<noteq> TINYXML_DOCUMENT" "is_document (Some (root s)) h = Inr False"
    using clone_outside [OF T s f ty] by metis
  obtain n where n: "nodes h1 (root u) = Some n" using tree_root [OF c(3)] by blast
  obtain h' where h': "LinkEndChild (Some a) (Some (root u)) h1 = Some (Inr (Some (root u), h'))"
      "tree_at h' None None None (plug a (ts @ [u]) T)" "info h' = info h1"
    using link_inside [OF c(2,3,4,5) n c(9) [OF n]] by blast
  have "put_copy h s h' u" by (rule put_copyI [OF c(6,8,4,7)]) (simp_all add: h'(3))
  then show ?thesis using c(1,10) h'(1,2) by (auto simp: InsertEndChild_def)
qed

lemma insert_before_inside:
  assumes T: "inside h T a (xs @ t # ys)" and s: "tree_at h ps ls rs s" "copyable h s" and f: "fresh h"
    and ty: "nodes h (root s) = Some m" "n_type m \<noteq> TINYXML_DOCUMENT"
  shows "\<exists>h' u. InsertBeforeChild (Some a) (Some (root t)) (Some (root s)) h = Some (Inr (Some (root u), h'))
    \<and> tree_at h' None None None (plug a (xs @ u # t # ys) T) \<and> put_copy h s h' u"
proof -
  let ?ts = "xs @ t # ys"
  obtain h1 u where c: "Clone (Some (root s)) h = Some (Inr (root u, h1))" "inside h1 T a ?ts" "tree_at h1 None None None u"
    "distinct (addrs u)" "set (addrs T) \<inter> set (addrs u) = {}" "view h1 u = copy_view (view h s)" "set (addrs T) \<subseteq> {..<top h}"
    "\<And>b. b < top h \<Longrightarrow> nodes h1 b = nodes h b" "set (addrs u) \<subseteq> {top h..}" "is_document (Some (root s)) h = Inr False"
    using clone_outside [OF T s f ty] by metis
  obtain p l r where q: "tree_at h1 p l r (DT a ?ts)" "distinct (addrs (DT a ?ts))" "set (addrs (DT a ?ts)) \<subseteq> set (addrs T)"
    "\<And>h' us. tree_at h' p l r (DT a us) \<Longrightarrow> (\<And>b. b \<in> set (addrs T) \<Longrightarrow> b \<notin> set (addrs (DT a ?ts)) \<Longrightarrow> nodes h' b = nodes h1 b)
      \<Longrightarrow> tree_at h' None None None (plug a us T)"
    using inside_place [OF c(2)] by metis
  have e: "set (addrs (DT a (xs @ u # t # ys))) = set (addrs (DT a ?ts)) \<union> set (addrs u)" by auto
  have "set (addrs (DT a ?ts)) \<inter> set (addrs u) = {}" using q(3) c(5) by blast
  then have d: "distinct (addrs (DT a (xs @ u # t # ys)))" using q(2) c(4) by auto
  obtain b h2 n h3 h4 where k: "nodes h1 (root t) = Some b" "n_parent b = Some a" "n_prev b = final xs"
    "upd_node (Some (root u)) (\<lambda>n. n\<lparr>n_parent := Some a, n_next := Some (root t), n_prev := final xs\<rparr>) h1 = Inr h2"
    "nodes h2 a = Some n" "n_first n = head (xs @ t # ys)" "link_next (Some a) (final xs) (Some (root u)) h2 = Inr h3"
    "upd_node (Some (root t)) (\<lambda>n. n\<lparr>n_prev := Some (root u)\<rparr>) h3 = Inr h4"
    "tree_at h4 p l r (DT a (xs @ u # t # ys))" "outside (DT a (xs @ u # t # ys)) h1 h4" "info h4 = info h1"
    using insert_before_links [OF q(1) c(3) d] by metis
  have "tree_at h4 None None None (plug a (xs @ u # t # ys) T)"
    by (rule q(4) [OF k(9)], rule outside_inside [OF k(10)]) (use c(5) e in blast)
  moreover have "put_copy h s h4 u" by (rule put_copyI [OF c(6,9,4,8)]) (simp_all add: k(11))
  moreover have "nodes h (root t) = Some b"
  proof -
    have "root t \<in> set (addrs (DT a ?ts))" by simp
    then show ?thesis using q(3) c(7,8) k(1) by (metis lessThan_iff subsetD)
  qed
  then have "InsertBeforeChild (Some a) (Some (root t)) (Some (root s)) h = Some (Inr (Some (root u), h4))"
    using c(1,10) k(1-8) by (auto simp: InsertBeforeChild_def node_at_def)
  ultimately show ?thesis by blast
qed

lemma insert_after_inside:
  assumes T: "inside h T a (xs @ t # ys)" and s: "tree_at h ps ls rs s" "copyable h s" and f: "fresh h"
    and ty: "nodes h (root s) = Some m" "n_type m \<noteq> TINYXML_DOCUMENT"
  shows "\<exists>h' u. InsertAfterChild (Some a) (Some (root t)) (Some (root s)) h = Some (Inr (Some (root u), h'))
    \<and> tree_at h' None None None (plug a (xs @ t # u # ys) T) \<and> put_copy h s h' u"
proof -
  let ?ts = "xs @ t # ys"
  obtain h1 u where c: "Clone (Some (root s)) h = Some (Inr (root u, h1))" "inside h1 T a ?ts" "tree_at h1 None None None u"
    "distinct (addrs u)" "set (addrs T) \<inter> set (addrs u) = {}" "view h1 u = copy_view (view h s)" "set (addrs T) \<subseteq> {..<top h}"
    "\<And>b. b < top h \<Longrightarrow> nodes h1 b = nodes h b" "set (addrs u) \<subseteq> {top h..}" "is_document (Some (root s)) h = Inr False"
    using clone_outside [OF T s f ty] by metis
  obtain p l r where q: "tree_at h1 p l r (DT a ?ts)" "distinct (addrs (DT a ?ts))" "set (addrs (DT a ?ts)) \<subseteq> set (addrs T)"
    "\<And>h' us. tree_at h' p l r (DT a us) \<Longrightarrow> (\<And>b. b \<in> set (addrs T) \<Longrightarrow> b \<notin> set (addrs (DT a ?ts)) \<Longrightarrow> nodes h' b = nodes h1 b)
      \<Longrightarrow> tree_at h' None None None (plug a us T)"
    using inside_place [OF c(2)] by metis
  have e: "set (addrs (DT a (xs @ t # u # ys))) = set (addrs (DT a ?ts)) \<union> set (addrs u)" by auto
  have "set (addrs (DT a ?ts)) \<inter> set (addrs u) = {}" using q(3) c(5) by blast
  then have d: "distinct (addrs (DT a ((xs @ [t]) @ u # ys)))" using q(2) c(4) by auto
  obtain b h2 n h3 h4 where k: "nodes h1 (root t) = Some b" "n_parent b = Some a" "n_next b = head ys"
    "upd_node (Some (root u)) (\<lambda>n. n\<lparr>n_parent := Some a, n_prev := Some (root t), n_next := head ys\<rparr>) h1 = Inr h2"
    "nodes h2 a = Some n" "n_last n = final (xs @ t # ys)" "link_prev (Some a) (head ys) (Some (root u)) h2 = Inr h3"
    "upd_node (Some (root t)) (\<lambda>n. n\<lparr>n_next := Some (root u)\<rparr>) h3 = Inr h4"
    "tree_at h4 p l r (DT a (xs @ t # u # ys))" "outside (DT a (xs @ t # u # ys)) h1 h4" "info h4 = info h1"
    using insert_after_links [OF q(1) c(3) d] by metis
  have "tree_at h4 None None None (plug a (xs @ t # u # ys) T)"
    by (rule q(4) [OF k(9)], rule outside_inside [OF k(10)]) (use c(5) e in blast)
  moreover have "put_copy h s h4 u" by (rule put_copyI [OF c(6,9,4,8)]) (simp_all add: k(11))
  moreover have "nodes h (root t) = Some b"
  proof -
    have "root t \<in> set (addrs (DT a ?ts))" by simp
    then show ?thesis using q(3) c(7,8) k(1) by (metis lessThan_iff subsetD)
  qed
  then have "InsertAfterChild (Some a) (Some (root t)) (Some (root s)) h = Some (Inr (Some (root u), h4))"
    using c(1,10) k(1-8) by (auto simp: InsertAfterChild_def node_at_def split: if_splits)
  ultimately show ?thesis by blast
qed

lemma replace_inside:
  assumes T: "inside h T a (xs @ t # ys)" and s: "tree_at h ps ls rs s" "copyable h s" and f: "fresh h"
    and ty: "nodes h (root s) = Some m" "n_type m \<noteq> TINYXML_DOCUMENT"
  shows "\<exists>h' u. ReplaceChild (Some a) (Some (root t)) (Some (root s)) h = Some (Inr (Some (root u), h'))
    \<and> tree_at h' None None None (plug a (xs @ u # ys) T) \<and> view h' u = copy_view (view h s)
    \<and> set (addrs u) \<subseteq> {top h..} \<and> distinct (addrs u)
    \<and> (\<forall>b \<in> set (addrs t). nodes h' b = None) \<and> (\<forall>b < top h. b \<notin> set (addrs t) \<longrightarrow> info h' b = info h b)"
proof -
  let ?ts = "xs @ t # ys"
  obtain h1 u where c: "Clone (Some (root s)) h = Some (Inr (root u, h1))" "inside h1 T a ?ts" "tree_at h1 None None None u"
    "distinct (addrs u)" "set (addrs T) \<inter> set (addrs u) = {}" "view h1 u = copy_view (view h s)" "set (addrs T) \<subseteq> {..<top h}"
    "\<And>b. b < top h \<Longrightarrow> nodes h1 b = nodes h b" "set (addrs u) \<subseteq> {top h..}" "is_document (Some (root s)) h = Inr False"
    using clone_outside [OF T s f ty] by metis
  obtain p l r where q: "tree_at h1 p l r (DT a ?ts)" "distinct (addrs (DT a ?ts))" "set (addrs (DT a ?ts)) \<subseteq> set (addrs T)"
    "\<And>h' us. tree_at h' p l r (DT a us) \<Longrightarrow> (\<And>b. b \<in> set (addrs T) \<Longrightarrow> b \<notin> set (addrs (DT a ?ts)) \<Longrightarrow> nodes h' b = nodes h1 b)
      \<Longrightarrow> tree_at h' None None None (plug a us T)"
    using inside_place [OF c(2)] by metis
  have st: "set (addrs (DT a ?ts)) \<inter> set (addrs u) = {}" using q(3) c(5) by blast
  then have d: "distinct (addrs (DT a (xs @ u # ys)))" "set (addrs t) \<inter> set (addrs u) = {}" using q(2) c(4) by auto
  obtain b h2 h3 h4 h5 where k: "nodes h1 (root t) = Some b" "n_parent b = Some a" "n_prev b = final xs" "n_next b = head ys"
    "upd_node (Some (root u)) (\<lambda>n. n\<lparr>n_next := head ys, n_prev := final xs\<rparr>) h1 = Inr h2"
    "link_prev (Some a) (head ys) (Some (root u)) h2 = Inr h3" "link_next (Some a) (final xs) (Some (root u)) h3 = Inr h4"
    "delete_node (root t) h4 = Some (Inr (free_all (set (addrs t)) h4))"
    "upd_node (Some (root u)) (\<lambda>n. n\<lparr>n_parent := Some a\<rparr>) (free_all (set (addrs t)) h4) = Inr h5"
    "tree_at h5 p l r (DT a (xs @ u # ys))" "\<And>b. b \<in> set (addrs t) \<Longrightarrow> nodes h5 b = None"
    "\<And>b. b \<notin> set (addrs (DT a ?ts)) \<Longrightarrow> b \<notin> set (addrs u) \<Longrightarrow> nodes h5 b = nodes h1 b"
    "\<And>b. b \<notin> set (addrs t) \<Longrightarrow> info h5 b = info h1 b"
    using replace_links [OF q(1) c(3) q(2) d] by metis
  have "tree_at h5 None None None (plug a (xs @ u # ys) T)"
    by (rule q(4) [OF k(10)], rule k(12)) (use c(5) in blast)+
  moreover have "view h5 u = view h1 u" by (rule view_cong, rule k(13)) (use d(2) in blast)
  moreover have "nodes h (root t) = Some b"
  proof -
    have "root t \<in> set (addrs (DT a ?ts))" by simp
    then show ?thesis using q(3) c(7,8) k(1) by (metis lessThan_iff subsetD)
  qed
  then have "ReplaceChild (Some a) (Some (root t)) (Some (root s)) h = Some (Inr (Some (root u), h5))"
    using c(1,10) k(1-9) by (auto simp: ReplaceChild_def node_at_def)
  moreover have "info h5 x = info h x" if "x < top h" "x \<notin> set (addrs t)" for x
    using k(13) [OF that(2)] c(8) [OF that(1)] by (simp add: info_def)
  ultimately show ?thesis using c(4,6,9) k(11) by auto
qed

section \<open>The members that insert\<close>

text \<open>C3:
  InsertEndChild, InsertBeforeChild, InsertAfterChild and ReplaceChild put a copy of a tree into a document, in new
  nodes, at the end, before, after or in the place of a child. The copy has the same structure and the
  same contents node by node, as copy_view says; the tree may be part of the same document. The other
  nodes hold what they held; the replaced child is released with all of its nodes.\<close>

theorem insert_child_copies:
  assumes "inside h T a (xs @ t # ys)" and "tree_at h ps ls rs s" "copyable h s" "fresh h"
    and "nodes h (root s) = Some m" "n_type m \<noteq> TINYXML_DOCUMENT"
  shows "(\<exists>h' u. InsertEndChild (Some a) (Some (root s)) h = Some (Inr (Some (root u), h'))
      \<and> tree_at h' None None None (plug a (xs @ t # ys @ [u]) T) \<and> put_copy h s h' u)
    \<and> (\<exists>h' u. InsertBeforeChild (Some a) (Some (root t)) (Some (root s)) h = Some (Inr (Some (root u), h'))
      \<and> tree_at h' None None None (plug a (xs @ u # t # ys) T) \<and> put_copy h s h' u)
    \<and> (\<exists>h' u. InsertAfterChild (Some a) (Some (root t)) (Some (root s)) h = Some (Inr (Some (root u), h'))
      \<and> tree_at h' None None None (plug a (xs @ t # u # ys) T) \<and> put_copy h s h' u)
    \<and> (\<exists>h' u. ReplaceChild (Some a) (Some (root t)) (Some (root s)) h = Some (Inr (Some (root u), h'))
      \<and> tree_at h' None None None (plug a (xs @ u # ys) T) \<and> view h' u = copy_view (view h s)
      \<and> set (addrs u) \<subseteq> {top h..} \<and> distinct (addrs u)
      \<and> (\<forall>b \<in> set (addrs t). nodes h' b = None) \<and> (\<forall>b < top h. b \<notin> set (addrs t) \<longrightarrow> info h' b = info h b))"
  using insert_end_inside [OF assms] insert_before_inside [OF assms] insert_after_inside [OF assms] replace_inside [OF assms]
  by simp

theorem insert_child_copies_witness:
  "\<exists>h' u. InsertBeforeChild (Some 0) (Some 3) (Some 4) demo = Some (Inr (Some (root u), h'))
    \<and> tree_at h' None None None (DT 0 [DT 1 [DT 2 []], u, DT 3 []])
    \<and> view h' u = VN (copied (demo_node TINYXML_ELEMENT ''c'' None None None None None))
        [VN (copied (demo_node TINYXML_COMMENT ''d'' None None None None None)) []]"
proof -
  have c: "copyable demo (DT 4 [DT 5 []])" "fresh demo"
    by (auto simp: copyable_def may_copy_def node_ok_def fresh_def demo_def demo_node_def names_def)
  have n: "nodes demo (root (DT 4 [DT 5 []])) = Some (demo_node TINYXML_ELEMENT ''c'' None (Some 5) (Some 5) None None)"
      "n_type (demo_node TINYXML_ELEMENT ''c'' None (Some 5) (Some 5) None None) \<noteq> TINYXML_DOCUMENT"
    by (simp_all add: demo_nodes)
  obtain h' u where "InsertBeforeChild (Some 0) (Some (root (DT 3 []))) (Some (root (DT 4 [DT 5 []]))) demo = Some (Inr (Some (root u), h'))"
      "tree_at h' None None None (plug 0 ([DT 1 [DT 2 []]] @ u # DT 3 [] # []) (DT 0 [DT 1 [DT 2 []], DT 3 []]))"
      "put_copy demo (DT 4 [DT 5 []]) h' u"
    using insert_child_copies [OF demo_trees(1,2) c n] by blast
  moreover have "view demo (DT 4 [DT 5 []]) = VN (demo_node TINYXML_ELEMENT ''c'' None None None None None)
      [VN (demo_node TINYXML_COMMENT ''d'' None None None None None) []]"
    by (simp add: info_def demo_def demo_node_def bare_def)
  ultimately show ?thesis
    by (intro exI [of _ h'] exI [of _ u]) (simp add: put_copy_def with_children_def demo_nodes del: tree_at.simps)
qed

end
