(* ===== verification/XmlWf.thy ===== *)
theory XmlWf
  imports XmlParse
begin

text \<open>
  The form of the trees that the parser of XmlParse builds, whatever the text and also when it reports an
  error: names, attributes and the places of text nodes.
\<close>

definition is_name :: "string \<Rightarrow> bool" where
  "is_name s \<longleftrightarrow> s \<noteq> [] \<and> name_start (hd s) \<and> list_all name_char s"

definition plain_text :: "xnode \<Rightarrow> bool" where
  "plain_text n \<longleftrightarrow> (case n of XText _ _ c \<Rightarrow> \<not> c | _ \<Rightarrow> False)"

text \<open>An element whose name could not be read has an empty one, and no attributes or children.\<close>

fun node_wf :: "xnode \<Rightarrow> bool" where
  "node_wf (XElement _ name as ks) \<longleftrightarrow> (is_name name \<or> name = [] \<and> as = [] \<and> ks = [])
     \<and> distinct (map aname as) \<and> (\<forall>a \<in> set as. is_name (aname a))
     \<and> (\<forall>k \<in> set ks. node_wf k \<and> (plain_text k \<longrightarrow> \<not> Blank k))"
| "node_wf _ \<longleftrightarrow> True"

text \<open>The node, or list of nodes, that an operation of the parser hands back; what the attribute operations hand back.\<close>

definition made :: "('n \<Rightarrow> bool) \<Rightarrow> 'n parsed \<Rightarrow> bool" where
  "made P r \<longleftrightarrow> (\<forall>x q d. r = Inr (x, q, d) \<longrightarrow> P x)"

definition attr_made :: "(xattr \<Rightarrow> bool) \<Rightarrow> xattr parsed \<Rightarrow> bool" where
  "attr_made P r \<longleftrightarrow> (\<forall>x q d. r = Inr (x, q, d) \<longrightarrow> q \<noteq> None \<longrightarrow> P x)"

lemma made_simps [simp]:
  "made P (Inl e)" "made P (Inr (x, q, d)) \<longleftrightarrow> P x" "attr_made Q (Inl e)" "attr_made Q (Inr (a, q, d)) \<longleftrightarrow> (q \<noteq> None \<longrightarrow> Q a)"
  by (simp_all add: made_def attr_made_def)

lemma made_bind: "(\<And>y. made P (f y)) \<Longrightarrow> made P (bindr m f)"
  by (cases m) simp_all

lemma attr_made_bind: "(\<And>y. attr_made Q (g y)) \<Longrightarrow> attr_made Q (bindr m g)"
  by (cases m) simp_all

lemma made_then: "made Q m \<Longrightarrow> (\<And>x q d. Q x \<Longrightarrow> made P (f (x, q, d))) \<Longrightarrow> made P (bindr m f)"
  by (cases m) auto

lemma made_if: "(c \<Longrightarrow> made P r) \<Longrightarrow> (\<not> c \<Longrightarrow> made P r') \<Longrightarrow> made P (if c then r else r')"
  "(c \<Longrightarrow> attr_made Q s) \<Longrightarrow> (\<not> c \<Longrightarrow> attr_made Q s') \<Longrightarrow> attr_made Q (if c then s else s')"
  by auto

lemma made_failed: "P x \<Longrightarrow> made P (failed err p enc x d)"
  unfolding failed_def by (rule made_bind) simp

lemma attr_made_failed: "attr_made Q (failed err p enc a d)"
  unfolding failed_def by (rule attr_made_bind) simp

lemma made_option:
  "made P a \<Longrightarrow> (\<And>s. x = Some s \<Longrightarrow> made P (f s)) \<Longrightarrow> made P (case x of None \<Rightarrow> a | Some s \<Rightarrow> f s)"
  "attr_made Q b \<Longrightarrow> (\<And>s. x = Some s \<Longrightarrow> attr_made Q (g s)) \<Longrightarrow> attr_made Q (case x of None \<Rightarrow> b | Some s \<Rightarrow> g s)"
  by (auto split: option.split)

lemma made_list:
  "made P a \<Longrightarrow> (\<And>c r. xs = c # r \<Longrightarrow> made P (f c r)) \<Longrightarrow> made P (case xs of [] \<Rightarrow> a | c # r \<Rightarrow> f c r)"
  "attr_made Q b \<Longrightarrow> (\<And>c r. xs = c # r \<Longrightarrow> attr_made Q (g c r)) \<Longrightarrow> attr_made Q (case xs of [] \<Rightarrow> b | c # r \<Rightarrow> g c r)"
  by (auto split: list.split)

lemma made_prod: "(\<And>v w. made P (f v w)) \<Longrightarrow> made P (case z of (v, w) \<Rightarrow> f v w)"
  "(\<And>v w. attr_made Q (g v w)) \<Longrightarrow> attr_made Q (case z of (v, w) \<Rightarrow> g v w)"
  by (auto split: prod.split)

lemmas made_cases = made_if made_failed attr_made_failed made_option made_list made_prod

lemmas made_intros = made_bind attr_made_bind made_cases

lemma ReadName_name: "ReadName p = Inr (name, q) \<Longrightarrow> (q \<noteq> None \<longrightarrow> is_name name) \<and> (q = None \<longrightarrow> name = [])"
proof -
  have "name_start c \<Longrightarrow> name_char c" for c
    by (auto simp: name_start_def name_char_def IsAlpha_def IsAlphaNum_def c_isalnum_def)
  moreover have "list_all name_char (takeWhile name_char s)" for s
    by (auto simp: list_all_iff dest: set_takeWhileD)
  ultimately show "ReadName p = Inr (name, q) \<Longrightarrow> (q \<noteq> None \<longrightarrow> is_name name) \<and> (q = None \<longrightarrow> name = [])"
    by (auto simp: ReadName_def is_name_def split: option.splits list.splits if_splits)
qed

lemma Attribute_value_name: "P a \<Longrightarrow> (\<And>v. P (a\<lparr>avalue := v\<rparr>)) \<Longrightarrow> attr_made P (Attribute_value condense True enc p a d)"
  unfolding Attribute_value_def attr_failed_def Let_def
  by (auto intro!: made_intros)

lemma Attribute_name: "attr_made (\<lambda>a. is_name (aname a)) (Attribute_Parse condense True enc p d)"
proof -
  have r: "attr_made P (bindr (ReadName t) f)" if "\<And>name q. (q \<noteq> None \<longrightarrow> is_name name) \<Longrightarrow> attr_made P (f (name, q))" for t P and f :: "_ \<Rightarrow> xattr parsed"
    using that ReadName_name [of t] by (cases "ReadName t") auto
  show ?thesis
    unfolding Attribute_Parse_def attr_failed_def Let_def
    by (auto intro!: r attr_made_bind [of _ _ "stamp_at e q d" for e q d] made_cases Attribute_value_name)
qed

section \<open>Nodes\<close>

text \<open>What a node of a kind may be: a text only as a CDATA section.\<close>

definition node_made :: "xnode \<Rightarrow> bool" where
  "node_made n \<longleftrightarrow> node_wf n \<and> \<not> plain_text n"

lemma node_made_simps [simp]: "node_made (XComment loc v)" "node_made (XUnknown loc v)" "node_made (XDeclaration loc ver en sta)"
  "node_made (XText loc v c) \<longleftrightarrow> c" "node_made (XElement loc name as ks) \<longleftrightarrow> node_wf (XElement loc name as ks)"
  by (simp_all add: node_made_def plain_text_def)

lemma leaf_made:
  "made node_made (Unknown_Parse enc p d)" "made node_made (Comment_Parse enc p d)" "made node_made (Declaration_Parse n condense enc p d)"
proof -
  have l: "made node_made (decl_loop n condense enc loc ver en sta p d)" for loc ver en sta p d n
    by (induction n condense enc loc ver en sta p d rule: decl_loop.induct)
      (auto intro!: made_intros)
  show "made node_made (Declaration_Parse n condense enc p d)"
    unfolding Declaration_Parse_def Let_def by (auto intro!: made_intros l)
  show "made node_made (Unknown_Parse enc p d)"
    unfolding Unknown_Parse_def Let_def by (auto intro!: made_intros)
  show "made node_made (Comment_Parse enc p d)"
    unfolding Comment_Parse_def by (auto intro!: made_intros)
qed

lemma Text_made:
  "made node_wf (Text_Parse condense enc cdata p d)" "made node_made (Text_Parse condense enc True p d)"
  unfolding Text_Parse_def by (auto intro!: made_intros)

lemma Node_made:
  "(\<And>p d. made node_made (element p d)) \<Longrightarrow> made node_made (Node_Parse element n condense enc k p d)"
  by (cases k) (simp_all add: Node_Parse_def leaf_made Text_made)

lemma end_tag_made: "P e \<Longrightarrow> made P (end_tag enc name e q d)"
  unfolding end_tag_def by (auto intro!: made_intros)

section \<open>Elements\<close>

definition children_made :: "xnode list \<Rightarrow> bool" where
  "children_made ks \<longleftrightarrow> (\<forall>k \<in> set ks. node_wf k \<and> (plain_text k \<longrightarrow> \<not> Blank k))"

definition attrs_made :: "xattr list \<Rightarrow> bool" where
  "attrs_made as \<longleftrightarrow> distinct (map aname as) \<and> (\<forall>a \<in> set as. is_name (aname a))"

lemma made_Nil [simp]: "children_made []" "attrs_made []"
  by (simp_all add: children_made_def attrs_made_def)

lemma made_snoc: "children_made ks \<Longrightarrow> node_wf k \<Longrightarrow> \<not> plain_text k \<or> \<not> Blank k \<Longrightarrow> children_made (ks @ [k])"
  "attrs_made as \<Longrightarrow> is_name (aname a) \<Longrightarrow> aname a \<notin> aname ` set as \<Longrightarrow> attrs_made (as @ [a])"
  by (auto simp: children_made_def attrs_made_def)

lemma element_step_made:
  assumes a: "\<And>loc name s d. is_name name \<Longrightarrow> made node_made (attributes loc name [] s d)"
  shows "made node_made (element_step attributes enc p d)"
proof -
  have "made node_made (bindr (ReadName pErr) (\<lambda>(name, p). if p = None \<or> p = Some []
      then failed err pErr enc (XElement loc name [] []) d else attributes loc name [] (the p) d))" for pErr err loc d
    using ReadName_name [of pErr] a by (cases "ReadName pErr") (auto intro!: made_intros)
  then show ?thesis
    unfolding element_step_def Let_def
    by (auto split: option.split list.split intro!: made_bind [of _ _ "stamp_at e q d" for e q d] made_if made_failed)
qed

lemma attr_step_made:
  assumes "is_name name" "attrs_made as"
    and a: "\<And>as s d. attrs_made as \<Longrightarrow> made node_made (attributes as s d)"
    and v: "\<And>p d. made children_made (read_value p d)"
  shows "made node_made (attr_step attributes read_value condense enc loc name as p d)"
proof -
  have e: "node_made (XElement loc name as ks)" if "children_made ks" for ks
    using assms(1,2) that by (auto simp: children_made_def attrs_made_def)
  have 1: "made node_made (bindr (read_value p d) (\<lambda>(ks, q, d). end_tag enc name (XElement loc name as ks) q d))" for p d
    by (rule made_then [OF v]) (simp only: prod.case, rule end_tag_made, erule e)
  have 2: "made node_made (bindr (Attribute_Parse condense True enc p d) (\<lambda>(a, q, d).
      if q = None \<or> q = Some [] \<or> aname a \<in> aname ` set as then failed err p' enc (XElement loc name as []) d
      else attributes (as @ [a]) (the q) d))" for p d err p'
  proof (cases "Attribute_Parse condense True enc p d")
    case (Inr r)
    obtain b q d' where r: "r = (b, q, d')" by (cases r)
    have "q \<noteq> None \<longrightarrow> is_name (aname b)" using Attribute_name [of condense enc p d] Inr r by simp
    then show ?thesis using Inr r e [of "[]"] a [OF made_snoc(2) [OF assms(2)]] by (auto intro!: made_intros)
  qed simp
  show ?thesis
    using e [of "[]"] 1 2 unfolding attr_step_def Let_def
    by (auto split: option.split list.split intro!: made_if made_failed simp del: node_made_simps)
qed

lemma value_step_made:
  assumes e: "\<And>p d. made node_made (element p d)" and v: "\<And>ks q d. children_made ks \<Longrightarrow> made children_made (read_value ks q d)"
    and ks: "children_made ks"
  shows "made children_made (value_step element read_value n condense enc ks p d)"
proof -
  have 1: "made children_made (bindr (Text_Parse condense enc False s d) (\<lambda>(t, q, d). read_value (if Blank t then ks else ks @ [t]) q d))" for s d
    by (rule made_then [OF Text_made(1)]) (use v ks made_snoc(1) [OF ks] in auto)
  have 2: "made children_made (bindr (Node_Parse element n condense enc k s d) (\<lambda>(node, q, d). read_value (ks @ [node]) q d))" for k s d
    by (rule made_then [OF Node_made [OF e]]) (use v made_snoc(1) [OF ks] in \<open>auto simp: node_made_def\<close>)
  show ?thesis
    using ks 1 2 unfolding value_step_def
    by (auto split: option.split list.split intro!: made_if made_bind [of _ _ "StringEqual s t c e" for s t c e]
        made_bind [of _ _ "Identify s e" for s e] made_bind [of _ _ "SetError er s e d" for er s e d])
qed

lemma element_made:
  "made node_made (Element_Parse n condense enc p d)
   \<and> (is_name name \<longrightarrow> attrs_made as \<longrightarrow> made node_made (attr_loop n condense enc loc name as s d))
   \<and> (children_made ks \<longrightarrow> made children_made (ReadValue n condense enc ks p d))"
proof (induction n arbitrary: p s d loc name as ks)
  case (Suc n)
  then have IH: "made node_made (Element_Parse n condense enc p d)"
    "is_name name \<Longrightarrow> attrs_made as \<Longrightarrow> made node_made (attr_loop n condense enc loc name as s d)"
    "children_made ks \<Longrightarrow> made children_made (ReadValue n condense enc ks p d)"
    for p s d loc name as ks by blast+
  have "made node_made (Element_Parse (Suc n) condense enc p d)"
    unfolding Element_Parse.simps by (rule element_step_made, rule IH(2)) simp_all
  moreover have "is_name name \<longrightarrow> attrs_made as \<longrightarrow> made node_made (attr_loop (Suc n) condense enc loc name as s d)"
    unfolding attr_loop.simps using IH(2,3) by (intro impI attr_step_made) simp_all
  moreover have "children_made ks \<longrightarrow> made children_made (ReadValue (Suc n) condense enc ks p d)"
    unfolding ReadValue.simps by (intro impI value_step_made IH(1,3))
  ultimately show ?case by blast
qed simp

definition top_made :: "xnode list \<Rightarrow> bool" where
  "top_made ks \<longleftrightarrow> (\<forall>k \<in> set ks. node_made k)"

lemma doc_loop_made:
  "top_made ks \<Longrightarrow> doc_loop n condense enc ks p d = Inr (ks', q, enc', d') \<Longrightarrow> top_made ks'"
proof (induction n arbitrary: enc ks p d)
  case (Suc n)
  have e: "made node_made (Node_Parse (Element_Parse n condense enc) n condense enc k s d)" for k s
    by (rule Node_made) (use element_made in blast)
  have "top_made (ks @ [node])" if "Node_Parse (Element_Parse n condense enc) n condense enc k s d = Inr (node, q, d')" for k s node q d'
    using e [of k s] that Suc.prems(1) by (auto simp: made_def top_made_def)
  then show ?case using Suc.prems Suc.IH
    by (auto simp: bindr_eq_Inr split: if_splits option.splits; blast)
qed simp

lemma parsed_nodes_wf:
  assumes "Document_Parse condense [] p prev enc d = Inr (ns, q, d')" "n \<in> set ns"
  shows "node_wf n \<and> \<not> plain_text n"
proof -
  have "made top_made (bindr (doc_loop m condense enc [] p d) (\<lambda>(children, p, enc, d).
      if children = [] then failed TIXML_ERROR_DOCUMENT_EMPTY None enc [] d else Inr (children, p, d)))" for m enc p d
    by (cases "doc_loop m condense enc [] p d") (auto simp: top_made_def intro!: made_intros dest: doc_loop_made [unfolded top_made_def, rotated])
  moreover have "top_made []" by (simp add: top_made_def)
  ultimately have "made top_made (Document_Parse condense [] p prev enc d)"
    unfolding Document_Parse_def Let_def
    by (auto split: option.split list.split intro!: made_failed)
  then show ?thesis using assms by (auto simp: made_def top_made_def node_made_def)
qed

text \<open>C10:
  Whatever the text and the errors in it, the nodes the parser hands back are well formed: every element that has
  attributes or children has a name, names start with a letter or underscore and go on with name
  characters, the attributes of an element have names and no two have the same, no child of an element is a text of
  white space, and the document itself has no text among its nodes but CDATA sections.\<close>

theorem parsed_nodes_well_formed:
  assumes "Document_Parse condense [] p prev enc d = Inr (ns, q, d')" "n \<in> set ns"
  shows "node_wf n \<and> \<not> plain_text n"
  by (rule parsed_nodes_wf [OF assms])

theorem parsed_nodes_well_formed_witness:
  "\<exists>ns q d n. Document_Parse True [] (Some ''<a b=\"c\"/>'') None TIXML_ENCODING_LEGACY new_document = Inr (ns, q, d)
    \<and> n \<in> set ns \<and> node_wf n"
proof -
  let ?r = "Document_Parse True [] (Some ''<a b=\"c\"/>'') None TIXML_ENCODING_LEGACY new_document"
  let ?e = "XElement \<lparr>row = 0, col = 0\<rparr> ''a'' [\<lparr>aname = ''b'', avalue = ''c'', alocation = \<lparr>row = 0, col = 3\<rparr>\<rparr>] []"
  have "map_sum id fst ?r = Inr [?e]" by code_simp
  then obtain q d where "?r = Inr ([?e], q, d)" by (cases ?r) auto
  with parsed_nodes_well_formed [OF this, of ?e] show ?thesis by auto
qed

end
