(* ===== verification/DomBuild.thy ===== *)
theory DomBuild
  imports DomCopy XmlWf
begin

text \<open>
  How the parser puts the nodes that it makes into a document (\<open>tinyxmlparser.cpp\<close> 754-763, 892-897, 1187-1232):
  \<open>Identify\<close> gives a new node its parent, so that it can report errors, the node parses itself with
  everything inside of it, and then the parent links it behind its other children. XmlParse
  has the trees that come about; here they are laid out on the heap of XmlDom.
\<close>

section \<open>The nodes of a tree\<close>

text \<open>What a node holds, without its links, once its \<open>Parse\<close> member has returned.\<close>

fun parsed_node :: "xnode \<Rightarrow> dnode" where
  "parsed_node (XElement loc name as ks) = (new_dnode TINYXML_ELEMENT)\<lparr>n_value := name, n_attrs := as, n_location := loc\<rparr>"
| "parsed_node (XComment loc v) = (new_dnode TINYXML_COMMENT)\<lparr>n_value := v, n_location := loc\<rparr>"
| "parsed_node (XUnknown loc v) = (new_dnode TINYXML_UNKNOWN)\<lparr>n_value := v, n_location := loc\<rparr>"
| "parsed_node (XText loc v c) = (new_dnode TINYXML_TEXT)\<lparr>n_value := v, n_cdata := c, n_location := loc\<rparr>"
| "parsed_node (XDeclaration loc ver en sta) = (new_dnode TINYXML_DECLARATION)\<lparr>n_decl := (ver, en, sta), n_location := loc\<rparr>"

text \<open>The children of a node that was read.\<close>

fun inner :: "xnode \<Rightarrow> xnode list" where
  "inner (XElement loc name as ks) = ks"
| "inner _ = []"

lemma inner_size [termination_simp]: "size_list size (inner k) < Suc (size k + n)"
  by (cases k) simp_all

fun parsed_view :: "xnode \<Rightarrow> vtree" where
  "parsed_view (XElement loc name as ks) = VN (parsed_node (XElement loc name as ks)) (map parsed_view ks)"
| "parsed_view k = VN (parsed_node k) []"

lemma parsed_view_inner: "parsed_view k = VN (parsed_node k) (map parsed_view (inner k))"
  by (cases k) simp_all

text \<open>A node that \<open>Identify\<close> made has its parent set; the text nodes of \<open>ReadValue\<close> have not.\<close>

definition made_in :: "nat \<Rightarrow> xnode \<Rightarrow> dnode" where
  "made_in b k = (parsed_node k)\<lparr>n_parent := if plain_text k then None else Some b\<rparr>"

fun link_children :: "xnode list \<Rightarrow> nat \<Rightarrow> dom \<Rightarrow> dom res option" where
  "link_children [] b h = Some (Inr h)"
| "link_children (k # ks) b h = (case new_node (made_in b k) h of (c, h) \<Rightarrow>
     bindo (link_children (inner k) c h) (\<lambda>h. bindo (LinkEndChild (Some b) (Some c) h) (\<lambda>(_, h). link_children ks b h)))"

section \<open>The tree is laid out\<close>

lemma parsed_node_simps [simp]: "n_type (parsed_node k) \<noteq> TINYXML_DOCUMENT" "bare (parsed_node k) = parsed_node k"
  "n_first (parsed_node k) = None" "n_last (parsed_node k) = None" "n_prev (parsed_node k) = None" "n_next (parsed_node k) = None"
  by (cases k; simp add: new_dnode_def bare_def)+

lemma made_in_simps [simp]: "n_type (made_in b k) = n_type (parsed_node k)" "bare (made_in b k) = parsed_node k"
  "n_first (made_in b k) = None" "n_last (made_in b k) = None" "n_prev (made_in b k) = None" "n_next (made_in b k) = None"
  "n_parent (made_in b k) = (if plain_text k then None else Some b)"
  by (simp_all add: made_in_def)

lemma new_node_fresh:
  assumes "fresh h" "new_node n h = (c, h1)"
  shows "c = top h" "top h1 = Suc (top h)" "nodes h1 c = Some n" "fresh h1" "keeps_parents h h1"
    "\<And>x. x \<noteq> c \<Longrightarrow> nodes h1 x = nodes h x"
  using assms unfolding fresh_def by (auto simp: new_node_def put_node_def keeps_parents_def)

lemma appended_grown:
  assumes h1: "\<And>x. x \<noteq> top h \<Longrightarrow> nodes h1 x = nodes h x" "nodes h1 (top h) = Some n" "top h1 = Suc (top h)"
    and a: "appended (par, None, None) h1 (top h) [] Vs h2 ws"
  shows "grown par h (VN (bare n) Vs) h2 (DT (top h) ws)"
proof -
  have q: "tree_at h2 par None None (DT (top h) ws)" "map (view h2) ws = Vs" "\<And>x. x < Suc (top h) \<Longrightarrow> info h2 x = info h1 x"
      "\<And>x. x < top h \<Longrightarrow> nodes h2 x = nodes h x" "Suc (top h) \<le> top h2" "set (addrs_list ws) \<subseteq> {Suc (top h)..<top h2}"
      "distinct (addrs_list ws)" "fresh h2"
    using a h1 by (auto simp: appended_def)
  have "set (addrs (DT (top h) ws)) \<subseteq> {top h..<top h2}" "distinct (addrs (DT (top h) ws))"
    using q(5-7) unfolding addrs.simps list.set distinct.simps by auto
  moreover have "view h2 (DT (top h) ws) = VN (bare n) Vs"
    using q(2) q(3) [of "top h"] h1(2) by (simp add: info_at)
  ultimately show ?thesis
    using q by (simp add: grown_def del: tree_at.simps addrs.simps view.simps)
qed

lemma link_children_tree:
  assumes "tree_at h par l r (DT b us)" "distinct (addrs (DT b us))" "fresh h" "up h b e"
  shows "\<exists>h' vs. link_children ks b h = Some (Inr h') \<and> appended (par, l, r) h b us (map parsed_view ks) h' vs"
  using assms
proof (induction ks b h arbitrary: par l r us e rule: link_children.induct)
  case (1 b h)
  then show ?case by (auto simp: appended_def)
next
  case (2 k ks b h)
  let ?pr = "if plain_text k then None else Some b"
  obtain c h1 where n: "new_node (made_in b k) h = (c, h1)" by (cases "new_node (made_in b k) h")
  note f = new_node_fresh [OF "2.prems"(3) n]
  have c1: "tree_at h1 ?pr None None (DT c [])" "distinct (addrs (DT c []))" using f(3) by auto
  obtain e1 where e1: "up h1 c e1"
    using up_none [OF f(3)] up_parent [OF f(3) _ _ up_keeps [OF "2.prems"(4) f(5)]] by (cases "plain_text k") auto
  obtain h2 ws where w: "link_children (inner k) c h1 = Some (Inr h2)" "appended (?pr, None, None) h1 c [] (map parsed_view (inner k)) h2 ws"
    using "2.IH"(1) [OF n [symmetric] c1 f(4) e1] by blast
  have g: "grown ?pr h (VN (parsed_node k) (map parsed_view (inner k))) h2 (DT c ws)"
    using appended_grown [of h h1 "made_in b k" ?pr] w(2) f(2,3,6) unfolding f(1) by simp
  obtain h3 where h3: "LinkEndChild (Some b) (Some c) h2 = Some (Inr (Some c, h3))"
      "tree_at h3 par l r (DT b (us @ [DT c ws]))" "distinct (addrs (DT b (us @ [DT c ws])))" "fresh h3"
      "outside (DT b (us @ [DT c ws])) h2 h3" "info h3 = info h2" "up h3 b e"
    using link_grown [OF "2.prems"(1,2,4,3) g] parsed_node_simps(1) by (metis dtree.sel(1))
  obtain h' vs where q: "link_children ks b h3 = Some (Inr h')" "appended (par, l, r) h3 b (us @ [DT c ws]) (map parsed_view ks) h' vs"
    using "2.IH"(2) [OF n [symmetric] w(1) refl h3(1) refl refl h3(2-4,7)] by blast
  have "appended (par, l, r) h b us (map parsed_view (k # ks)) h' (DT c ws # vs)"
    unfolding list.map parsed_view_inner [of k] by (rule appended_step [OF g h3(6,5) q(2)])
  then show ?case using n w(1) h3(1) q(1) by auto
qed

section \<open>Parsed documents\<close>

text \<open>A name of the grammar holds no terminator, so the copy of an attribute keeps the whole of it.\<close>

lemma is_name_cstr: "is_name s \<Longrightarrow> cstr s = s" "is_name s \<Longrightarrow> s \<noteq> []"
proof -
  have "\<not> name_char (CHR 0x00)" by code_simp
  then show "is_name s \<Longrightarrow> cstr s = s"
    unfolding is_name_def cstr_def by (auto simp: takeWhile_eq_all_conv list_all_iff)
qed (simp add: is_name_def)

lemma well_formed_node_ok:
  assumes "node_wf k"
  shows "node_ok (parsed_node k)"
proof (cases k)
  case (XElement loc name as ks)
  have "names as = map aname as" using assms XElement by (auto simp: names_def is_name_cstr)
  then show ?thesis using assms XElement is_name_cstr(2) by (force simp: node_ok_def)
qed (simp_all add: node_ok_def new_dnode_def)

fun view_nodes :: "vtree \<Rightarrow> dnode list" where
  "view_nodes (VN n vs) = n # concat (map view_nodes vs)"

lemma view_nodes_info: "view_nodes (view h t) = map (\<lambda>b. the (info h b)) (addrs t)"
  by (induction t) (auto simp: map_concat o_def intro!: arg_cong [where f = concat])

lemma parsed_view_ok: "node_wf k \<Longrightarrow> n \<in> set (view_nodes (parsed_view k)) \<Longrightarrow> node_ok n \<and> n_type n \<noteq> TINYXML_DOCUMENT"
proof (induction k rule: parsed_view.induct)
  case (1 loc name as ks)
  show ?case using 1 well_formed_node_ok [OF "1.prems"(1)] parsed_node_simps(1) [of "XElement loc name as ks"]
    by (auto simp del: parsed_node.simps parsed_node_simps)
qed (simp_all add: node_ok_def new_dnode_def)

lemma linked_may_copy:
  assumes "map (view h) vs = map parsed_view ns" "\<And>k. k \<in> set ns \<Longrightarrow> node_wf k"
  shows "may_copy h vs"
  unfolding may_copy_def
proof (intro ballI allI impI)
  fix b n assume b: "b \<in> set (addrs_list vs)" "nodes h b = Some n"
  then obtain t where t: "t \<in> set vs" "b \<in> set (addrs t)" by auto
  then obtain k where k: "k \<in> set ns" "view h t = parsed_view k"
    using assms(1) by (metis (no_types, lifting) imageE image_eqI list.set_map)
  have "bare n \<in> set (view_nodes (view h t))"
    unfolding view_nodes_info using t(2) info_at [OF b(2)] by force
  with parsed_view_ok [OF assms(2) [OF k(1)]] k(2) have "node_ok (bare n) \<and> n_type (bare n) \<noteq> TINYXML_DOCUMENT" by metis
  then show "node_ok n \<and> n_type n \<noteq> TINYXML_DOCUMENT" by (simp add: node_ok_def bare_def)
qed

text \<open>C4:
  Whatever the text, the nodes that the parser makes can be linked the way the parser links them, into a document
  without children: no assertion of LinkEndChild fails, and the heap then holds exactly the trees that the model of
  the parser hands back, in new nodes. The document can be copied as a whole, the copy has the same structure and
  what copy_view says, and deleting the document releases every node of it once.\<close>

theorem parsed_document_linked:
  assumes "Document_Parse condense [] p prev enc d = Inr (ns, q, d')"
    and "tree_at h None None None (DT a [])" "nodes h a = Some n" "n_type n = TINYXML_DOCUMENT" "fresh h"
  shows "\<exists>h' vs h'' w. link_children ns a h = Some (Inr h')
    \<and> tree_at h' None None None (DT a vs) \<and> view h' (DT a vs) = VN (bare n) (map parsed_view ns)
    \<and> set (addrs_list vs) \<subseteq> {top h..<top h'} \<and> distinct (addrs (DT a vs))
    \<and> Clone (Some a) h' = Some (Inr (root w, h'')) \<and> tree_at h'' None None None w
    \<and> view h'' w = copy_view (VN (bare n) (map parsed_view ns))
    \<and> delete_node a h' = Some (Inr (free_all (set (addrs (DT a vs))) h'))"
proof -
  have wf: "node_wf k" if "k \<in> set ns" for k using parsed_nodes_wf [OF assms(1) that] by blast
  have "up h a (Some a)" by (rule up_document [OF assms(3,4)])
  moreover have "distinct (addrs (DT a []))" by simp
  ultimately obtain h' vs where h': "link_children ns a h = Some (Inr h')" "appended (None, None, None) h a [] (map parsed_view ns) h' vs"
    using link_children_tree [OF assms(2) _ assms(5)] by blast
  have lt: "a < top h" using assms(3,5) unfolding fresh_def by (metis not_le option.distinct(1))
  have t: "tree_at h' None None None (DT a vs)" "map (view h') vs = map parsed_view ns" "fresh h'" "distinct (addrs_list vs)"
      "set (addrs_list vs) \<subseteq> {top h..<top h'}" "info h' a = Some (bare n)"
    using h'(2) lt info_at [OF assms(3)] by (auto simp: appended_def)
  have v: "view h' (DT a vs) = VN (bare n) (map parsed_view ns)" using t(2,6) by simp
  have d: "distinct (addrs (DT a vs))" using t(4,5) lt unfolding addrs.simps distinct.simps by (auto simp del: set_concat)
  have "n_type m = TINYXML_DOCUMENT" if "nodes h' a = Some m" for m
    using that t(6) assms(4) by (metis bare_simps(7) info_at option.inject)
  then have "copyable h' (DT a vs)"
    using linked_may_copy [OF t(2)] wf by (auto simp: copyable_def node_ok_def)
  then obtain h'' ws where "Clone (Some a) h' = Some (Inr (top h', h''))" "clone_of h' (DT a vs) h'' (DT (top h') ws)"
    using clone_tree [OF t(1) _ t(3)] by auto
  moreover from this have "tree_at h'' None None None (DT (top h') ws)"
      "view h'' (DT (top h') ws) = copy_view (VN (bare n) (map parsed_view ns))"
    unfolding grown_def v by blast+
  ultimately show ?thesis
    using h'(1) t(1,5) v d delete_node_tree [OF t(1) d] by (metis dtree.sel(1))
qed

definition empty_dom :: dom where
  "empty_dom = \<lparr>nodes = [0 \<mapsto> new_dnode TINYXML_DOCUMENT], top = 1\<rparr>"

theorem parsed_document_linked_witness:
  "\<exists>ns q d h' vs. Document_Parse True [] (Some ''<a b=\"c\"><d/>e</a>'') None TIXML_ENCODING_LEGACY new_document = Inr (ns, q, d)
    \<and> link_children ns 0 empty_dom = Some (Inr h') \<and> tree_at h' None None None (DT 0 vs)
    \<and> map (view h') vs = map parsed_view ns \<and> map inner ns \<noteq> [[]]"
proof -
  let ?r = "Document_Parse True [] (Some ''<a b=\"c\"><d/>e</a>'') None TIXML_ENCODING_LEGACY new_document"
  have "map_sum id (\<lambda>(ns, q, d). map inner ns \<noteq> [[]]) ?r = Inr True" by code_simp
  then obtain ns q d where r: "?r = Inr (ns, q, d)" "map inner ns \<noteq> [[]]" by (cases ?r) auto
  have "tree_at empty_dom None None None (DT 0 [])" "nodes empty_dom 0 = Some (new_dnode TINYXML_DOCUMENT)"
      "n_type (new_dnode TINYXML_DOCUMENT) = TINYXML_DOCUMENT" "fresh empty_dom"
    by (simp_all add: empty_dom_def new_dnode_def fresh_def)
  from parsed_document_linked [OF r(1) this] obtain h' vs where
    "link_children ns 0 empty_dom = Some (Inr h')" "tree_at h' None None None (DT 0 vs)" "map (view h') vs = map parsed_view ns"
    by auto
  with r show ?thesis by blast
qed

end
