(* ===== verification/DomAssign.thy ===== *)
theory DomAssign
  imports DomCopy
begin

text \<open>
  The assignment operators of the nodes (\<open>tinyxml.cpp\<close> 551-574, 946-951, 1296-1301, 1417-1422, \<open>tinyxml.h\<close> 1237, 1361):
  they clear the node they assign to and then copy, whatever the relation between the two nodes is.
\<close>

section \<open>Operators\<close>

text \<open>What the members \<open>CopyTo\<close> copy into the fields of the target; with the children for elements and documents.\<close>

definition copy_fields :: "(dnode \<Rightarrow> dnode \<Rightarrow> dnode res) \<Rightarrow> link \<Rightarrow> link \<Rightarrow> dom \<Rightarrow> dom res option" where
  "copy_fields f base this h = bindo (Some (node_at base h)) (\<lambda>n. bindo (Some (node_at this h)) (\<lambda>t.
     bindo (Some (f n t)) (\<lambda>m. Some (Inr (put_node (the this) m h)))))"

definition copy_onto :: "(dnode \<Rightarrow> dnode \<Rightarrow> dnode res) \<Rightarrow> link \<Rightarrow> link \<Rightarrow> dom \<Rightarrow> dom res option" where
  "copy_onto f base this h = bindo (copy_fields f base this h) (\<lambda>h. bindo (Some (node_at base h)) (\<lambda>n.
     clone_list (n_first n) (the this) h))"

text \<open>The loop that removes the first attribute while there is one.\<close>

fun clear_attributes :: "xattr list \<Rightarrow> xattr list" where
  "clear_attributes [] = []"
| "clear_attributes (a # as) = clear_attributes as"

definition ClearThis :: "link \<Rightarrow> dom \<Rightarrow> dom res option" where
  "ClearThis this h = bindo (Clear this h) (\<lambda>h. Some (upd_node this (\<lambda>n. n\<lparr>n_attrs := clear_attributes (n_attrs n)\<rparr>) h))"

definition Element_assign :: "link \<Rightarrow> link \<Rightarrow> dom \<Rightarrow> dom res option" where
  "Element_assign this base h = bindo (ClearThis this h) (copy_onto Element_CopyTo base this)"

definition Document_assign :: "link \<Rightarrow> link \<Rightarrow> dom \<Rightarrow> dom res option" where
  "Document_assign this base h = bindo (Clear this h) (copy_onto (\<lambda>n t. Inr (Document_CopyTo n t)) base this)"

definition Comment_assign :: "link \<Rightarrow> link \<Rightarrow> dom \<Rightarrow> dom res option" where
  "Comment_assign this base h = bindo (Clear this h) (copy_fields (\<lambda>n t. Inr (Node_CopyTo n t)) base this)"

definition Declaration_assign :: "link \<Rightarrow> link \<Rightarrow> dom \<Rightarrow> dom res option" where
  "Declaration_assign this base h = bindo (Clear this h) (copy_fields (\<lambda>n t. Inr (Declaration_CopyTo n t)) base this)"

definition Text_assign :: "link \<Rightarrow> link \<Rightarrow> dom \<Rightarrow> dom res option" where
  "Text_assign this base h = copy_fields (\<lambda>n t. Inr (Text_CopyTo n t)) base this h"

definition Unknown_assign :: "link \<Rightarrow> link \<Rightarrow> dom \<Rightarrow> dom res option" where
  "Unknown_assign this base h = copy_fields (\<lambda>n t. Inr (Node_CopyTo n t)) base this h"

section \<open>Copying onto a node without children\<close>

lemma clear_attributes_Nil [simp]: "clear_attributes as = []"
  by (induction as) simp_all

lemma copy_onto_tree:
  assumes at: "tree_at h p l r (DT a [])" "up h a e" and f: "fresh h"
    and s: "tree_at h ps ls rs s" "copyable h s" "a \<notin> set (addrs s)"
    and n: "nodes h (root s) = Some n" and m: "nodes h a = Some m" "g n m = Inr m'"
    and m': "n_parent m' = n_parent m" "n_prev m' = n_prev m" "n_next m' = n_next m" "n_type m' = n_type m"
      "n_first m' = n_first m" "n_last m' = n_last m"
  shows "\<exists>h' us. copy_onto g (Some (root s)) (Some a) h = Some (Inr h') \<and> tree_at h' p l r (DT a us)
    \<and> map (view h') us = map (\<lambda>t. copy_view (view h t)) (kids s) \<and> info h' a = Some (bare m')
    \<and> (\<forall>x < top h. x \<noteq> a \<longrightarrow> nodes h' x = nodes h x) \<and> set (addrs_list us) \<subseteq> {top h..}"
proof -
  let ?h = "put_node a m' h"
  have k: "set (addrs_list (kids s)) \<subseteq> set (addrs s)" by (cases s) auto
  have d: "distinct (addrs (DT a []))" "set (addrs (DT a [])) \<inter> set (addrs_list (kids s)) = {}" using s(3) k by auto
  have a1: "tree_at ?h p l r (DT a [])" using at(1) m(1) m' by auto
  have "keeps_parents h ?h" using m(1) m' by (auto simp: keeps_parents_def)
  then have u1: "up ?h a e" by (rule up_keeps [OF at(2)])
  have f1: "fresh ?h" using f m(1) by (auto simp: fresh_def)
  have "tree_at ?h ps ls rs s" by (rule tree_frame(1) [OF s(1)]) (use s(3) in auto)
  then have l1: "list_at ?h (root s) None (kids s) None" by (cases s) auto
  have c1: "may_copy ?h (kids s)" using s(2,3) k by (auto simp: copyable_def may_copy_def)
  have "\<exists>h' vs. clone_list (head (kids s)) a ?h = Some (Inr h') \<and> cloned (p, l, r) ?h a [] (kids s) h' vs"
    by (rule clone_siblings [OF clone_kids l1 c1 f1 a1 u1 d])
  then obtain h' us where h': "clone_list (head (kids s)) a ?h = Some (Inr h')" "cloned (p, l, r) ?h a [] (kids s) h' us" by blast
  have "nodes ?h (root s) = Some n" using n s(3) root_addrs [of s] by (auto simp del: root_addrs)
  moreover have "n_first n = head (kids s)" using tree_root [OF s(1)] n by auto
  ultimately have "copy_onto g (Some (root s)) (Some a) h = Some (Inr h')"
    using h'(1) n m by (simp add: copy_onto_def copy_fields_def node_at_def)
  moreover have "view ?h t = view h t" if "t \<in> set (kids s)" for t
    by (rule view_cong) (use that s(3) k in auto)
  moreover have "a < top h" using m(1) f unfolding fresh_def by (metis not_le option.distinct(1))
  ultimately show ?thesis using h'(2) by (intro exI [of _ h'] exI [of _ us]) (auto simp: appended_def)
qed

text \<open>The element copies its attributes into an empty set.\<close>

lemma Element_CopyTo_empty:
  assumes "node_ok n" "n_type n = TINYXML_ELEMENT" "n_attrs t = []"
  shows "Element_CopyTo n t = Inr (t\<lparr>n_value := n_value (copied n), n_location := n_location n, n_attrs := n_attrs (copied n)\<rparr>)"
  using assms copy_attributes [of "[]" "n_attrs n"] attr_walk_all [of "n_attrs n"]
  by (simp add: Element_CopyTo_def Let_def node_ok_def Node_CopyTo_def copied_def bare_def)

section \<open>Clearing the node that is assigned to\<close>

lemma plug_root: "a \<in> set (addrs T) \<Longrightarrow> a \<in> set (addrs (plug a us T))"
  by (induction T) auto

definition cleared :: "dom \<Rightarrow> dtree \<Rightarrow> nat \<Rightarrow> dtree list \<Rightarrow> dom \<Rightarrow> bool" where
  "cleared h T a ts h1 \<longleftrightarrow> (\<exists>p l r e. tree_at h1 p l r (DT a []) \<and> up h1 a e
       \<and> (\<forall>h' us. tree_at h' p l r (DT a us) \<longrightarrow> (\<forall>x < top h. x \<notin> set (addrs (DT a ts)) \<longrightarrow> nodes h' x = nodes h x)
           \<longrightarrow> tree_at h' None None None (plug a us T)))
     \<and> fresh h1 \<and> top h1 = top h \<and> (\<forall>x \<in> set (addrs_list ts). nodes h1 x = None)
     \<and> (\<forall>x. x \<notin> set (addrs (DT a ts)) \<longrightarrow> nodes h1 x = nodes h x)"

lemma clear_place:
  assumes T: "inside h T a ts" and m: "nodes h a = Some m" and f: "fresh h"
  shows "\<exists>h1. Clear (Some a) h = Some (Inr h1) \<and> nodes h1 a = Some (m\<lparr>n_first := None, n_last := None\<rparr>) \<and> cleared h T a ts h1"
proof -
  have t: "tree_at h None None None T" "a \<in> set (addrs T)" using T subtree_addr by (auto simp: inside_def)
  have lt: "x < top h" if "x \<in> set (addrs T)" for x using tree_below(1) [OF f t(1)] that by blast
  obtain p l r e where s: "tree_at h p l r (DT a ts)" "distinct (addrs (DT a ts))" "set (addrs (DT a ts)) \<subseteq> set (addrs T)"
    "\<And>h' us. tree_at h' p l r (DT a us) \<Longrightarrow> (\<And>b. b \<in> set (addrs T) \<Longrightarrow> b \<notin> set (addrs (DT a ts)) \<Longrightarrow> nodes h' b = nodes h b)
      \<Longrightarrow> tree_at h' None None None (plug a us T)"
    using inside_place [OF T] by metis
  obtain h1 where h1: "Clear (Some a) h = Some (Inr h1)" "tree_at h1 p l r (DT a [])"
      "\<And>b. b \<in> set (addrs_list ts) \<Longrightarrow> nodes h1 b = None" "outside (DT a ts) h h1"
    using clear_tree [OF s(1,2)] by blast
  have h1e: "h1 = put_node a (m\<lparr>n_first := None, n_last := None\<rparr>) (free_all (set (addrs_list ts)) h)"
    using h1(1) m s(1,2) delete_kids [OF s(1,2)] by (auto simp: Clear_def node_at_def upd_node_at)
  have o: "nodes h1 x = nodes h x" if "x \<notin> set (addrs (DT a ts))" for x using outside_inside [OF h1(4) that] .
  have T1: "tree_at h1 None None None (plug a [] T)" by (rule s(4) [OF h1(2)]) (rule o)
  then obtain e1 where e1: "up h1 a e1" using tree_up(1) [OF T1 _ plug_root [OF t(2)]] by blast
  have f1: "fresh h1" using f m unfolding h1e fresh_def by auto
  have "tree_at h' None None None (plug a us T)"
    if "tree_at h' p l r (DT a us)" "\<forall>x < top h. x \<notin> set (addrs (DT a ts)) \<longrightarrow> nodes h' x = nodes h x" for h' us
    by (rule s(4) [OF that(1)]) (use that(2) lt in blast)
  moreover have "top h1 = top h" "nodes h1 a = Some (m\<lparr>n_first := None, n_last := None\<rparr>)" using h1e by simp_all
  ultimately show ?thesis
    unfolding cleared_def using h1(1,2) e1 f1 h1(3) o by blast
qed

text \<open>What an assignment of a tree elsewhere in the heap does, for a node cleared by \<open>clear\<close>.\<close>

definition assigned :: "dom \<Rightarrow> dtree \<Rightarrow> nat \<Rightarrow> dtree list \<Rightarrow> dtree \<Rightarrow> dom \<Rightarrow> bool" where
  "assigned h T a ts s h' \<longleftrightarrow> (\<exists>us. tree_at h' None None None (plug a us T)
     \<and> map (view h') us = map (\<lambda>t. copy_view (view h t)) (kids s) \<and> set (addrs_list us) \<subseteq> {top h..}
     \<and> (\<forall>x \<in> set (addrs_list ts). nodes h' x = None)
     \<and> (\<forall>x < top h. x \<notin> set (addrs (DT a ts)) \<longrightarrow> nodes h' x = nodes h x))"

lemma assign_cleared:
  assumes T: "inside h T a ts" and m: "nodes h a = Some m" and f: "fresh h"
    and s: "tree_at h ps ls rs s" "copyable h s" "set (addrs s) \<inter> set (addrs (DT a ts)) = {}" and n: "nodes h (root s) = Some n"
    and m2: "m2 = m\<lparr>n_first := None, n_last := None, n_attrs := as\<rparr>" and g: "g n m2 = Inr m'"
    and m': "n_parent m' = n_parent m2" "n_prev m' = n_prev m2" "n_next m' = n_next m2" "n_type m' = n_type m2"
      "n_first m' = n_first m2" "n_last m' = n_last m2"
  shows "\<exists>h1 h'. Clear (Some a) h = Some (Inr h1) \<and> nodes h1 a = Some (m\<lparr>n_first := None, n_last := None\<rparr>)
    \<and> copy_onto g (Some (root s)) (Some a) (put_node a m2 h1) = Some (Inr h') \<and> assigned h T a ts s h' \<and> info h' a = Some (bare m')"
proof -
  obtain h1 where cl: "Clear (Some a) h = Some (Inr h1)" "nodes h1 a = Some (m\<lparr>n_first := None, n_last := None\<rparr>)" "cleared h T a ts h1"
    using clear_place [OF T m f] by blast
  from cl(3) obtain p l r e where c: "tree_at h1 p l r (DT a [])" "up h1 a e"
    "\<forall>h' us. tree_at h' p l r (DT a us) \<longrightarrow> (\<forall>x < top h. x \<notin> set (addrs (DT a ts)) \<longrightarrow> nodes h' x = nodes h x)
           \<longrightarrow> tree_at h' None None None (plug a us T)" unfolding cleared_def by blast
  have d: "fresh h1" "top h1 = top h" "\<And>x. x \<in> set (addrs_list ts) \<Longrightarrow> nodes h1 x = None"
      "\<And>x. x \<notin> set (addrs (DT a ts)) \<Longrightarrow> nodes h1 x = nodes h x" using cl(3) unfolding cleared_def by blast+
  let ?h = "put_node a m2 h1"
  have k: "set (addrs_list (kids s)) \<subseteq> set (addrs s)" by (cases s) auto
  have a: "a \<notin> set (addrs s)" using s(3) by auto
  have o: "nodes ?h x = nodes h x" if "x \<in> set (addrs s)" for x
  proof -
    have "x \<notin> set (addrs (DT a ts))" "x \<noteq> a" using that s(3) a by blast+
    then show ?thesis using d(4) by simp
  qed
  have at: "tree_at ?h p l r (DT a [])" using c(1) cl(2) m2 by auto
  have "keeps_parents h1 ?h" using cl(2) m2 by (auto simp: keeps_parents_def)
  then have u: "up ?h a e" by (rule up_keeps [OF c(2)])
  have f2: "fresh ?h" using d(1) cl(2) by (auto simp: fresh_def)
  have s2: "tree_at ?h ps ls rs s" by (rule tree_frame(1) [OF s(1)]) (rule o)
  have cp: "copyable ?h s" using s(2) o k by (auto simp: copyable_def may_copy_def simp del: put_simps_dom)
  have n2: "nodes ?h (root s) = Some n" using o n by (metis root_addrs)
  have m2': "nodes ?h a = Some m2" by simp
  obtain h' us where h': "copy_onto g (Some (root s)) (Some a) ?h = Some (Inr h')" "tree_at h' p l r (DT a us)"
      "map (view h') us = map (\<lambda>t. copy_view (view ?h t)) (kids s)" "info h' a = Some (bare m')"
      "\<And>x. x < top ?h \<Longrightarrow> x \<noteq> a \<Longrightarrow> nodes h' x = nodes ?h x" "set (addrs_list us) \<subseteq> {top ?h..}"
    using copy_onto_tree [where g = g, OF at u f2 s2 cp a n2 m2' g m'] by blast
  have "view ?h t = view h t" if "t \<in> set (kids s)" for t
    by (rule view_cong, unfold info_def, subst o) (use that k in auto)
  then have v: "map (view h') us = map (\<lambda>t. copy_view (view h t)) (kids s)" using h'(3) by simp
  have o': "nodes h' x = nodes h x" if "x < top h" "x \<notin> set (addrs (DT a ts))" for x
    using that h'(5) [of x] d(2,4) by simp
  have "nodes h' x = None" if "x \<in> set (addrs_list ts)" for x
  proof -
    have i: "x \<in> set (addrs (DT a ts))" using that by simp
    have "x < top h" using tree_below(1) [OF f] T subtrees_addrs i unfolding inside_def by blast
    moreover have "x \<noteq> a" using d(3) [OF that] cl(2) by auto
    ultimately show ?thesis using h'(5) d(2) d(3) [OF that] by simp
  qed
  then have "assigned h T a ts s h'"
    unfolding assigned_def using d(2) c(3) h'(2) v h'(6) o' by (intro exI [of _ us]) simp
  then show ?thesis using cl(1,2) h'(1,4) by blast
qed

section \<open>The operators on a document\<close>

lemma put_same: "nodes h a = Some m \<Longrightarrow> put_node a m h = h"
  by (simp add: put_node_def fun_upd_idem)

lemma assign_copied:
  assumes T: "inside h T a ts" and m: "nodes h a = Some m" and f: "fresh h"
    and s: "tree_at h ps ls rs s" "copyable h s" "set (addrs s) \<inter> set (addrs (DT a ts)) = {}" and n: "nodes h (root s) = Some n"
  shows "n_type n = TINYXML_ELEMENT \<Longrightarrow> \<exists>h'. Element_assign (Some a) (Some (root s)) h = Some (Inr h') \<and> assigned h T a ts s h'
      \<and> info h' a = Some ((bare m)\<lparr>n_value := n_value (copied n), n_location := n_location n, n_attrs := n_attrs (copied n)\<rparr>)"
    and "\<exists>h'. Document_assign (Some a) (Some (root s)) h = Some (Inr h') \<and> assigned h T a ts s h'
      \<and> info h' a = Some ((bare m)\<lparr>n_value := n_value (copied n), n_location := n_location n, n_error := n_error n\<rparr>)"
proof -
  note assign = assign_cleared [OF T m f s n refl]
  have ok: "node_ok n" using s(2) n by (simp add: copyable_def)
  show "\<exists>h'. Document_assign (Some a) (Some (root s)) h = Some (Inr h') \<and> assigned h T a ts s h'
      \<and> info h' a = Some ((bare m)\<lparr>n_value := n_value (copied n), n_location := n_location n, n_error := n_error n\<rparr>)"
    using assign [where g = "\<lambda>n t. Inr (Document_CopyTo n t)" and as = "n_attrs m", OF refl]
    by (auto simp: Document_assign_def Document_CopyTo_def Node_CopyTo_def put_same copied_def bare_def)
  assume "n_type n = TINYXML_ELEMENT"
  note e = Element_CopyTo_empty [OF ok this]
  show "\<exists>h'. Element_assign (Some a) (Some (root s)) h = Some (Inr h') \<and> assigned h T a ts s h'
      \<and> info h' a = Some ((bare m)\<lparr>n_value := n_value (copied n), n_location := n_location n, n_attrs := n_attrs (copied n)\<rparr>)"
    using assign [where g = Element_CopyTo and as = "[]", OF e]
    by (auto simp: Element_assign_def ClearThis_def upd_node_at bare_def)
qed

text \<open>The node itself, and a node below it.\<close>

lemma assign_inside:
  assumes T: "inside h T a ts" and m: "nodes h a = Some m" and f: "fresh h"
  shows "\<exists>h'. Element_assign (Some a) (Some a) h = Some (Inr h') \<and> tree_at h' None None None (plug a [] T)
      \<and> info h' a = Some ((bare m)\<lparr>n_value := cstr (n_value m), n_attrs := []\<rparr>)"
    and "\<exists>h'. Document_assign (Some a) (Some a) h = Some (Inr h') \<and> tree_at h' None None None (plug a [] T)
      \<and> info h' a = Some ((bare m)\<lparr>n_value := cstr (n_value m)\<rparr>)"
    and "x \<in> set (addrs_list ts) \<Longrightarrow> Element_assign (Some a) (Some x) h = Some (Inl Use_after_free)
      \<and> Document_assign (Some a) (Some x) h = Some (Inl Use_after_free)"
proof -
  obtain h1 where cl: "Clear (Some a) h = Some (Inr h1)" "nodes h1 a = Some (m\<lparr>n_first := None, n_last := None\<rparr>)" "cleared h T a ts h1"
    using clear_place [OF T m f] by blast
  from cl(3) obtain p l r e where c: "tree_at h1 p l r (DT a [])" "up h1 a e"
    "\<forall>h' us. tree_at h' p l r (DT a us) \<longrightarrow> (\<forall>x < top h. x \<notin> set (addrs (DT a ts)) \<longrightarrow> nodes h' x = nodes h x)
           \<longrightarrow> tree_at h' None None None (plug a us T)" unfolding cleared_def by blast
  have d: "fresh h1" "top h1 = top h" "\<And>x. x \<in> set (addrs_list ts) \<Longrightarrow> nodes h1 x = None"
      "\<And>x. x \<notin> set (addrs (DT a ts)) \<Longrightarrow> nodes h1 x = nodes h x" using cl(3) unfolding cleared_def by blast+
  have t: "tree_at (put_node a m' h1) None None None (plug a [] T)"
    if "n_parent m' = n_parent m" "n_prev m' = n_prev m" "n_next m' = n_next m" "n_first m' = None" "n_last m' = None" for m'
    by (rule c(3) [rule_format]) (use that c(1) cl(2) d(4) in auto)
  have w: "attr_walk [] = []" by (simp add: attr_walk_def)
  note defs = Element_assign_def Document_assign_def ClearThis_def copy_onto_def copy_fields_def node_at_def
  show "\<exists>h'. Element_assign (Some a) (Some a) h = Some (Inr h') \<and> tree_at h' None None None (plug a [] T)
      \<and> info h' a = Some ((bare m)\<lparr>n_value := cstr (n_value m), n_attrs := []\<rparr>)"
    using cl(1,2) t by (simp add: defs upd_node_at put_node_def Element_CopyTo_def Node_CopyTo_def w info_def bare_def)
  show "\<exists>h'. Document_assign (Some a) (Some a) h = Some (Inr h') \<and> tree_at h' None None None (plug a [] T)
      \<and> info h' a = Some ((bare m)\<lparr>n_value := cstr (n_value m)\<rparr>)"
    using cl(1,2) t by (simp add: defs Document_CopyTo_def Node_CopyTo_def info_def bare_def)
  assume x: "x \<in> set (addrs_list ts)"
  have "x \<noteq> a" using T x subtree_addr unfolding inside_def by (metis cl(2) d(3) option.distinct(1))
  then show "Element_assign (Some a) (Some x) h = Some (Inl Use_after_free)
      \<and> Document_assign (Some a) (Some x) h = Some (Inl Use_after_free)"
    using cl(1,2) d(3) [OF x] by (simp add: defs upd_node_at)
qed

text \<open>A tree that can be assigned to the node \<open>a\<close> with the children \<open>ts\<close>, and its first node.\<close>

definition source :: "dom \<Rightarrow> nat \<Rightarrow> dtree list \<Rightarrow> dtree \<Rightarrow> dnode \<Rightarrow> bool" where
  "source h a ts s n \<longleftrightarrow> (\<exists>p l r. tree_at h p l r s) \<and> copyable h s \<and> set (addrs s) \<inter> set (addrs (DT a ts)) = {} \<and> nodes h (root s) = Some n"

text \<open>C11:
  Assigning an element or a document to one that lies elsewhere releases the old children of the target and gives it
  the fields and a copy of the children of the source, in its place in the document. Assigning a node to
  itself instead deletes its children and attributes, and assigning from a node below the target reads
  memory that the operator has just released.\<close>

theorem assignment_of_nodes:
  assumes "inside h T a ts" "nodes h a = Some m" "fresh h"
  shows "(\<forall>s n. source h a ts s n \<longrightarrow>
      (n_type n = TINYXML_ELEMENT \<longrightarrow> (\<exists>h'. Element_assign (Some a) (Some (root s)) h = Some (Inr h') \<and> assigned h T a ts s h'
        \<and> info h' a = Some ((bare m)\<lparr>n_value := n_value (copied n), n_location := n_location n, n_attrs := n_attrs (copied n)\<rparr>)))
      \<and> (\<exists>h'. Document_assign (Some a) (Some (root s)) h = Some (Inr h') \<and> assigned h T a ts s h'
        \<and> info h' a = Some ((bare m)\<lparr>n_value := n_value (copied n), n_location := n_location n, n_error := n_error n\<rparr>)))
    \<and> (\<exists>h'. Element_assign (Some a) (Some a) h = Some (Inr h') \<and> tree_at h' None None None (plug a [] T)
        \<and> info h' a = Some ((bare m)\<lparr>n_value := cstr (n_value m), n_attrs := []\<rparr>))
    \<and> (\<exists>h'. Document_assign (Some a) (Some a) h = Some (Inr h') \<and> tree_at h' None None None (plug a [] T)
        \<and> info h' a = Some ((bare m)\<lparr>n_value := cstr (n_value m)\<rparr>))
    \<and> (\<forall>x \<in> set (addrs_list ts). Element_assign (Some a) (Some x) h = Some (Inl Use_after_free)
        \<and> Document_assign (Some a) (Some x) h = Some (Inl Use_after_free))"
proof -
  note e = assign_copied [OF assms] and i = assign_inside [OF assms]
  show ?thesis
    by (rule conjI, unfold source_def, intro allI impI, elim conjE exE, intro conjI impI, erule (4) e(1), erule (3) e(2))
      (intro conjI ballI i)
qed

theorem assignment_of_nodes_witness:
  "(\<exists>h'. Element_assign (Some 3) (Some 1) demo = Some (Inr h') \<and> assigned demo (DT 0 [DT 1 [DT 2 []], DT 3 []]) 3 [] (DT 1 [DT 2 []]) h')
    \<and> Element_assign (Some 4) (Some 5) demo = Some (Inl Use_after_free)"
proof -
  have i: "inside demo (DT 0 [DT 1 [DT 2 []], DT 3 []]) 3 []" "fresh demo"
      "nodes demo 3 = Some (demo_node TINYXML_ELEMENT ''b'' (Some 0) None None (Some 1) None)"
    by (simp_all add: inside_def fresh_def demo_def demo_node_def)
  let ?n = "demo_node TINYXML_ELEMENT ''a'' (Some 0) (Some 2) (Some 2) None (Some 3)"
  have s: "source demo 3 [] (DT 1 [DT 2 []]) ?n"
    by (auto simp: source_def copyable_def may_copy_def node_ok_def demo_def demo_node_def names_def)
  have "\<exists>h'. Element_assign (Some 3) (Some (root (DT 1 [DT 2 []]))) demo = Some (Inr h')
      \<and> assigned demo (DT 0 [DT 1 [DT 2 []], DT 3 []]) 3 [] (DT 1 [DT 2 []]) h'"
    using assignment_of_nodes [OF i(1,3,2)] s demo_nodes(4) by blast
  moreover have "Element_assign (Some 4) (Some 5) demo = Some (Inl Use_after_free)"
    using assignment_of_nodes [OF demo_trees(4) demo_nodes(3) i(2)] by simp
  ultimately show ?thesis by simp
qed

end
