(* ===== verification/XmlStream.thy ===== *)
theory XmlStream
  imports XmlPrint
begin

text \<open>
  TinyXML on the streams of the C++ library (\<open>tinyxmlparser.cpp\<close> 364-396, 639-702, 901-1041, 1250-1272, 1309-1334,
  1465-1495, 1548-1570, \<open>tinyxml.cpp\<close> 1602-1636), which is compiled with \<open>TIXML_USE_STL\<close>: \<open>StreamIn\<close> of a node
  collects the text of the node in a string, up to its end, and \<open>operator >>\<close> parses that text.
\<close>

section \<open>Streams\<close>

text \<open>
  What is left of the stream and whether its state is still good; the string collected so far; the document that
  errors are reported to. The result -1 is that of the end.
\<close>

record istream =
  in_rest :: string
  in_good :: bool
  s_tag :: string
  s_doc :: xdoc

definition peek :: "istream \<Rightarrow> int \<times> istream" where
  "peek s = (if \<not> in_good s then (-1, s)
     else case in_rest s of [] \<Rightarrow> (-1, s\<lparr>in_good := False\<rparr>) | c # r \<Rightarrow> (int (uchar c), s))"

definition get_char :: "istream \<Rightarrow> int \<times> istream" where
  "get_char s = (if \<not> in_good s then (-1, s)
     else case in_rest s of [] \<Rightarrow> (-1, s\<lparr>in_good := False\<rparr>) | c # r \<Rightarrow> (int (uchar c), s\<lparr>in_rest := r\<rparr>))"

text \<open>\<open>(*tag) += (char) c\<close>\<close>

definition add_char :: "int \<Rightarrow> istream \<Rightarrow> istream" where
  "add_char c s = s\<lparr>s_tag := s_tag s @ [char_of (nat c)]\<rparr>"

definition IsWhiteSpace_int :: "int \<Rightarrow> bool" where
  "IsWhiteSpace_int c = (if c < 256 then IsWhiteSpace (char_of (nat (c mod 256))) else False)"

text \<open>\<open>SetError\<close> without a position, on the document that \<open>GetDocument\<close> finds, if it finds one.\<close>

definition set_error :: "xml_error \<Rightarrow> istream \<Rightarrow> istream res" where
  "set_error err s = bindr (SetError err None TIXML_ENCODING_UNKNOWN (s_doc s)) (\<lambda>d. Inr (s\<lparr>s_doc := d\<rparr>))"

definition embedded_null :: "bool \<Rightarrow> istream \<Rightarrow> istream res" where
  "embedded_null doc s = (if doc then set_error TIXML_ERROR_EMBEDDED_NULL s else Inr s)"

text \<open>A character was read that is neither the end nor a terminator.\<close>

lemma get_char_pos: "get_char s = (c, s') \<Longrightarrow> 0 < c \<Longrightarrow>
    \<exists>x r. in_good s \<and> in_rest s = x # r \<and> s' = s\<lparr>in_rest := r\<rparr> \<and> c = int (uchar x)"
  by (auto simp: get_char_def split: if_splits list.splits)

lemma peek_pos: "peek s = (c, s') \<Longrightarrow> 0 < c \<Longrightarrow>
    \<exists>x r. in_good s \<and> in_rest s = x # r \<and> s' = s \<and> c = int (uchar x)"
  by (auto simp: peek_def split: if_splits list.splits)

lemma get_char_shorter [termination_simp]:
  "(c, s') = get_char s \<Longrightarrow> 0 < c \<Longrightarrow> length (in_rest s') < length (in_rest s)"
  "(c, s') = peek s \<Longrightarrow> 0 < c \<Longrightarrow> (c', s'') = get_char s' \<Longrightarrow> length (in_rest s'') < length (in_rest s)"
  by (auto simp: get_char_def peek_def split: if_splits list.splits)

lemma add_char_simps [simp]: "in_rest (add_char c s) = in_rest s" "in_good (add_char c s) = in_good s"
  "s_tag (add_char c s) = s_tag s @ [char_of (nat c)]" "s_doc (add_char c s) = s_doc s"
  by (simp_all add: add_char_def)

section \<open>StreamIn\<close>

function StreamWhiteSpace :: "istream \<Rightarrow> bool \<times> istream" where
  "StreamWhiteSpace s = (if \<not> in_good s then (False, s)
     else case peek s of (c, s') \<Rightarrow>
       if \<not> IsWhiteSpace_int c \<or> c \<le> 0 then (True, s')
       else case get_char s' of (c', s'') \<Rightarrow> StreamWhiteSpace (add_char c' s''))"
  by pat_completeness auto
termination by (relation "measure (\<lambda>s. length (in_rest s))") (auto simp: get_char_shorter(2))

function StreamTo :: "int \<Rightarrow> istream \<Rightarrow> bool \<times> istream" where
  "StreamTo character s = (if \<not> in_good s then (False, s)
     else case peek s of (c, s') \<Rightarrow>
       if c = character then (True, s')
       else if c \<le> 0 then (False, s')
       else case get_char s' of (c', s'') \<Rightarrow> StreamTo character (add_char c s''))"
  by pat_completeness auto
termination by (relation "measure (\<lambda>(c, s). length (in_rest s))") (auto simp: get_char_shorter(2))

text \<open>
  The loop that collects up to a greater-than sign at which \<open>stop\<close> holds for the string. The Boolean
  tells that the function returns from inside of the loop, at a terminator or at the end.
\<close>

function read_tag :: "(string \<Rightarrow> bool res) \<Rightarrow> bool \<Rightarrow> istream \<Rightarrow> (bool \<times> istream) res" where
  "read_tag stop doc s = (if \<not> in_good s then Inr (False, s)
     else case get_char s of (c, s') \<Rightarrow>
       if c \<le> 0 then bindr (embedded_null doc s') (\<lambda>s'. Inr (True, s'))
       else if c = 62
       then (case stop (s_tag (add_char c s')) of Inl e \<Rightarrow> Inl e
             | Inr b \<Rightarrow> if b then Inr (False, add_char c s') else read_tag stop doc (add_char c s'))
       else read_tag stop doc (add_char c s'))"
  by pat_completeness auto
termination by (relation "measure (\<lambda>(stop, doc, s). length (in_rest s))") (auto simp: get_char_shorter(1))

definition Unknown_StreamIn :: "bool \<Rightarrow> istream \<Rightarrow> istream res" where
  "Unknown_StreamIn doc s = bindr (read_tag (\<lambda>tag. Inr True) doc s) (\<lambda>(ret, s). Inr s)"

definition Declaration_StreamIn :: "bool \<Rightarrow> istream \<Rightarrow> istream res" where
  "Declaration_StreamIn doc s = bindr (read_tag (\<lambda>tag. Inr True) doc s) (\<lambda>(ret, s). Inr s)"

definition comment_end :: "string \<Rightarrow> bool res" where
  "comment_end tag = (let n = length tag in
     if n < 2 then Inl Out_of_bounds
     else if tag ! (n - 2) \<noteq> CHR ''-'' then Inr False
     else if n < 3 then Inl Out_of_bounds
     else Inr (tag ! (n - 3) = CHR ''-''))"

definition Comment_StreamIn :: "bool \<Rightarrow> istream \<Rightarrow> istream res" where
  "Comment_StreamIn doc s = bindr (read_tag comment_end doc s) (\<lambda>(ret, s). Inr s)"

function Text_StreamIn :: "bool \<Rightarrow> bool \<Rightarrow> istream \<Rightarrow> istream res" where
  "Text_StreamIn cdata doc s = (if \<not> in_good s then Inr s
     else case peek s of (c, s') \<Rightarrow>
       if \<not> cdata \<and> c = 60 then Inr s'
       else if c \<le> 0 then embedded_null doc s'
       else case get_char (add_char c s') of (c', s'') \<Rightarrow>
         let tag = s_tag s''; len = length tag in
         if cdata \<and> c = 62 \<and> len \<ge> 3 \<and> tag ! (len - 2) = CHR '']'' \<and> tag ! (len - 3) = CHR '']'' then Inr s''
         else Text_StreamIn cdata doc s'')"
  by pat_completeness auto
termination
  by (relation "measure (\<lambda>(cdata, doc, s). length (in_rest s))")
    (auto simp: get_char_def peek_def split: if_splits list.splits)

text \<open>The inner loop of an element, behind a less-than sign; the Booleans tell that the function returns and that a closing tag was found.\<close>

function tag_loop :: "bool \<Rightarrow> bool \<Rightarrow> bool \<Rightarrow> istream \<Rightarrow> (bool \<times> bool \<times> istream) res" where
  "tag_loop doc closingTag firstCharFound s =
     (if \<not> in_good s then Inr (True, closingTag, s)
      else case peek s of (c, s') \<Rightarrow>
        if c \<le> 0 then bindr (embedded_null doc s') (\<lambda>s'. Inr (True, closingTag, s'))
        else if c = 62 then Inr (False, closingTag, s')
        else case get_char (add_char c s') of (c', s'') \<Rightarrow>
          if c = 91 \<and> length (s_tag s'') \<ge> 9 \<and> drop (length (s_tag s'') - 9) (s_tag s'') = ''<![CDATA[''
          then (if closingTag then Inl Assert_failed else Inr (False, closingTag, s''))
          else let first = (\<not> firstCharFound \<and> c \<noteq> 60 \<and> \<not> IsWhiteSpace_int c) in
            tag_loop doc (closingTag \<or> first \<and> c = 47) (firstCharFound \<or> first) s'')"
  by pat_completeness auto
termination
  by (relation "measure (\<lambda>(doc, closing, first, s). length (in_rest s))")
    (auto simp: get_char_def peek_def split: if_splits list.splits)

text \<open>The begin of \<open>TiXmlElement::StreamIn\<close>: the rest of the start tag, and whether there is more of the element.\<close>

definition start_tag_in :: "bool \<Rightarrow> istream \<Rightarrow> (bool \<times> istream) res" where
  "start_tag_in doc s = bindr (read_tag (\<lambda>tag. Inr True) doc s) (\<lambda>(ret, s).
     let tag = s_tag s; n = length tag in
     if ret then Inr (False, s)
     else if n < 3 then Inr (False, s)
     else if tag ! (n - 1) = CHR ''>'' \<and> tag ! (n - 2) = CHR ''/'' then Inr (False, s)
     else Inr (tag ! (n - 1) = CHR ''>'', s))"

definition leaf_StreamIn :: "node_kind \<Rightarrow> bool \<Rightarrow> istream \<Rightarrow> istream res" where
  "leaf_StreamIn k doc s = (case k of
       Declaration_node \<Rightarrow> Declaration_StreamIn doc s
     | Comment_node \<Rightarrow> Comment_StreamIn doc s
     | CDATA_node \<Rightarrow> Text_StreamIn True doc s
     | Unknown_node \<Rightarrow> Unknown_StreamIn doc s
     | Element_node \<Rightarrow> Inr s)"

text \<open>The greater-than sign of a closing tag.\<close>

definition closing_in :: "bool \<Rightarrow> istream \<Rightarrow> istream res" where
  "closing_in doc s = (if \<not> in_good s then Inr s
     else case get_char s of (c, s) \<Rightarrow>
       if c \<le> 0 then embedded_null doc s
       else if c \<noteq> 62 then Inl Assert_failed
       else Inr (add_char c s))"

text \<open>The outer loop of an element: text, a closing tag or another node.\<close>

partial_function (option) element_loop :: "bool \<Rightarrow> istream \<Rightarrow> istream res option" where
  "element_loop doc s =
     (case StreamWhiteSpace s of (b, s) \<Rightarrow>
      case peek s of (c, s') \<Rightarrow>
      if in_good s \<and> c \<noteq> 60
      then (case Text_StreamIn False False s' of Inl e \<Rightarrow> Some (Inl e) | Inr s \<Rightarrow> element_loop doc s)
      else if \<not> in_good s then Some (Inr s)
      else (case tag_loop doc False False s of Inl e \<Rightarrow> Some (Inl e) | Inr (ret, closingTag, t) \<Rightarrow>
        if ret then Some (Inr t)
        else if closingTag then Some (closing_in doc t)
        else (case Identify (drop (length (s_tag s)) (s_tag t)) TIXML_ENCODING_UNKNOWN of
            Inl e \<Rightarrow> Some (Inl e)
          | Inr None \<Rightarrow> Some (Inr t)
          | Inr (Some k) \<Rightarrow>
              if k = Element_node
              then (case start_tag_in doc t of Inl e \<Rightarrow> Some (Inl e) | Inr (inside, t) \<Rightarrow>
                bindo (if inside then element_loop doc t else Some (Inr t)) (\<lambda>t. element_loop doc t))
              else (case leaf_StreamIn k doc t of Inl e \<Rightarrow> Some (Inl e) | Inr t \<Rightarrow> element_loop doc t))))"

definition Element_StreamIn :: "bool \<Rightarrow> istream \<Rightarrow> istream res option" where
  "Element_StreamIn doc s = (case start_tag_in doc s of Inl e \<Rightarrow> Some (Inl e)
     | Inr (inside, s) \<Rightarrow> if inside then element_loop doc s else Some (Inr s))"

text \<open>What is read before the node is identified; at a terminator the loop is left with the error set.\<close>

function pre_read :: "istream \<Rightarrow> istream res" where
  "pre_read s = (if \<not> in_good s then Inr s
     else case peek s of (c, s') \<Rightarrow>
       if c = 62 then Inr s'
       else case get_char s' of (c', s'') \<Rightarrow>
         if c' \<le> 0 then set_error TIXML_ERROR_EMBEDDED_NULL s''
         else pre_read (add_char c' s''))"
  by pat_completeness auto
termination
  by (relation "measure (\<lambda>s. length (in_rest s))") (auto simp: get_char_def peek_def split: if_splits list.splits)

partial_function (option) document_loop :: "istream \<Rightarrow> istream res option" where
  "document_loop s =
     (if \<not> in_good s then Some (set_error TIXML_ERROR s)
      else case pre_read s of Inl e \<Rightarrow> Some (Inl e) | Inr t \<Rightarrow>
        if \<not> in_good t then document_loop t
        else (case Identify (drop (length (s_tag s)) (s_tag t)) TIXML_ENCODING_UNKNOWN of
            Inl e \<Rightarrow> Some (Inl e)
          | Inr None \<Rightarrow> Some (set_error TIXML_ERROR t)
          | Inr (Some k) \<Rightarrow>
              if k = Element_node then Element_StreamIn True t
              else (case leaf_StreamIn k True t of Inl e \<Rightarrow> Some (Inl e) | Inr t \<Rightarrow> document_loop t)))"

definition Document_StreamIn :: "istream \<Rightarrow> istream res option" where
  "Document_StreamIn s = (case StreamTo 60 s of (found, s) \<Rightarrow>
     if \<not> found then Some (set_error TIXML_ERROR_PARSING_EMPTY s) else document_loop s)"

text \<open>\<open>operator >>\<close> and \<open>operator <<\<close> of a document.\<close>

definition stream_in :: "bool \<Rightarrow> xnode list \<Rightarrow> string \<Rightarrow> xdoc \<Rightarrow> (xnode list parsed \<times> string) option" where
  "stream_in condense children content d =
     (case Document_StreamIn \<lparr>in_rest = content, in_good = True, s_tag = '''', s_doc = d\<rparr> of
        None \<Rightarrow> None
      | Some (Inl e) \<Rightarrow> Some (Inl e, content)
      | Some (Inr s) \<Rightarrow> Some (Document_Parse condense children (Some (cstr (s_tag s))) None TIXML_ENCODING_UNKNOWN (s_doc s), in_rest s))"

definition SetStreamPrinting :: "printer \<Rightarrow> printer" where
  "SetStreamPrinting p = p\<lparr>p_indent := '''', lineBreak := ''''\<rparr>"

definition stream_out :: "xnode list \<Rightarrow> string" where
  "stream_out children = buffer (fold Accept children (SetStreamPrinting TiXmlPrinter))"

definition string_out :: "string \<Rightarrow> xnode list \<Rightarrow> string" where
  "string_out out children = out @ buffer (fold Accept children (SetStreamPrinting TiXmlPrinter))"

declare StreamWhiteSpace.simps [simp del] StreamTo.simps [simp del] read_tag.simps [simp del] Text_StreamIn.simps [simp del]
  tag_loop.simps [simp del] pre_read.simps [simp del]

section \<open>What is taken from the stream is collected\<close>

definition took :: "istream \<Rightarrow> istream \<Rightarrow> bool" where
  "took s s' \<longleftrightarrow> (\<exists>w. in_rest s = w @ in_rest s' \<and> s_tag s' = s_tag s @ w) \<and> (in_good s' \<longrightarrow> in_good s)"

abbreviation remaining :: "istream \<Rightarrow> nat" where
  "remaining s \<equiv> length (in_rest s)"

lemma took_refl [simp]: "took s s" "took s (s\<lparr>in_good := False\<rparr>)" "took s (s\<lparr>s_doc := d\<rparr>)" "took s (s\<lparr>in_good := False, s_doc := d\<rparr>)"
  by (auto simp: took_def)

lemma took_trans: "took s t \<Longrightarrow> took t u \<Longrightarrow> took s u"
  unfolding took_def by auto

lemma took_left: "took s t \<Longrightarrow> remaining t \<le> remaining s"
  by (auto simp: took_def)

lemma took_NUL: "took s t \<Longrightarrow> NUL \<notin> set (in_rest s) \<Longrightarrow> NUL \<notin> set (in_rest t)"
  by (auto simp: took_def)

lemma took_char: "in_good s \<Longrightarrow> in_rest s = x # r \<Longrightarrow> took s (add_char (int (uchar x)) (s\<lparr>in_rest := r\<rparr>))"
  by (auto simp: took_def uchar_def)

lemma uchar_pos [simp]: "0 < uchar x \<longleftrightarrow> x \<noteq> NUL"
proof -
  have "x = NUL" if "uchar x = 0"
  proof -
    have "x = char_of (uchar x)" by (simp add: uchar_def)
    also have "\<dots> = NUL" unfolding that by code_simp
    finally show ?thesis .
  qed
  then show ?thesis by (auto simp: uchar_def)
qed

text \<open>A step of reading, where no terminator is left in the stream.\<close>

lemma get_cases:
  assumes "NUL \<notin> set (in_rest s)" "get_char s = (c, s')"
  obtains "c \<le> 0" "s' = s\<lparr>in_good := False\<rparr>" "in_good s \<Longrightarrow> in_rest s = []"
    | x r where "in_good s" "in_rest s = x # r" "s' = s\<lparr>in_rest := r\<rparr>" "c = int (uchar x)" "0 < c" "took s (add_char c s')"
proof (cases "in_good s \<and> in_rest s \<noteq> []")
  case True
  then obtain x r where x: "in_rest s = x # r" by (cases "in_rest s") auto
  have "x \<noteq> NUL" using assms(1) x by auto
  then show thesis using that(2) [of x r] True x assms(2) took_char [of s x r] by (auto simp: get_char_def)
next
  case False
  then show thesis using that(1) assms(2) by (auto simp: get_char_def split: list.splits if_splits)
qed

lemma peek_cases:
  assumes "NUL \<notin> set (in_rest s)" "peek s = (c, s')"
  obtains "c \<le> 0" "s' = s\<lparr>in_good := False\<rparr>" "in_good s \<Longrightarrow> in_rest s = []"
    | x r where "in_good s" "in_rest s = x # r" "s' = s" "c = int (uchar x)" "0 < c" "get_char s = (c, s\<lparr>in_rest := r\<rparr>)"
      "took s (add_char c (s\<lparr>in_rest := r\<rparr>))"
proof (cases "in_good s \<and> in_rest s \<noteq> []")
  case True
  then obtain x r where x: "in_rest s = x # r" by (cases "in_rest s") auto
  have "x \<noteq> NUL" using assms(1) x by auto
  then show thesis using that(2) [of x r] True x assms(2) took_char [of s x r] by (auto simp: get_char_def peek_def)
next
  case False
  then show thesis using that(1) assms(2) by (auto simp: peek_def split: list.splits if_splits)
qed

lemma set_error_took [simp]: "\<exists>d. set_error e s = Inr (s\<lparr>s_doc := d\<rparr>)" "\<exists>d. embedded_null doc s = Inr (s\<lparr>s_doc := d\<rparr>)"
proof -
  show 1: "\<exists>d. set_error e s = Inr (s\<lparr>s_doc := d\<rparr>)" for e by (cases "error (s_doc s)") (auto simp: set_error_def SetError_def Let_def intro: exI [of _ "s_doc s"])
  show "\<exists>d. embedded_null doc s = Inr (s\<lparr>s_doc := d\<rparr>)"
    using 1 [of TIXML_ERROR_EMBEDDED_NULL] by (cases doc) (auto simp: embedded_null_def intro: exI [of _ "s_doc s"])
qed

lemma StreamWhiteSpace_took: "NUL \<notin> set (in_rest s) \<Longrightarrow> took s (snd (StreamWhiteSpace s))"
proof (induction "remaining s" arbitrary: s rule: less_induct)
  case less
  obtain c s' where p: "peek s = (c, s')" by (cases "peek s")
  from less.prems p show ?case
  proof (cases rule: peek_cases)
    case 1
    then show ?thesis using p by (subst StreamWhiteSpace.simps) auto
  next
    case (2 x r)
    let ?t = "add_char c (s\<lparr>in_rest := r\<rparr>)"
    have "took ?t (snd (StreamWhiteSpace ?t))" by (rule less.hyps) (use less.prems 2(2) in auto)
    with 2(7) have "took s (snd (StreamWhiteSpace ?t))" by (rule took_trans)
    then show ?thesis using 2(1,3,6) p by (subst StreamWhiteSpace.simps) auto
  qed
qed

lemma StreamTo_took: "NUL \<notin> set (in_rest s) \<Longrightarrow> took s (snd (StreamTo character s))"
proof (induction "remaining s" arbitrary: s rule: less_induct)
  case less
  obtain c s' where p: "peek s = (c, s')" by (cases "peek s")
  from less.prems p show ?case
  proof (cases rule: peek_cases)
    case 1
    then show ?thesis using p by (subst StreamTo.simps) auto
  next
    case (2 x r)
    let ?t = "add_char c (s\<lparr>in_rest := r\<rparr>)"
    have "took ?t (snd (StreamTo character ?t))" by (rule less.hyps) (use less.prems 2(2) in auto)
    with 2(7) have "took s (snd (StreamTo character ?t))" by (rule took_trans)
    then show ?thesis using 2(1,3,5,6) p by (subst StreamTo.simps) auto
  qed
qed

text \<open>The functions that return, what they have taken, and that they take something if there is something.\<close>

definition takes :: "istream \<Rightarrow> istream \<Rightarrow> bool" where
  "takes s s' \<longleftrightarrow> took s s' \<and> (in_good s \<longrightarrow> remaining s' < remaining s \<or> \<not> in_good s')"

lemma takes_char:
  assumes "in_good s" "in_rest s = x # r" "took (add_char (int (uchar x)) (s\<lparr>in_rest := r\<rparr>)) t"
  shows "takes s t"
  using took_trans [OF took_char [OF assms(1,2)] assms(3)] took_left [OF assms(3)] assms(1,2) by (simp add: takes_def)

lemma takes_end: "in_good s \<Longrightarrow> takes s (s\<lparr>in_good := False\<rparr>)" "takes s (s\<lparr>in_good := False, s_doc := d\<rparr>)" "\<not> in_good s \<Longrightarrow> takes s s"
  by (auto simp: takes_def)

lemma read_tag_takes:
  assumes "NUL \<notin> set (in_rest s)" "\<And>w. w \<noteq> [] \<Longrightarrow> \<exists>b. stop (s_tag s @ w) = Inr b"
  shows "\<exists>ret s'. read_tag stop doc s = Inr (ret, s') \<and> takes s s'"
  using assms
proof (induction "remaining s" arbitrary: s rule: less_induct)
  case less
  obtain c s' where p: "get_char s = (c, s')" by (cases "get_char s")
  from less.prems(1) p show ?case
  proof (cases rule: get_cases)
    case 1
    obtain d where "embedded_null doc s' = Inr (s'\<lparr>s_doc := d\<rparr>)" using set_error_took(2) by blast
    then show ?thesis using p 1 takes_end by (subst read_tag.simps) auto
  next
    case (2 x r)
    let ?t = "add_char c (s\<lparr>in_rest := r\<rparr>)"
    obtain ret t' where t: "read_tag stop doc ?t = Inr (ret, t')" "takes ?t t'"
    proof -
      have "\<exists>ret s'. read_tag stop doc ?t = Inr (ret, s') \<and> takes ?t s'"
        by (rule less.hyps) (use less.prems 2(2) in auto)
      then show thesis using that by blast
    qed
    have "takes s t'" by (rule takes_char [OF 2(1,2)]) (use t(2) 2(4) in \<open>simp add: takes_def\<close>)
    moreover have "takes s ?t" by (rule takes_char [OF 2(1,2)]) (simp add: 2(4))
    moreover obtain b where "stop (s_tag ?t) = Inr b" using less.prems(2) by fastforce
    ultimately show ?thesis using t(1) 2(1,3,5) p by (subst read_tag.simps) auto
  qed
qed

lemma char_codes: "char_of (60::nat) = CHR ''<''" "char_of (62::nat) = CHR ''>''" "char_of (91::nat) = CHR ''[''"
  by code_simp+

lemma uchar_code: "int (uchar x) = c \<Longrightarrow> x = char_of (nat c)"
  by (auto simp: uchar_def)

lemma takes_took: "takes s t \<Longrightarrow> took s t"
  by (simp add: takes_def)

lemma Text_takes:
  assumes "NUL \<notin> set (in_rest s)"
  shows "\<exists>s'. Text_StreamIn cdata doc s = Inr s' \<and> took s s' \<and> (cdata \<or> take 1 (in_rest s) \<noteq> ''<'' \<longrightarrow> takes s s')"
  using assms
proof (induction "remaining s" arbitrary: s rule: less_induct)
  case less
  obtain c s' where p: "peek s = (c, s')" by (cases "peek s")
  from less.prems(1) p show ?case
  proof (cases rule: peek_cases)
    case 1
    obtain d where "embedded_null doc s' = Inr (s'\<lparr>s_doc := d\<rparr>)" using set_error_took(2) by blast
    then show ?thesis using p 1 takes_end by (subst Text_StreamIn.simps) auto
  next
    case (2 x r)
    let ?t = "add_char c (s\<lparr>in_rest := r\<rparr>)"
    have g: "get_char (add_char c s) = (c, ?t)" using 2(1,2,4) by (simp add: get_char_def add_char_def)
    obtain t' where t: "Text_StreamIn cdata doc ?t = Inr t'" "took ?t t'"
      using less.hyps [of ?t] less.prems 2(2) by auto
    have "takes s t'" by (rule takes_char [OF 2(1,2)]) (use t(2) 2(4) in simp)
    moreover have "takes s ?t" by (rule takes_char [OF 2(1,2)]) (simp add: 2(4))
    moreover have "x = CHR ''<''" if "c = 60"
    proof -
      have "char_of (nat c) = x" using 2(4) by (simp add: uchar_def)
      then show ?thesis using that char_codes by simp
    qed
    ultimately show ?thesis using t(1) 2(1,2,3,5) p g takes_took by (subst Text_StreamIn.simps) (auto simp: Let_def)
  qed
qed

lemma tag_loop_takes:
  assumes "NUL \<notin> set (in_rest s)"
  shows "tag_loop doc closing first s = Inl Assert_failed
    \<or> (\<exists>ret closing' s'. tag_loop doc closing first s = Inr (ret, closing', s') \<and> took s s' \<and> (take 1 (in_rest s) = ''<'' \<longrightarrow> takes s s')
        \<and> (\<not> ret \<and> closing' \<longrightarrow> in_good s' \<and> take 1 (in_rest s') = ''>''))"
  using assms
proof (induction "remaining s" arbitrary: s closing first rule: less_induct)
  case less
  obtain c s' where p: "peek s = (c, s')" by (cases "peek s")
  from less.prems(1) p show ?case
  proof (cases rule: peek_cases)
    case 1
    obtain d where "embedded_null doc s' = Inr (s'\<lparr>s_doc := d\<rparr>)" using set_error_took(2) by blast
    then show ?thesis using p 1 takes_end by (subst (1 2) tag_loop.simps) auto
  next
    case (2 x r)
    let ?t = "add_char c (s\<lparr>in_rest := r\<rparr>)"
    have g: "get_char (add_char c s) = (c, ?t)" using 2(1,2,4) by (simp add: get_char_def add_char_def)
    have x: "x = char_of (nat c)" using 2(4) by (simp add: uchar_def)
    then have gt: "x = CHR ''>''" if "c = 62" using that char_codes by simp
    have s1: "takes s t'" if "took ?t t'" for t' by (rule takes_char [OF 2(1,2)]) (use that 2(4) in simp)
    have IH: "tag_loop doc cl f ?t = Inl Assert_failed
      \<or> (\<exists>ret closing' s'. tag_loop doc cl f ?t = Inr (ret, closing', s') \<and> took ?t s'
        \<and> (\<not> ret \<and> closing' \<longrightarrow> in_good s' \<and> take 1 (in_rest s') = ''>''))" for cl f
      using less.hyps [of ?t cl f] less.prems 2(2) by auto
    show ?thesis
    proof (cases "c = 62")
      case True
      then show ?thesis using 2(1,2,3,5) p gt by (subst (1 2) tag_loop.simps) auto
    next
      case False
      show ?thesis
      proof (cases "c = 91 \<and> length (s_tag ?t) \<ge> 9 \<and> drop (length (s_tag ?t) - 9) (s_tag ?t) = ''<![CDATA[''")
        case True
        then have "tag_loop doc closing first s = (if closing then Inl Assert_failed else Inr (False, closing, ?t))"
          using False 2(1,3,5) p g by (subst tag_loop.simps) (simp add: char_codes)
        then show ?thesis using s1 [of ?t] takes_took by auto
      next
        case no: False
        let ?f = "\<not> first \<and> c \<noteq> 60 \<and> \<not> IsWhiteSpace_int c"
        have "tag_loop doc closing first s = tag_loop doc (closing \<or> ?f \<and> c = 47) (first \<or> ?f) ?t"
          using no False 2(1,3,5) p g by (subst tag_loop.simps) (simp only: prod.case if_False not_True_eq_False Let_def not_le, simp)
        then show ?thesis using IH [of "closing \<or> ?f \<and> c = 47" "first \<or> ?f"] s1 takes_took by metis
      qed
    qed
  qed
qed

lemma pre_read_took:
  assumes "NUL \<notin> set (in_rest s)"
  shows "\<exists>s'. pre_read s = Inr s' \<and> took s s' \<and> (in_good s' \<longrightarrow> in_rest s' \<noteq> [])"
  using assms
proof (induction "remaining s" arbitrary: s rule: less_induct)
  case less
  obtain c s' where p: "peek s = (c, s')" by (cases "peek s")
  from less.prems(1) p show ?case
  proof (cases rule: peek_cases)
    case 1
    have "get_char s' = (-1, s')" using 1(2) by (simp add: get_char_def)
    moreover obtain d where "set_error TIXML_ERROR_EMBEDDED_NULL s' = Inr (s'\<lparr>s_doc := d\<rparr>)" using set_error_took(1) by blast
    ultimately show ?thesis using p 1 by (subst pre_read.simps) auto
  next
    case (2 x r)
    let ?t = "add_char c (s\<lparr>in_rest := r\<rparr>)"
    obtain t' where t: "pre_read ?t = Inr t'" "took ?t t'" "in_good t' \<longrightarrow> in_rest t' \<noteq> []"
      using less.hyps [of ?t] less.prems 2(2) by auto
    then show ?thesis using took_trans [OF 2(7) t(2)] 2(1-3,5,6) p by (subst pre_read.simps) auto
  qed
qed

lemma read_any: "NUL \<notin> set (in_rest s) \<Longrightarrow> \<exists>ret s'. read_tag (\<lambda>tag. Inr True) doc s = Inr (ret, s') \<and> takes s s'"
  by (rule read_tag_takes) blast+

lemma start_tag_takes:
  "NUL \<notin> set (in_rest s) \<Longrightarrow> \<exists>b s'. start_tag_in doc s = Inr (b, s') \<and> takes s s'"
  using read_any [of s doc] by (auto simp: start_tag_in_def Let_def)

lemma leaf_takes:
  assumes "NUL \<notin> set (in_rest s)" "k \<noteq> Element_node" "k = Comment_node \<Longrightarrow> 2 \<le> length (s_tag s)"
  shows "\<exists>s'. leaf_StreamIn k doc s = Inr s' \<and> takes s s'"
proof -
  have "\<exists>b. comment_end (s_tag s @ w) = Inr b" if "w \<noteq> []" "k = Comment_node" for w
    using assms(3) [OF that(2)] that(1) by (cases w) (auto simp: comment_end_def Let_def)
  then show ?thesis
    using assms read_any [OF assms(1), of doc] read_tag_takes [OF assms(1), of comment_end doc]
      Text_takes [OF assms(1), of True doc]
    by (cases k) (auto simp: leaf_StreamIn_def Declaration_StreamIn_def Comment_StreamIn_def Unknown_StreamIn_def)
qed

lemma closing_takes:
  "in_good s \<Longrightarrow> take 1 (in_rest s) = ''>'' \<Longrightarrow> \<exists>s'. closing_in doc s = Inr s' \<and> took s s'"
  using took_char [of s "CHR ''>''"] by (cases "in_rest s") (auto simp: closing_in_def get_char_def uchar_def)

lemma Identify_total: "\<exists>k. Identify p TIXML_ENCODING_UNKNOWN = Inr k \<and> (k = Some Comment_node \<longrightarrow> 2 \<le> length p)"
proof -
  show ?thesis
  proof (cases "SkipWhiteSpace (Some p) TIXML_ENCODING_UNKNOWN")
    case (Some q)
    then have l: "length q \<le> length p" using SkipWhiteSpace_length [OF Some] by simp
    show ?thesis
    proof (cases q)
      case (Cons c r)
      have "r \<noteq> []" if "match_from (=) (c # r) ''<!--''" using that by (cases r) simp_all
      moreover have "2 \<le> length p" if "r \<noteq> []" using l Cons that by (cases r) auto
      ultimately show ?thesis using Some Cons by (auto simp: Identify_def StringEqual_def simp del: match_from.simps)
    qed (use Some in \<open>simp add: Identify_def\<close>)
  qed (simp add: Identify_def)
qed

section \<open>Every stream without a terminator is read\<close>

text \<open>What a call for \<open>s\<close> hands back: a stream from which some characters have moved to the string, or the one assertion.\<close>

definition collects :: "istream \<Rightarrow> istream res option \<Rightarrow> bool" where
  "collects s r \<longleftrightarrow> r = Some (Inl Assert_failed) \<or> (\<exists>s'. r = Some (Inr s') \<and> took s s')"

lemma collects_trans: "took s t \<Longrightarrow> collects t r \<Longrightarrow> collects s r"
  unfolding collects_def using took_trans by blast

lemma collects_bind:
  "collects s m \<Longrightarrow> (\<And>t. took s t \<Longrightarrow> collects t (f t)) \<Longrightarrow> collects s (bindo m f)"
  unfolding collects_def using took_trans by fastforce

definition steps :: "istream \<Rightarrow> nat" where
  "steps s = remaining s + (if in_good s then 1 else 0)"

lemma took_steps: "took s t \<Longrightarrow> steps t \<le> steps s"
  using took_left [of s t] by (auto simp: steps_def took_def)

lemma takes_steps: "takes s t \<Longrightarrow> in_good s \<Longrightarrow> steps t < steps s"
  using took_left [of s t] by (auto simp: steps_def takes_def took_def)

lemma element_loop_collects: "NUL \<notin> set (in_rest s) \<Longrightarrow> collects s (element_loop doc s)"
proof (induction "steps s" arbitrary: s rule: less_induct)
  case less
  obtain b s0 where ws: "StreamWhiteSpace s = (b, s0)" by (cases "StreamWhiteSpace s")
  have s0: "took s s0" using StreamWhiteSpace_took [OF less.prems] ws by simp
  have n0: "NUL \<notin> set (in_rest s0)" by (rule took_NUL [OF s0 less.prems])
  have IH: "collects s0 (element_loop doc t)" if "took s0 t" "steps t < steps s0" for t
    using collects_trans [OF that(1) less.hyps] took_NUL [OF that(1) n0] that(2) took_steps [OF s0] by simp
  obtain c s1 where p: "peek s0 = (c, s1)" by (cases "peek s0")
  have "collects s0 (element_loop doc s)"
  proof (cases "in_good s0")
    case False
    then show ?thesis using ws p by (subst element_loop.simps) (simp add: collects_def)
  next
    case good: True
    show ?thesis
    proof (cases "c = 60")
      case False
      have s1: "took s0 s1" "in_good s1 \<longrightarrow> take 1 (in_rest s1) \<noteq> ''<''" "in_good s1 \<or> steps s1 < steps s0"
        using n0 p
        by (rule peek_cases; use good False char_codes in \<open>auto simp: steps_def uchar_def\<close>)+
      obtain s2 where s2: "Text_StreamIn False False s1 = Inr s2" "took s1 s2" "take 1 (in_rest s1) \<noteq> ''<'' \<longrightarrow> takes s1 s2"
        using Text_takes [OF took_NUL [OF s1(1) n0]] by blast
      have "steps s2 < steps s0"
        using s1(2,3) s2(2,3) took_steps [OF s1(1)] took_steps [OF s2(2)] takes_steps [of s1 s2] by fastforce
      then have "collects s0 (element_loop doc s2)" by (rule IH [OF took_trans [OF s1(1) s2(2)]])
      then show ?thesis using ws p good False s2(1) by (subst element_loop.simps) simp
    next
      case True
      have h: "take 1 (in_rest s0) = ''<''"
        using n0 p by (rule peek_cases) (use good True char_codes uchar_code in \<open>fastforce\<close>)+
      have H: "collects t (element_loop doc t)" if "took s0 t" "steps t < steps s0" for t
        using less.hyps [of t] took_NUL [OF that(1) n0] that(2) took_steps [OF s0] by simp
      have go: "collects t (element_loop doc u)" if "took s0 t" "steps t < steps s0" "took t u" for t u
        using collects_trans [OF that(3) H [OF took_trans [OF that(1,3)]]] took_steps [OF that(3)] that(2) by simp
      let ?r = "tag_loop doc False False s0"
      have e: "element_loop doc s = (case ?r of Inl e \<Rightarrow> Some (Inl e) | Inr (ret, closingTag, t) \<Rightarrow>
        if ret then Some (Inr t)
        else if closingTag then Some (closing_in doc t)
        else (case Identify (drop (length (s_tag s0)) (s_tag t)) TIXML_ENCODING_UNKNOWN of
            Inl e \<Rightarrow> Some (Inl e)
          | Inr None \<Rightarrow> Some (Inr t)
          | Inr (Some k) \<Rightarrow>
              if k = Element_node
              then (case start_tag_in doc t of Inl e \<Rightarrow> Some (Inl e) | Inr (inside, t) \<Rightarrow>
                bindo (if inside then element_loop doc t else Some (Inr t)) (\<lambda>t. element_loop doc t))
              else (case leaf_StreamIn k doc t of Inl e \<Rightarrow> Some (Inl e) | Inr t \<Rightarrow> element_loop doc t)))"
        using ws p good True by (subst element_loop.simps) simp
      show ?thesis
      proof (cases "?r = Inl Assert_failed")
        case False
        then obtain ret closing t where r: "?r = Inr (ret, closing, t)" "took s0 t" "takes s0 t"
            "\<not> ret \<and> closing \<longrightarrow> in_good t \<and> take 1 (in_rest t) = ''>''"
          using tag_loop_takes [OF n0, of doc False False] h by blast
        have lt: "steps t < steps s0" by (rule takes_steps [OF r(3) good])
        have nt: "NUL \<notin> set (in_rest t)" by (rule took_NUL [OF r(2) n0])
        have "collects t (element_loop doc s)"
        proof (cases "ret \<or> closing")
          case True
          then show ?thesis using e r closing_takes [of t doc] by (auto simp: collects_def)
        next
          case False
          obtain k where k: "Identify (drop (length (s_tag s0)) (s_tag t)) TIXML_ENCODING_UNKNOWN = Inr k"
              "k = Some Comment_node \<Longrightarrow> 2 \<le> length (s_tag t)"
            using Identify_total [of "drop (length (s_tag s0)) (s_tag t)"] by (metis diff_le_self le_trans length_drop)
          show ?thesis
          proof (cases k)
            case None
            then show ?thesis using e r(1) False k by (simp add: collects_def)
          next
            case (Some n)
            show ?thesis
            proof (cases "n = Element_node")
              case True
              obtain inside u where u: "start_tag_in doc t = Inr (inside, u)" "took t u"
                using start_tag_takes [OF nt] takes_took by blast
              have su: "took s0 u" "steps u < steps s0" using took_trans [OF r(2) u(2)] took_steps [OF u(2)] lt by simp_all
              have "collects u (bindo (if inside then element_loop doc u else Some (Inr u)) (\<lambda>t. element_loop doc t))"
              proof (rule collects_bind)
                show "collects u (if inside then element_loop doc u else Some (Inr u))" using H [OF su] by (simp add: collects_def)
                show "collects v (element_loop doc v)" if "took u v" for v
                  by (rule H [OF took_trans [OF su(1) that] le_less_trans [OF took_steps [OF that] su(2)]])
              qed
              then show ?thesis using e r(1) False k(1) Some True u collects_trans [OF u(2)] by simp
            next
              case no: False
              obtain u where u: "leaf_StreamIn n doc t = Inr u" "took t u"
                using leaf_takes [OF nt no] k(2) Some takes_took by blast
              then show ?thesis using e r(1) False k(1) Some no go [OF r(2) lt u(2)] by simp
            qed
          qed
        qed
        then show ?thesis by (rule collects_trans [OF r(2)])
      qed (simp add: e collects_def)
    qed
  qed
  then show ?case by (rule collects_trans [OF s0])
qed

lemma Element_collects: "NUL \<notin> set (in_rest s) \<Longrightarrow> collects s (Element_StreamIn doc s)"
proof -
  assume n: "NUL \<notin> set (in_rest s)"
  obtain inside t where t: "start_tag_in doc s = Inr (inside, t)" "took s t" using start_tag_takes [OF n] takes_took by blast
  have "collects t (if inside then element_loop doc t else Some (Inr t))"
    using element_loop_collects [OF took_NUL [OF t(2) n]] by (simp add: collects_def)
  then show ?thesis using t collects_trans by (simp add: Element_StreamIn_def)
qed

lemma collects_error: "took s t \<Longrightarrow> collects s (Some (set_error e t))"
proof -
  assume t: "took s t"
  obtain d where d: "set_error e t = Inr (t\<lparr>s_doc := d\<rparr>)" using set_error_took(1) by blast
  have "took s (t\<lparr>s_doc := d\<rparr>)" by (rule took_trans [OF t]) simp
  with d show ?thesis by (simp add: collects_def)
qed

lemma document_loop_collects: "NUL \<notin> set (in_rest s) \<Longrightarrow> collects s (document_loop s)"
proof (induction "steps s" arbitrary: s rule: less_induct)
  case less
  show ?case
  proof (cases "in_good s")
    case False
    then show ?thesis using collects_error [of s s] by (subst document_loop.simps) simp
  next
    case good: True
    obtain t where t: "pre_read s = Inr t" "took s t" "in_good t \<longrightarrow> in_rest t \<noteq> []" using pre_read_took [OF less.prems] by blast
    have nt: "NUL \<notin> set (in_rest t)" by (rule took_NUL [OF t(2) less.prems])
    have IH: "collects s (document_loop u)" if "took t u" "steps u < steps s" for u
      by (rule collects_trans [OF took_trans [OF t(2) that(1)] less.hyps [OF that(2) took_NUL [OF that(1) nt]]])
    show ?thesis
    proof (cases "in_good t")
      case False
      have "steps t < steps s" using False good took_left [OF t(2)] by (simp add: steps_def)
      then show ?thesis using IH [of t] False good t(1) by (subst document_loop.simps) simp
    next
      case True
      obtain k where k: "Identify (drop (length (s_tag s)) (s_tag t)) TIXML_ENCODING_UNKNOWN = Inr k"
          "k = Some Comment_node \<Longrightarrow> 2 \<le> length (s_tag t)"
        using Identify_total [of "drop (length (s_tag s)) (s_tag t)"] by (metis diff_le_self le_trans length_drop)
      have e: "document_loop s = (case k of None \<Rightarrow> Some (set_error TIXML_ERROR t)
          | Some k \<Rightarrow> if k = Element_node then Element_StreamIn True t
              else (case leaf_StreamIn k True t of Inl e \<Rightarrow> Some (Inl e) | Inr t \<Rightarrow> document_loop t))"
        using good True t(1) k(1) by (subst document_loop.simps) simp
      show ?thesis
      proof (cases k)
        case None
        then show ?thesis using e collects_error [OF t(2)] by simp
      next
        case (Some n)
        show ?thesis
        proof (cases "n = Element_node")
          case True
          then show ?thesis using e Some collects_trans [OF t(2) Element_collects [OF nt]] by simp
        next
          case no: False
          obtain u where u: "leaf_StreamIn n True t = Inr u" "takes t u"
            using leaf_takes [OF nt no] k(2) Some by blast
          have "steps u < steps s" using takes_steps [OF u(2) True] took_steps [OF t(2)] by simp
          then show ?thesis using e Some no u(1) IH [OF takes_took [OF u(2)]] by simp
        qed
      qed
    qed
  qed
qed

text \<open>C12:
  From a stream without a terminator, StreamIn of a document always returns, unless it fails the assertion on a CDATA
  section in a closing tag. It moves characters from the stream to the string and changes none: what it
  has collected is what it has taken, so the stream goes on behind it.\<close>

theorem stream_in_collects:
  assumes "NUL \<notin> set (in_rest s)"
  shows "Document_StreamIn s = Some (Inl Assert_failed)
    \<or> (\<exists>s' w. Document_StreamIn s = Some (Inr s') \<and> in_rest s = w @ in_rest s' \<and> s_tag s' = s_tag s @ w)"
proof -
  obtain found t where t: "StreamTo 60 s = (found, t)" by (cases "StreamTo 60 s")
  have st: "took s t" using StreamTo_took [OF assms, of 60] t by simp
  have "collects s (Document_StreamIn s)"
    using t collects_error [OF st] collects_trans [OF st document_loop_collects [OF took_NUL [OF st assms]]]
    by (simp add: Document_StreamIn_def)
  then show ?thesis unfolding collects_def took_def by blast
qed

definition stream_of :: "string \<Rightarrow> istream" where
  "stream_of x = \<lparr>in_rest = x, in_good = True, s_tag = '''', s_doc = new_document\<rparr>"

theorem stream_in_collects_witness:
  "(\<exists>s'. Document_StreamIn (stream_of ''<a/>b'') = Some (Inr s') \<and> s_tag s' @ in_rest s' = ''<a/>b'')
    \<or> Document_StreamIn (stream_of ''<a/>b'') = Some (Inl Assert_failed)"
  using stream_in_collects [of "stream_of ''<a/>b''"] by (auto simp: stream_of_def)

section \<open>A terminator in the text of an element\<close>

lemma StreamWhiteSpace_suffix:
  "in_good s \<Longrightarrow> in_rest s = x @ NUL # y \<Longrightarrow> CHR ''<'' \<notin> set x \<Longrightarrow>
    \<exists>s' z. snd (StreamWhiteSpace s) = s' \<and> in_good s' \<and> in_rest s' = z @ NUL # y \<and> CHR ''<'' \<notin> set z"
proof (induction x arbitrary: s)
  case Nil
  then show ?case by (subst StreamWhiteSpace.simps) (auto simp: peek_def uchar_def)
next
  case (Cons a x)
  have g: "get_char s = (int (uchar a), s\<lparr>in_rest := x @ NUL # y\<rparr>)" using Cons.prems(1,2) by (simp add: get_char_def)
  have "\<exists>s' z. snd (StreamWhiteSpace (add_char (int (uchar a)) (s\<lparr>in_rest := x @ NUL # y\<rparr>))) = s' \<and> in_good s'
      \<and> in_rest s' = z @ NUL # y \<and> CHR ''<'' \<notin> set z"
    using Cons.prems by (intro Cons.IH) auto
  moreover have "\<exists>z. in_rest s = z @ NUL # y \<and> CHR ''<'' \<notin> set z" using Cons.prems by auto
  ultimately show ?case using Cons.prems(1,2) g by (subst StreamWhiteSpace.simps) (auto simp: peek_def)
qed

lemma Text_suffix:
  "in_good s \<Longrightarrow> in_rest s = x @ NUL # y \<Longrightarrow> CHR ''<'' \<notin> set x \<Longrightarrow>
    \<exists>s' z. Text_StreamIn False False s = Inr s' \<and> in_good s' \<and> in_rest s' = z @ NUL # y \<and> CHR ''<'' \<notin> set z"
proof (induction x arbitrary: s)
  case Nil
  then show ?case by (subst Text_StreamIn.simps) (auto simp: peek_def uchar_def embedded_null_def)
next
  case (Cons a x)
  have a: "int (uchar a) \<noteq> 60" using Cons.prems(3) uchar_code [of a 60] char_codes by auto
  have g: "get_char (add_char (int (uchar a)) s) = (int (uchar a), add_char (int (uchar a)) (s\<lparr>in_rest := x @ NUL # y\<rparr>))"
    using Cons.prems(1,2) by (simp add: get_char_def add_char_def)
  have "\<exists>s' z. Text_StreamIn False False (add_char (int (uchar a)) (s\<lparr>in_rest := x @ NUL # y\<rparr>)) = Inr s' \<and> in_good s'
      \<and> in_rest s' = z @ NUL # y \<and> CHR ''<'' \<notin> set z"
    using Cons.prems by (intro Cons.IH) auto
  moreover have "\<exists>z. in_rest s = z @ NUL # y \<and> CHR ''<'' \<notin> set z" using Cons.prems by auto
  ultimately show ?case using Cons.prems(1,2) g a by (subst Text_StreamIn.simps) (auto simp: peek_def Let_def embedded_null_def)
qed

lemma element_loop_stuck:
  assumes "in_good s" "in_rest s = x @ NUL # y" "CHR ''<'' \<notin> set x"
  shows "element_loop doc s = None"
proof (rule ccontr)
  assume "element_loop doc s \<noteq> None"
  then obtain r where r: "element_loop doc s = Some r" by blast
  have "\<not> (\<exists>x. in_good s \<and> in_rest s = x @ NUL # y \<and> CHR ''<'' \<notin> set x)"
  proof (rule element_loop.raw_induct [OF _ r], rule notI, elim exE conjE)
    fix f doc s r x
    assume IH: "\<And>doc s r. f doc s = Some r \<Longrightarrow> \<not> (\<exists>x. in_good s \<and> in_rest s = x @ NUL # y \<and> CHR ''<'' \<notin> set x)"
      and s: "in_good s" "in_rest s = x @ NUL # y" "CHR ''<'' \<notin> set x"
      and f: "(case StreamWhiteSpace s of (b, s) \<Rightarrow> case peek s of (c, s') \<Rightarrow>
        if in_good s \<and> c \<noteq> 60
        then (case Text_StreamIn False False s' of Inl e \<Rightarrow> Some (Inl e) | Inr s \<Rightarrow> f doc s)
        else if \<not> in_good s then Some (Inr s)
        else (case tag_loop doc False False s of Inl e \<Rightarrow> Some (Inl e) | Inr (ret, closingTag, t) \<Rightarrow>
          if ret then Some (Inr t)
          else if closingTag then Some (closing_in doc t)
          else (case Identify (drop (length (s_tag s)) (s_tag t)) TIXML_ENCODING_UNKNOWN of
              Inl e \<Rightarrow> Some (Inl e)
            | Inr None \<Rightarrow> Some (Inr t)
            | Inr (Some k) \<Rightarrow>
                if k = Element_node
                then (case start_tag_in doc t of Inl e \<Rightarrow> Some (Inl e) | Inr (inside, t) \<Rightarrow>
                  bindo (if inside then f doc t else Some (Inr t)) (\<lambda>t. f doc t))
                else (case leaf_StreamIn k doc t of Inl e \<Rightarrow> Some (Inl e) | Inr t \<Rightarrow> f doc t)))) = Some r"
    obtain b t z where t: "StreamWhiteSpace s = (b, t)" "in_good t" "in_rest t = z @ NUL # y" "CHR ''<'' \<notin> set z"
      using StreamWhiteSpace_suffix [OF s] by (cases "StreamWhiteSpace s") auto
    obtain u z' where u: "Text_StreamIn False False t = Inr u" "in_good u" "in_rest u = z' @ NUL # y" "CHR ''<'' \<notin> set z'"
      using Text_suffix [OF t(2-4)] by blast
    obtain a w where w: "z @ NUL # y = a # w" "a \<noteq> CHR ''<''" using t(4) by (cases z) auto
    have "int (uchar a) \<noteq> 60" using w(2) uchar_code [of a 60] char_codes by auto
    then have "f doc u = Some r" using f t(1-3) u(1) w(1) by (simp add: peek_def)
    then show False using IH u(2-4) by blast
  qed
  with assms show False by blast
qed

text \<open>C37:
  When a terminator follows in the text of an element, StreamIn of the document never returns: the text stops at it
  without taking it, finds no document to report it to, and the element reads text again, for ever.\<close>

theorem stream_in_never_returns:
  assumes "CHR ''<'' \<notin> set x"
  shows "Document_StreamIn (stream_of (''<a>'' @ x @ NUL # y)) = None"
proof -
  let ?s = "stream_of (''<a>'' @ x @ NUL # y)"
  have "uchar (CHR ''<'') = 60" "uchar (CHR ''>'') = 62" "uchar (CHR ''a'') = 97" by (simp_all add: uchar_def)
  note [simp] = this
  let ?t = "?s\<lparr>in_rest := CHR ''>'' # x @ NUL # y, s_tag := ''<a''\<rparr>"
  have "StreamTo 60 ?s = (True, ?s)" by (subst StreamTo.simps) (simp add: peek_def stream_of_def)
  moreover have "pre_read ?s = Inr ?t"
    by (subst pre_read.simps, simp add: peek_def get_char_def stream_of_def add_char_def,
        subst pre_read.simps, simp add: peek_def get_char_def add_char_def,
        subst pre_read.simps, simp add: peek_def)
      (code_simp)
  moreover have "Identify ''<a'' TIXML_ENCODING_UNKNOWN = Inr (Some Element_node)" by code_simp
  moreover have "read_tag (\<lambda>tag. Inr True) True ?t = Inr (False, add_char 62 (?t\<lparr>in_rest := x @ NUL # y\<rparr>))"
    by (subst read_tag.simps) (simp add: get_char_def stream_of_def add_char_def)
  then have "start_tag_in True ?t = Inr (True, add_char 62 (?t\<lparr>in_rest := x @ NUL # y\<rparr>))"
    by (simp add: start_tag_in_def Let_def char_codes)
  moreover have "element_loop True (add_char 62 (?t\<lparr>in_rest := x @ NUL # y\<rparr>)) = None"
    by (rule element_loop_stuck [OF _ _ assms]) (simp_all add: stream_of_def)
  ultimately show ?thesis
    by (subst Document_StreamIn_def, simp, subst document_loop.simps)
      (simp add: stream_of_def Element_StreamIn_def)
qed

theorem stream_in_never_returns_witness:
  "Document_StreamIn (stream_of (''<a>'' @ ''x'' @ NUL # ''</a>'')) = None"
  by (rule stream_in_never_returns) simp

end
