(* ===== verification/XmlCut.thy ===== *)
theory XmlCut
  imports XmlPrint
begin

text \<open>
  Documents that are cut off: in a declaration behind a blank, where the parser of XmlParse stops at the assertion of
  \<open>StringEqual\<close>, and in a UTF-8 sequence, where \<open>GetChar\<close> steps over the terminator and the loops of
  \<open>ReadText\<close> go on behind the buffer.
\<close>

abbreviation "U8 \<equiv> TIXML_ENCODING_UTF8"

section \<open>Declarations\<close>

definition decl_words :: "(string \<times> string) list \<Rightarrow> string" where
  "decl_words as = concat (map (\<lambda>(n, v). clause n v) as)"

definition word_ok :: "string \<times> string \<Rightarrow> bool" where
  "word_ok a \<longleftrightarrow> fst a \<in> {''version'', ''encoding'', ''standalone''} \<and> snd a \<noteq> [] \<and> good_declared (snd a)"

lemma decl_loop_cut:
  assumes "list_all word_ok as" "list_all IsWhiteSpace ws" "length as < k"
  shows "decl_loop k condense LEG loc ver en sta (Some (CHR 0x20 # decl_words as @ ws)) d = Inl Assert_failed"
  using assms(1,3)
proof (induction as arbitrary: k ver en sta d)
  case Nil
  then obtain m where k: "k = Suc m" by (cases k) auto
  have "dropWhile IsWhiteSpace (CHR 0x20 # ws) = []" using assms(2) by (auto simp: list_all_iff)
  then have "SkipWhiteSpace (Some (CHR 0x20 # ws)) LEG = Some []" by (simp add: Skip_Some)
  then show ?case by (simp add: k decl_words_def StringEqual_def)
next
  case (Cons a as)
  then obtain m where k: "k = Suc m" "length as < m" by (cases k) auto
  obtain n v where a: "a = (n, v)" "v \<noteq> []" "good_declared v" "n = ''version'' \<or> n = ''encoding'' \<or> n = ''standalone''"
    using Cons.prems(1) by (cases a) (auto simp: word_ok_def)
  from decl_clause [OF a(2-4), of d m condense loc ver en sta "decl_words as @ ws"] obtain d' where
    "decl_loop (Suc m) condense LEG loc ver en sta (Some (CHR 0x20 # clause n v @ decl_words as @ ws)) d =
      decl_loop m condense LEG loc (if n = ''version'' then v else ver) (if n = ''encoding'' then v else en)
        (if n = ''standalone'' then v else sta) (Some (CHR 0x20 # decl_words as @ ws)) d'" by blast
  then show ?case using Cons.IH [OF _ k(2)] Cons.prems(1) by (simp add: k(1) a(1) decl_words_def)
qed

lemma length_words: "length as \<le> length (decl_words as)" if "list_all word_ok as"
  using that by (induction as) (auto simp: decl_words_def word_ok_def clause_def)

lemma declaration_cut:
  assumes "list_all word_ok as" "list_all IsWhiteSpace ws" "length (decl_words as) \<le> n"
  shows "Declaration_Parse (Suc n) condense LEG (Some (''<?xml '' @ decl_words as @ ws)) d = Inl Assert_failed"
proof -
  let ?s = "''<?xml '' @ decl_words as @ ws"
  have "SkipWhiteSpace (Some ?s) LEG = Some ?s" by (rule Skip_here) simp_all
  moreover have "StringEqual ?s ''<?xml'' True LEG = Inr True"
    using match_from_self [of "\<lambda>a b. ToLower LEG a = ToLower LEG b" "''<?xml''" "CHR 0x20 # decl_words as @ ws"]
    by (simp add: StringEqual_def)
  moreover have "drop 5 ?s = CHR 0x20 # decl_words as @ ws" by simp
  moreover obtain loc d' where "stamp_at LEG ?s d = Inr (loc, d')"
    using reads_stamp [of d "\<lambda>x. x" "\<lambda>_. Inr ((), None, d)" "()" None "error d" ?s]
    by (cases "stamp_at LEG ?s d") (auto simp: reads_def)
  moreover have "length as < Suc n" using length_words [OF assms(1)] assms(3) by simp
  ultimately show ?thesis
    using decl_loop_cut [OF assms(1,2)] by (simp add: Declaration_Parse_def Let_def del: decl_loop.simps)
qed

section \<open>UTF-8 sequences\<close>

definition markup_free :: "string \<Rightarrow> bool" where
  "markup_free s \<longleftrightarrow> CHR ''<'' \<notin> set s \<and> CHR ''&'' \<notin> set s"

definition cut_off :: "string \<Rightarrow> bool" where
  "cut_off w \<longleftrightarrow> w \<noteq> [] \<and> length w < utf8ByteTable (hd w)"

lemma bom_long: "bom p \<Longrightarrow> 3 \<le> length p \<and> hd p = CHR 0xEF"
proof -
  assume b: "bom p"
  then have "length (take 3 p) = 3" by (auto simp: bom_def simp del: length_take)
  moreover have "hd (take 3 p) = CHR 0xEF" using b by (auto simp: bom_def simp del: hd_take)
  ultimately show ?thesis by simp
qed

lemma cut_off_char:
  assumes "cut_off w"
  shows "GetChar w U8 = Inl Out_of_bounds" "hd w \<noteq> CHR ''<''" "\<not> IsWhiteSpace (hd w)" "w \<noteq> []" "\<not> bom w"
proof -
  obtain c r where w: "w = c # r" "Suc (length r) < utf8ByteTable c" using assms by (cases w) (auto simp: cut_off_def)
  then have c: "0xC2 \<le> uchar c" by (auto simp: utf8ByteTable_def Let_def split: if_splits)
  show "hd w \<noteq> CHR ''<''" using c by (auto simp: w(1) uchar_def)
  show "\<not> IsWhiteSpace (hd w)" using c by (auto simp: w(1) IsWhiteSpace_def c_isspace_def uchar_def)
  show "GetChar w U8 = Inl Out_of_bounds" using w by (simp add: GetChar_Cons char_length_def)
  show "\<not> bom w"
    using bom_long [of w] w by (auto simp: utf8ByteTable_def uchar_def)
qed (use assms in \<open>simp add: cut_off_def\<close>)

lemma markup_free_drop: "markup_free s \<Longrightarrow> markup_free (drop n s)"
  by (auto simp: markup_free_def dest: in_set_dropD)

lemma white_length: "IsWhiteSpace c \<Longrightarrow> utf8ByteTable c = 1"
  by (auto simp: IsWhiteSpace_def c_isspace_def utf8ByteTable_def uchar_def Let_def)

text \<open>One whole character is read.\<close>

lemma whole_char:
  assumes "utf8_ok U8 (c # r)" "markup_free (c # r)"
  shows "GetChar (c # r @ w) U8 = Inr (take (utf8ByteTable c) (c # r), Some (drop (utf8ByteTable c - 1) r @ w))"
    "StringEqual (c # r @ w) ''<'' False U8 = Inr False"
proof -
  have n: "utf8ByteTable c \<le> Suc (length r)" "1 \<le> utf8ByteTable c" using assms(1) utf8ByteTable_bounds by (simp_all add: char_length_def)
  then show "GetChar (c # r @ w) U8 = Inr (take (utf8ByteTable c) (c # r), Some (drop (utf8ByteTable c - 1) r @ w))"
    using assms(2) by (auto simp: GetChar_Cons char_length_def markup_free_def drop_Cons' take_Cons')
  show "StringEqual (c # r @ w) ''<'' False U8 = Inr False" using assms(2) by (auto simp: StringEqual_def markup_free_def)
qed

lemma loops_cut:
  assumes "utf8_ok U8 s" "markup_free s" "cut_off w"
  shows "keep_loop (Some (s @ w)) ''<'' False U8 acc = Inl Out_of_bounds
    \<and> condense_loop (Some (s @ w)) ''<'' False U8 acc f = Inl Out_of_bounds"
  using assms(1,2)
proof (induction s arbitrary: acc f rule: length_induct)
  case (1 s)
  show ?case
  proof (cases s)
    case Nil
    obtain c r where w: "w = c # r" using cut_off_char(4) [OF assms(3)] by (cases w) auto
    show ?thesis using cut_off_char [OF assms(3)] Nil
      by (auto simp: w keep_loop_Cons condense_loop_Cons StringEqual_def)
  next
    case (Cons c r)
    let ?n = "utf8ByteTable c - 1"
    have ok: "utf8_ok U8 (drop ?n r)" "markup_free (drop ?n r)" "length (drop ?n r) < length s"
      using 1(2,3) Cons markup_free_drop [of s "Suc ?n"] by (auto simp: char_length_def)
    note IH = 1(1) [rule_format, OF ok(3,1,2)]
    note ch = whole_char [of c r w, OF 1(2,3) [unfolded Cons]]
    have "?n = 0" if "IsWhiteSpace c" using white_length [OF that] by simp
    then show ?thesis
      using IH ch by (auto simp: Cons keep_loop_Cons condense_loop_Cons)
  qed
qed

text \<open>A text that begins with neither white space nor a mark, so that nothing is skipped in front of it.\<close>

definition starts_here :: "string \<Rightarrow> bool" where
  "starts_here s \<longleftrightarrow> s = [] \<or> \<not> IsWhiteSpace (hd s) \<and> \<not> bom s"

lemma text_starts:
  assumes "utf8_ok U8 s" "markup_free s" "starts_here s" "cut_off w"
  shows "SkipWhiteSpace (Some (s @ w)) U8 = Some (s @ w)" "hd (s @ w) \<noteq> CHR ''<''" "s @ w \<noteq> []"
proof -
  show "s @ w \<noteq> []" "hd (s @ w) \<noteq> CHR ''<''"
    using assms(2) cut_off_char [OF assms(4)] by (cases s; auto simp: markup_free_def)+
  have "\<not> IsWhiteSpace (hd (s @ w))"
    using assms(3) cut_off_char [OF assms(4)] by (cases s) (auto simp: starts_here_def)
  moreover have "\<not> bom (s @ w)"
  proof
    assume b: "bom (s @ w)"
    have "s \<noteq> []" using b cut_off_char(5) [OF assms(4)] by auto
    then obtain r where "s = CHR 0xEF # r" using bom_long [OF b] by (cases s) auto
    then have "3 \<le> length s" using assms(1) by (simp add: char_length_def utf8ByteTable_def uchar_def)
    then have "bom s" using b by (simp add: bom_def)
    then show False using assms(3) \<open>s \<noteq> []\<close> by (simp add: starts_here_def)
  qed
  ultimately show "SkipWhiteSpace (Some (s @ w)) U8 = Some (s @ w)"
    using \<open>s @ w \<noteq> []\<close> by (intro Skip_stay)
qed

lemma Text_cut:
  assumes "utf8_ok U8 s" "markup_free s" "starts_here s" "cut_off w" "stamp_at U8 (s @ w) d = Inr (loc, d')"
  shows "Text_Parse condense U8 False (s @ w) d = Inl Out_of_bounds"
proof -
  note t = text_starts [OF assms(1-4)]
  have "StringEqual (s @ w) ''<![CDATA['' False U8 = Inr False"
    using t(2,3) by (cases "s @ w") (auto simp: StringEqual_def)
  moreover have "ReadText condense (Some (s @ w)) True ''<'' False U8 = Inl Out_of_bounds"
    using loops_cut [OF assms(1,2,4)] t(1) by (simp add: ReadText_def)
  ultimately show ?thesis using assms(5) by (simp add: Text_Parse_def)
qed

text \<open>The element whose text is cut off: its tag is read and the positions are counted, up to the text.\<close>

lemma element_cut:
  assumes "n \<noteq> []" "list_all (\<lambda>c. c_isalpha (uchar c)) n"
    and "utf8_ok U8 s" "markup_free s" "starts_here s" "cut_off w"
    and D: "d_text D = ''<'' @ n @ ''>'' @ s @ w" "stamp (d_data D) = 0"
  shows "Element_Parse (Suc (Suc (Suc k))) condense U8 (Some (''<'' @ n @ ''>'' @ s @ w)) D = Inl Out_of_bounds"
proof -
  let ?t = "s @ w" and ?s = "''<'' @ n @ ''>'' @ s @ w"
  have plain: "list_all (\<lambda>c. 32 \<le> uchar c \<and> uchar c < 128) (''<'' @ n @ ''>'')"
    using assms(2) alpha_plain by (auto simp: uchar_def [of "CHR ''<''"] uchar_def [of "CHR ''>''"] elim!: list.pred_mono_strong)
  obtain h m where h: "n = h # m" "name_start h" "\<not> IsWhiteSpace h" "h \<noteq> CHR 0xEF"
    using assms(1,2) alpha_char by (cases n) auto
  have nb: "\<not> bom (CHR ''<'' # x)" "\<not> bom (CHR ''>'' # x)" "\<not> bom (h # x)" for x
    using h(4) bom_long by fastforce+
  have sk: "SkipWhiteSpace (Some ?s) U8 = Some ?s" "SkipWhiteSpace (Some (n @ ''>'' @ ?t)) U8 = Some (n @ ''>'' @ ?t)"
    "SkipWhiteSpace (Some (''>'' @ ?t)) U8 = Some (''>'' @ ?t)"
    by (rule Skip_stay; use nb h in simp)+
  have name: "ReadName (Some (n @ ''>'' @ ?t)) = Inr (n, Some (''>'' @ ?t))"
  proof -
    have "list_all name_char n" using assms(2) alpha_char by (auto elim!: list.pred_mono_strong)
    then show ?thesis using good_name_read(1) [of n "CHR ''>''" ?t] h by (simp add: good_name_def)
  qed
  have "\<exists>loc D1. stamp_at U8 ?s D = Inr (loc, D1) \<and> d_text D1 = ?s \<and> stamp (d_data D1) = 0"
    using D by (simp add: stamp_at_def Stamp_def stamp_loop.simps [where now = 0])
  then obtain loc D1 where s0: "stamp_at U8 ?s D = Inr (loc, D1)" "d_text D1 = ?s" "stamp (d_data D1) = 0" by blast
  have l: "length (d_text D1) - length ?t = length (''<'' @ n @ ''>'')" by (simp add: s0(2))
  have "stamp_loop U8 ts ?s 0 (length (''<'' @ n @ ''>'')) rw cl \<noteq> None" for ts rw cl
    using stamp_loop_plain [of 0 ?s "''<'' @ n @ ''>''" ?t "length (''<'' @ n @ ''>'')" U8 ts rw cl] plain
    by (simp add: stamp_loop.simps [where p = "Suc (Suc (length n))" and now = "Suc (Suc (length n))"])
  then obtain y where "stamp_loop U8 (tabsize (d_data D1)) ?s 0 (length (''<'' @ n @ ''>''))
      (row (cursor (d_data D1))) (col (cursor (d_data D1))) = Some y" by blast
  then have "\<exists>loc' D'. stamp_at U8 ?t D1 = Inr (loc', D')"
    using l s0(2,3) by (cases y) (simp_all add: stamp_at_def Stamp_def split: prod.splits)
  then obtain loc' D' where s1: "stamp_at U8 ?t D1 = Inr (loc', D')" by blast
  note t = text_starts [OF assms(3-6)]
  have value_fault: "value_step el rv j condense U8 [] (Some ?t) D1 = Inl Out_of_bounds" for el rv j
  proof -
    obtain c r where cr: "?t = c # r" using t(3) by (cases ?t) auto
    show ?thesis
      using t(1,2) Text_cut [OF assms(3-6) s1, of condense] unfolding value_step_def cr by (cases condense) simp_all
  qed
  then have "attr_loop (Suc (Suc k)) condense U8 loc n [] (''>'' @ ?t) D1 = Inl Out_of_bounds"
    using sk(3) by (simp add: attr_step_def Let_def)
  then show ?thesis
    using sk(1,2) s0(1) name by (simp add: element_step_def Let_def del: attr_loop.simps)
qed

section \<open>Documents\<close>

lemma doc_loop_first:
  assumes "p \<noteq> []" "Identify p enc = Inr (Some k)"
    and "Node_Parse (Element_Parse m condense enc) m condense enc k p d = Inl e"
  shows "doc_loop (Suc m) condense enc ns (Some p) d = Inl e"
  using assms by simp

text \<open>Where the first node ends in a fault, so does the document.\<close>

lemma Document_fault:
  assumes "SkipWhiteSpace (Some q) enc = Some q" "q \<noteq> []" "take 3 q \<noteq> [CHR 0xEF, CHR 0xBB, CHR 0xBF] \<or> enc \<noteq> TIXML_ENCODING_UNKNOWN"
    and "Identify q enc = Inr (Some k)"
    and "\<And>d. d_text d = q \<Longrightarrow> stamp (d_data d) = 0 \<Longrightarrow>
      Node_Parse (Element_Parse (length q + 2) condense enc) (length q + 2) condense enc k q d = Inl e"
  shows "Document_Parse condense ns (Some q) prev enc d = Inl e"
proof -
  obtain c r where q: "q = c # r" using assms(2) by (cases q) auto
  have n: "length q + 3 = Suc (length q + 2)" by simp
  have "doc_loop (length q + 3) condense enc ns (Some q) d = Inl e" if "d_text d = q" "stamp (d_data d) = 0" for d
    unfolding n by (rule doc_loop_first [OF assms(2,4) assms(5) [OF that]])
  then show ?thesis
    using assms(1,3) unfolding Document_Parse_def Let_def q
    by (auto simp: TiXmlParsingData_def simp del: doc_loop.simps split: option.splits)
qed

text \<open>C36:
  The two other faults of parsing. A document that begins with a declaration which has any number of the
  words version, encoding and standalone with quoted values, and which is cut off behind a blank, fails the assertion of
  StringEqual. A UTF-8 document that is the tag of an element and a text without markup, cut off inside of
  its last character, makes GetChar step over the terminator, so that ReadText reads behind the buffer, with
  condensed white space and without.\<close>

theorem truncated_text_faults:
  assumes "list_all word_ok as" "list_all IsWhiteSpace ws"
    and "n \<noteq> []" "list_all (\<lambda>c. c_isalpha (uchar c)) n"
    and "utf8_ok TIXML_ENCODING_UTF8 s" "markup_free s" "starts_here s" "cut_off w"
  shows "Document_Parse condense ns (Some (''<?xml '' @ decl_words as @ ws)) prev TIXML_ENCODING_LEGACY d = Inl Assert_failed
    \<and> Document_Parse condense ns (Some (''<'' @ n @ ''>'' @ s @ w)) prev TIXML_ENCODING_UTF8 d = Inl Out_of_bounds"
proof (rule conjI; rule Document_fault)
  let ?q = "''<?xml '' @ decl_words as @ ws"
  show "SkipWhiteSpace (Some ?q) LEG = Some ?q" by (rule Skip_here) simp_all
  then show "Identify ?q LEG = Inr (Some Declaration_node)"
    by (simp add: Identify_def StringEqual_def)
  have len: "length ?q + 2 = Suc (length ?q + 1)" by simp
  show "Node_Parse (Element_Parse (length ?q + 2) condense LEG) (length ?q + 2) condense LEG Declaration_node ?q d
      = Inl Assert_failed" for d
    unfolding Node_Parse_def node_kind.case len by (rule declaration_cut [OF assms(1,2)]) simp
next
  let ?q = "''<'' @ n @ ''>'' @ s @ w"
  obtain h m where h: "n = h # m" "name_start h" "h \<notin> {CHR ''?'', CHR ''!''}"
    using assms(3,4) alpha_char by (cases n) auto
  have "\<not> bom ?q" using bom_long [of ?q] by auto
  then show sk: "SkipWhiteSpace (Some ?q) U8 = Some ?q" by (intro Skip_stay) simp_all
  have "ToLower U8 (CHR ''?'') \<noteq> ToLower U8 h"
    using h(3) schar_eq_iff [of h "CHR ''?''"] by (auto simp: ToLower_def c_tolower_def Let_def schar_def split: if_splits)
  then show "Identify ?q U8 = Inr (Some Element_node)"
    using h sk by (auto simp: Identify_def StringEqual_def)
  have len: "length ?q + 2 = Suc (Suc (Suc (length n + length s + length w + 1)))" by simp
  show "Node_Parse (Element_Parse (length ?q + 2) condense U8) (length ?q + 2) condense U8 Element_node ?q d = Inl Out_of_bounds"
    if "d_text d = ?q" "stamp (d_data d) = 0" for d
    unfolding Node_Parse_def node_kind.case len using assms(3-8) that by (rule element_cut)
qed auto

theorem truncated_text_faults_witness:
  "Document_Parse True [] (Some (''<?xml version='' @ [CHR 0x22] @ ''1.0'' @ [CHR 0x22] @ '' '')) None TIXML_ENCODING_LEGACY new_document
    = Inl Assert_failed
   \<and> Document_Parse True [] (Some (''<a>b'' @ [CHR 0xC3])) None TIXML_ENCODING_UTF8 new_document = Inl Out_of_bounds"
proof -
  have "list_all word_ok [(''version'', ''1.0'')]" "list_all (\<lambda>c. c_isalpha (uchar c)) ''a''" "utf8_ok U8 ''b''" "markup_free ''b''"
    "starts_here ''b''" "cut_off [CHR 0xC3]"
    by (simp_all add: word_ok_def good_declared_def c_isalpha_def uchar_def char_length_def utf8ByteTable_def markup_free_def
        starts_here_def cut_off_def IsWhiteSpace_def c_isspace_def bom_def)
  from truncated_text_faults [OF this(1) _ _ this(2-6), of "[]" True "[]" None new_document]
  show ?thesis by (simp add: decl_words_def clause_def)
qed

end
