(* ===== verification/IoMutex.thy ===== *)
theory IoMutex
  imports Prelude
begin

text \<open>
  \<open>io_mutex\<close>, \<open>io_lock\<close> and \<open>io_trylock\<close> (\<open>io/io_mutex.h\<close>, \<open>io/io_mutex.cpp\<close>): guards that threads
  make and destroy on a shared mutex, in any interleaving. The functions of the platform are a parameter with the
  contract \<open>lock_laws\<close>, which the critical sections of Windows and the mutexes of POSIX both fulfil.
\<close>

section \<open>The functions of the platform\<close>

text \<open>A function that blocks has no result. Threads are numbers.\<close>

record 'm lock_api =
  api_init :: 'm
  api_enter :: "nat \<Rightarrow> 'm \<Rightarrow> 'm option"
  api_try :: "nat \<Rightarrow> 'm \<Rightarrow> bool \<times> 'm"
  api_leave :: "nat \<Rightarrow> 'm \<Rightarrow> 'm"

text \<open>
  \<open>CRITICAL_SECTION\<close> (the \<open>__WIN__\<close> branch): the owner may enter again, and leaves as often as it has entered.
\<close>

record critical_section =
  cs_owner :: nat
  cs_count :: nat

definition EnterCriticalSection :: "nat \<Rightarrow> critical_section \<Rightarrow> critical_section option" where
  "EnterCriticalSection t m = (if cs_count m = 0 then Some \<lparr>cs_owner = t, cs_count = 1\<rparr>
     else if cs_owner m = t then Some (m\<lparr>cs_count := cs_count m + 1\<rparr>) else None)"

definition TryEnterCriticalSection :: "nat \<Rightarrow> critical_section \<Rightarrow> bool \<times> critical_section" where
  "TryEnterCriticalSection t m = (case EnterCriticalSection t m of None \<Rightarrow> (False, m) | Some m' \<Rightarrow> (True, m'))"

definition LeaveCriticalSection :: "nat \<Rightarrow> critical_section \<Rightarrow> critical_section" where
  "LeaveCriticalSection t m = m\<lparr>cs_count := cs_count m - 1\<rparr>"

definition win_api :: "critical_section lock_api" where
  "win_api = \<lparr>api_init = \<lparr>cs_owner = 0, cs_count = 0\<rparr>, api_enter = EnterCriticalSection,
     api_try = TryEnterCriticalSection, api_leave = LeaveCriticalSection\<rparr>"

text \<open>\<open>pthread_mutex_t\<close> with the default attributes (the other branch): the owner, which blocks itself when it enters again.\<close>

definition posix_api :: "nat option lock_api" where
  "posix_api = \<lparr>api_init = None, api_enter = (\<lambda>t m. if m = None then Some (Some t) else None),
     api_try = (\<lambda>t m. if m = None then (True, Some t) else (False, m)), api_leave = (\<lambda>t m. None)\<rparr>"

section \<open>The mutex and its guards\<close>

definition io_mutex :: "'m lock_api \<Rightarrow> 'm" where
  "io_mutex A = api_init A"

definition enter :: "'m lock_api \<Rightarrow> nat \<Rightarrow> 'm \<Rightarrow> 'm option" where
  "enter A t m = api_enter A t m"

definition try_enter :: "'m lock_api \<Rightarrow> nat \<Rightarrow> 'm \<Rightarrow> bool \<times> 'm" where
  "try_enter A t m = api_try A t m"

definition exit :: "'m lock_api \<Rightarrow> nat \<Rightarrow> 'm \<Rightarrow> 'm" where
  "exit A t m = api_leave A t m"

text \<open>A guard lies on the stack of the thread that made it; an \<open>io_trylock\<close> has its \<open>m_is_enter\<close>.\<close>

datatype guard = Lock (thread_of: nat) | Trylock (thread_of: nat) (m_is_enter: bool)

definition io_lock :: "'m lock_api \<Rightarrow> nat \<Rightarrow> 'm \<Rightarrow> (guard \<times> 'm) option" where
  "io_lock A t m = map_option (Pair (Lock t)) (enter A t m)"

definition io_trylock :: "'m lock_api \<Rightarrow> nat \<Rightarrow> 'm \<Rightarrow> guard \<times> 'm" where
  "io_trylock A t m = (case try_enter A t m of (e, m) \<Rightarrow> (Trylock t e, m))"

fun destroy_guard :: "'m lock_api \<Rightarrow> guard \<Rightarrow> 'm \<Rightarrow> 'm" where
  "destroy_guard A (Lock t) m = exit A t m"
| "destroy_guard A (Trylock t e) m = (if e then exit A t m else m)"

fun try_again :: "'m lock_api \<Rightarrow> guard \<Rightarrow> 'm \<Rightarrow> bool \<times> guard \<times> 'm" where
  "try_again A (Trylock t e) m = (if \<not> e then case try_enter A t m of (e, m) \<Rightarrow> (e, Trylock t e, m)
     else (e, Trylock t e, m))"
| "try_again A (Lock t) m = (True, Lock t, m)"

section \<open>Threads\<close>

record 'm gworld =
  mutex :: 'm
  guards :: "nat \<Rightarrow> guard option"

definition gstart :: "'m lock_api \<Rightarrow> 'm gworld" where
  "gstart A = \<lparr>mutex = io_mutex A, guards = (\<lambda>_. None)\<rparr>"

inductive guard_step :: "'m lock_api \<Rightarrow> 'm gworld \<Rightarrow> 'm gworld \<Rightarrow> bool" for A where
  step_lock: "guards w g = None \<Longrightarrow> io_lock A t (mutex w) = Some (x, m) \<Longrightarrow>
    guard_step A w \<lparr>mutex = m, guards = (guards w)(g \<mapsto> x)\<rparr>"
| step_trylock: "guards w g = None \<Longrightarrow> io_trylock A t (mutex w) = (x, m) \<Longrightarrow>
    guard_step A w \<lparr>mutex = m, guards = (guards w)(g \<mapsto> x)\<rparr>"
| step_again: "guards w g = Some (Trylock t e) \<Longrightarrow> try_again A (Trylock t e) (mutex w) = (r, x, m) \<Longrightarrow>
    guard_step A w \<lparr>mutex = m, guards = (guards w)(g \<mapsto> x)\<rparr>"
| step_destroy: "guards w g = Some x \<Longrightarrow>
    guard_step A w \<lparr>mutex = destroy_guard A x (mutex w), guards = (guards w)(g := None)\<rparr>"

inductive reachable_guards :: "'m lock_api \<Rightarrow> 'm gworld \<Rightarrow> bool" for A where
  reach_start: "reachable_guards A (gstart A)"
| reach_step: "reachable_guards A w \<Longrightarrow> guard_step A w w' \<Longrightarrow> reachable_guards A w'"

inductive_cases guard_stepE: "guard_step A w w'"

fun holding :: "guard \<Rightarrow> bool" where
  "holding (Lock t) = True"
| "holding (Trylock t e) = e"

text \<open>The guards of a thread that hold the mutex.\<close>

definition holders :: "'m gworld \<Rightarrow> nat \<Rightarrow> nat set" where
  "holders w t = {g. \<exists>x. guards w g = Some x \<and> holding x \<and> thread_of x = t}"

section \<open>The contract of the platform\<close>

text \<open>\<open>depth m t\<close>: how often the thread has entered and not left.\<close>

locale lock_laws =
  fixes A :: "'m lock_api" and depth :: "'m \<Rightarrow> nat \<Rightarrow> nat"
  assumes depth_init: "depth (api_init A) t = 0"
    and depth_enter: "api_enter A t m = Some m' \<Longrightarrow> depth m' = (depth m)(t := depth m t + 1) \<and> (\<forall>u. u \<noteq> t \<longrightarrow> depth m u = 0)"
    and depth_try: "api_try A t m = (e, m') \<Longrightarrow>
      if e then depth m' = (depth m)(t := depth m t + 1) \<and> (\<forall>u. u \<noteq> t \<longrightarrow> depth m u = 0) else m' = m"
    and depth_leave: "0 < depth m t \<Longrightarrow> depth (api_leave A t m) = (depth m)(t := depth m t - 1)"
begin

definition ginv :: "'m gworld \<Rightarrow> bool" where
  "ginv w \<longleftrightarrow> (\<forall>t. finite (holders w t) \<and> depth (mutex w) t = card (holders w t))
     \<and> (\<forall>t u. 0 < depth (mutex w) t \<longrightarrow> 0 < depth (mutex w) u \<longrightarrow> t = u)"

lemma holders_put:
  "g \<notin> holders w t \<Longrightarrow> holders \<lparr>mutex = m, guards = (guards w)(g \<mapsto> x)\<rparr> t
    = (if holding x \<and> t = thread_of x then insert g (holders w t) else holders w t)"
  by (auto simp: holders_def)

lemma not_holder: "guards w g = None \<Longrightarrow> g \<notin> holders w t" "guards w g = Some y \<Longrightarrow> \<not> holding y \<Longrightarrow> g \<notin> holders w t"
  by (auto simp: holders_def)

lemma holders_gone:
  "guards w g = Some x \<Longrightarrow> holders \<lparr>mutex = m, guards = (guards w)(g := None)\<rparr> t = holders w t - {g}
    \<and> (g \<in> holders w t \<longleftrightarrow> holding x \<and> thread_of x = t)"
  by (auto simp: holders_def)

lemma ginv_entered:
  assumes "ginv w" "\<And>s. g \<notin> holders w s" "\<And>s. holders w' s = (if s = t then insert g (holders w s) else holders w s)"
    and "depth (mutex w') = (depth (mutex w))(t := depth (mutex w) t + 1)" "\<forall>u. u \<noteq> t \<longrightarrow> depth (mutex w) u = 0"
  shows "ginv w'"
proof -
  have f: "finite (holders w s)" "depth (mutex w) s = card (holders w s)" for s using assms(1) by (auto simp: ginv_def)
  have "finite (holders w' s) \<and> depth (mutex w') s = card (holders w' s)" for s
    using f assms(2) by (cases "s = t") (simp_all add: assms(3,4))
  moreover have "0 < depth (mutex w') s \<Longrightarrow> s = t" for s using assms(5) by (auto simp: assms(4) split: if_splits)
  ultimately show ?thesis unfolding ginv_def by metis
qed

lemma ginv_same: "ginv w \<Longrightarrow> (\<And>s. holders w' s = holders w s) \<Longrightarrow> depth (mutex w') = depth (mutex w) \<Longrightarrow> ginv w'"
  unfolding ginv_def by simp

lemma ginv_step: "guard_step A w w' \<Longrightarrow> ginv w \<Longrightarrow> ginv w'"
proof (induction rule: guard_step.induct)
  case (step_lock w g t x m)
  then obtain m' where e: "api_enter A t (mutex w) = Some m" and x: "x = Lock t" by (auto simp: io_lock_def enter_def)
  show ?case by (rule ginv_entered [OF step_lock.prems, where t = t and g = g])
      (use not_holder(1) [OF step_lock.hyps(1)] depth_enter [OF e] x in \<open>simp_all add: holders_put\<close>)
next
  case (step_trylock w g t x m)
  then obtain e where e: "api_try A t (mutex w) = (e, m)" "x = Trylock t e"
    by (auto simp: io_trylock_def try_enter_def split: prod.splits)
  show ?case
  proof (cases e)
    case True
    show ?thesis by (rule ginv_entered [OF step_trylock.prems, where t = t and g = g])
      (use not_holder(1) [OF step_trylock.hyps(1)] depth_try [OF e(1)] e(2) True in \<open>simp_all add: holders_put\<close>)
  next
    case False
    show ?thesis by (rule ginv_same [OF step_trylock.prems])
      (use not_holder(1) [OF step_trylock.hyps(1)] depth_try [OF e(1)] e(2) False in \<open>simp_all add: holders_put\<close>)
  qed
next
  case (step_again w g t e r x m)
  show ?case
  proof (cases e)
    case True
    then have "x = Trylock t e" "m = mutex w" using step_again.hyps(2) by auto
    then show ?thesis using step_again.hyps(1) by (intro ginv_same [OF step_again.prems]) (auto simp: holders_def)
  next
    case False
    then obtain e' where e: "api_try A t (mutex w) = (e', m)" "x = Trylock t e'"
      using step_again.hyps(2) by (auto simp: try_enter_def split: prod.splits)
    have h: "g \<notin> holders w s" for s using not_holder(2) [OF step_again.hyps(1)] False by simp
    show ?thesis
    proof (cases e')
      case True
      show ?thesis by (rule ginv_entered [OF step_again.prems, where t = t and g = g])
        (use h depth_try [OF e(1)] e(2) True in \<open>simp_all add: holders_put\<close>)
    next
      case False
      show ?thesis by (rule ginv_same [OF step_again.prems])
        (use h depth_try [OF e(1)] e(2) False in \<open>simp_all add: holders_put\<close>)
    qed
  qed
next
  case (step_destroy w g x)
  let ?w = "\<lparr>mutex = destroy_guard A x (mutex w), guards = (guards w)(g := None)\<rparr>"
  note h = holders_gone [OF step_destroy.hyps, of "mutex ?w"]
  show ?case
  proof (cases "holding x")
    case True
    let ?t = "thread_of x"
    have g: "g \<in> holders w ?t" using h True by simp
    then have d: "0 < depth (mutex w) ?t" using step_destroy.prems by (auto simp: ginv_def card_gt_0_iff)
    have "mutex ?w = api_leave A ?t (mutex w)" using True by (cases x) (auto simp: exit_def)
    then have "depth (mutex ?w) = (depth (mutex w))(?t := depth (mutex w) ?t - 1)" using depth_leave [OF d] by simp
    moreover have "card (holders ?w s) = (if s = ?t then card (holders w s) - 1 else card (holders w s))" for s
      using h [of s] g by auto
    moreover have "finite (holders ?w s)" for s using h [of s] step_destroy.prems by (auto simp: ginv_def)
    ultimately show ?thesis using step_destroy.prems by (auto simp: ginv_def split: if_splits)
  next
    case False
    then have "mutex ?w = mutex w" by (cases x) auto
    then show ?thesis using h False by (intro ginv_same [OF step_destroy.prems]) auto
  qed
qed

lemma ginv_reachable: "reachable_guards A w \<Longrightarrow> ginv w"
proof (induction rule: reachable_guards.induct)
  case reach_start
  then show ?case by (auto simp: ginv_def gstart_def holders_def io_mutex_def depth_init)
qed (rule ginv_step)

lemma guards_exclude:
  assumes "reachable_guards A w" "guards w g = Some x" "guards w g' = Some y" "holding x" "holding y"
  shows "thread_of x = thread_of y"
proof -
  have "ginv w" by (rule ginv_reachable [OF assms(1)])
  moreover have "g \<in> holders w (thread_of x)" "g' \<in> holders w (thread_of y)" using assms by (auto simp: holders_def)
  ultimately show ?thesis by (auto simp: ginv_def card_gt_0_iff) (metis card_gt_0_iff empty_iff)
qed

lemma guards_counted:
  assumes "reachable_guards A w"
  shows "depth (mutex w) t = card (holders w t)"
  using ginv_reachable [OF assms] by (simp add: ginv_def)

end

definition cs_depth :: "critical_section \<Rightarrow> nat \<Rightarrow> nat" where
  "cs_depth m t = (if cs_owner m = t then cs_count m else 0)"

interpretation win: lock_laws win_api cs_depth
  by unfold_locales (auto simp: win_api_def cs_depth_def fun_eq_iff EnterCriticalSection_def TryEnterCriticalSection_def
    LeaveCriticalSection_def split: if_splits)

interpretation posix: lock_laws posix_api "\<lambda>m t. if m = Some t then 1 else 0"
  by unfold_locales (auto simp: posix_api_def fun_eq_iff split: if_splits)

text \<open>C20:
  Whatever the interleaving in which threads make guards on an \<open>io_mutex\<close>, try again and destroy them, two
  guards that hold the mutex belong to the same thread, the critical section counts the guards of its owner
  that hold it, and once all guards are destroyed every thread can lock it at once.\<close>

theorem mutex_guards_exclude:
  assumes "reachable_guards win_api w"
  shows "(\<forall>g g' x y. guards w g = Some x \<and> guards w g' = Some y \<and> holding x \<and> holding y \<longrightarrow> thread_of x = thread_of y)
    \<and> (\<forall>t. cs_depth (mutex w) t = card (holders w t))
    \<and> ((\<forall>g. guards w g = None) \<longrightarrow> (\<forall>t. io_lock win_api t (mutex w) \<noteq> None))"
proof (intro conjI impI allI)
  show "thread_of x = thread_of y" if "guards w g = Some x \<and> guards w g' = Some y \<and> holding x \<and> holding y" for g g' x y
    using win.guards_exclude [OF assms] that by blast
  show c: "cs_depth (mutex w) t = card (holders w t)" for t by (rule win.guards_counted [OF assms])
  show "io_lock win_api t (mutex w) \<noteq> None" if "\<forall>g. guards w g = None" for t
    using c [of "cs_owner (mutex w)"] that
    by (simp add: cs_depth_def holders_def io_lock_def enter_def win_api_def EnterCriticalSection_def)
qed

theorem mutex_guards_exclude_witness:
  "\<exists>m. cs_depth m 1 = 1 \<and> reachable_guards win_api \<lparr>mutex = m, guards = [0 \<mapsto> Lock 1]\<rparr>"
proof -
  let ?w = "\<lparr>mutex = \<lparr>cs_owner = 1, cs_count = 1\<rparr>, guards = (guards (gstart win_api))(0 \<mapsto> Lock 1)\<rparr>"
  have r: "reachable_guards win_api ?w"
    by (rule reach_step [OF reach_start step_lock])
      (simp_all add: gstart_def io_mutex_def io_lock_def enter_def win_api_def EnterCriticalSection_def)
  have "holders ?w 1 = {0}" by (auto simp: holders_def gstart_def split: if_splits)
  then have "cs_depth (mutex ?w) 1 = 1" using mutex_guards_exclude [OF r] by simp
  then show ?thesis using r by (auto simp: gstart_def)
qed

end
