(* ===== verification/Address.thy ===== *)
theory Address
  imports ByteOrder
begin

text \<open>
  \<open>CAddress\<close> (\<open>net/Address.cpp\<close>): an IPv4 address and port behind a shared pointer, and the conversion
  of host names. The functions of Winsock are the parameter \<open>W\<close>. What the constructors print is not modelled.
\<close>

section \<open>Winsock\<close>

record sockaddr_in =
  sin_family :: uint16
  sin_port :: uint16
  s_addr :: uint32

text \<open>The first address of a \<open>hostent\<close> is the memory behind \<open>h_addr\<close>; a null pointer is \<open>None\<close>.\<close>

record hostent =
  h_addr :: "byte list option"
  h_length :: nat

record winsock =
  inet_addr :: "string \<Rightarrow> uint32"
  inet_ntoa :: "uint32 \<Rightarrow> string"
  htons :: "uint16 \<Rightarrow> uint16"
  ntohs :: "uint16 \<Rightarrow> uint16"
  htonl :: "uint32 \<Rightarrow> uint32"
  gethostbyname :: "string \<Rightarrow> hostent option"

definition INADDR_ANY :: uint32 where "INADDR_ANY = 0"
definition INADDR_NONE :: uint32 where "INADDR_NONE = 0xFFFFFFFF"
definition AF_INET :: uint16 where "AF_INET = 2"

definition no_addr :: sockaddr_in where
  "no_addr = \<lparr>sin_family = 0, sin_port = 0, s_addr = 0\<rparr>"

section \<open>Addresses behind shared pointers\<close>

text \<open>A \<open>CAddr\<close> with its use count. An address object is the pointer that it holds, which is null until it is set.\<close>

record caddrs =
  cells :: "nat \<Rightarrow> (nat \<times> sockaddr_in) option"
  cnext :: nat

type_synonym shared = "nat option"

definition CAddr_new :: "sockaddr_in \<Rightarrow> caddrs \<Rightarrow> shared \<times> caddrs" where
  "CAddr_new a h = (Some (cnext h), h\<lparr>cells := (cells h)(cnext h \<mapsto> (1, a)), cnext := Suc (cnext h)\<rparr>)"

definition m_addr :: "shared \<Rightarrow> caddrs \<Rightarrow> sockaddr_in res" where
  "m_addr p h = (case p of None \<Rightarrow> Inl Null_deref
     | Some c \<Rightarrow> (case cells h c of None \<Rightarrow> Inl Use_after_free | Some (_, a) \<Rightarrow> Inr a))"

text \<open>What the destructor of a shared pointer, and the assignment to one, do with the old pointer.\<close>

definition release :: "shared \<Rightarrow> caddrs \<Rightarrow> caddrs res" where
  "release p h = (case p of None \<Rightarrow> Inr h
     | Some c \<Rightarrow> (case cells h c of None \<Rightarrow> Inl Use_after_free
         | Some (n, a) \<Rightarrow> Inr (h\<lparr>cells := (cells h)(c := if n \<le> 1 then None else Some (n - 1, a))\<rparr>)))"

definition reset :: "shared \<Rightarrow> sockaddr_in \<Rightarrow> caddrs \<Rightarrow> (shared \<times> caddrs) res" where
  "reset p a h = (case CAddr_new a h of (q, h) \<Rightarrow> bindr (release p h) (\<lambda>h. Inr (q, h)))"

definition CAddress :: "caddrs \<Rightarrow> (shared \<times> caddrs) res" where
  "CAddress h = reset None no_addr h"

definition CAddress_port :: "winsock \<Rightarrow> uint16 \<Rightarrow> caddrs \<Rightarrow> (shared \<times> caddrs) res" where
  "CAddress_port W uport h = reset None \<lparr>sin_family = AF_INET, sin_port = htons W uport, s_addr = htonl W INADDR_ANY\<rparr> h"

definition CAddress_ip :: "winsock \<Rightarrow> string \<Rightarrow> uint16 \<Rightarrow> caddrs \<Rightarrow> (shared \<times> caddrs) res" where
  "CAddress_ip W ip uport h = reset None \<lparr>sin_family = AF_INET, sin_port = htons W uport, s_addr = inet_addr W ip\<rparr> h"

definition CAddress_addr :: "sockaddr_in \<Rightarrow> caddrs \<Rightarrow> (shared \<times> caddrs) res" where
  "CAddress_addr a h = reset None a h"

definition assign :: "shared \<Rightarrow> shared \<Rightarrow> caddrs \<Rightarrow> (shared \<times> caddrs) res" where
  "assign this addr h = bindr (m_addr addr h) (\<lambda>a. reset this a h)"

definition assign_addr :: "shared \<Rightarrow> sockaddr_in \<Rightarrow> caddrs \<Rightarrow> (shared \<times> caddrs) res" where
  "assign_addr this a h = reset this a h"

definition CAddress_copy :: "shared \<Rightarrow> caddrs \<Rightarrow> (shared \<times> caddrs) res" where
  "CAddress_copy addr h = assign None addr h"

definition CAddress_destroy :: "shared \<Rightarrow> caddrs \<Rightarrow> caddrs res" where
  "CAddress_destroy this h = release this h"

definition toPort :: "winsock \<Rightarrow> shared \<Rightarrow> caddrs \<Rightarrow> uint16 res" where
  "toPort W this h = bindr (m_addr this h) (\<lambda>a. Inr (ntohs W (sin_port a)))"

definition totIp :: "winsock \<Rightarrow> shared \<Rightarrow> caddrs \<Rightarrow> string res" where
  "totIp W this h = bindr (m_addr this h) (\<lambda>a. Inr (inet_ntoa W (s_addr a)))"

text \<open>The value, which \<open>GetSocketAddrIn\<close> and the conversions give, and a write through the reference or pointer they give.\<close>

definition GetSocketAddrIn :: "shared \<Rightarrow> caddrs \<Rightarrow> sockaddr_in res" where
  "GetSocketAddrIn this h = m_addr this h"

definition write_through :: "shared \<Rightarrow> sockaddr_in \<Rightarrow> caddrs \<Rightarrow> caddrs res" where
  "write_through this a h = bindr (m_addr this h) (\<lambda>_. case this of None \<Rightarrow> Inl Null_deref
     | Some c \<Rightarrow> Inr (h\<lparr>cells := (cells h)(c := map_option (\<lambda>(n, _). (n, a)) (cells h c))\<rparr>))"

definition addr_eq :: "winsock \<Rightarrow> shared \<Rightarrow> shared \<Rightarrow> caddrs \<Rightarrow> bool res" where
  "addr_eq W this rAddr h =
     bindr (toPort W this h) (\<lambda>p. bindr (toPort W rAddr h) (\<lambda>q.
     if p \<noteq> q then Inr False
     else bindr (totIp W this h) (\<lambda>i. bindr (totIp W rAddr h) (\<lambda>j. Inr (i = j)))))"

definition toString :: "winsock \<Rightarrow> shared \<Rightarrow> caddrs \<Rightarrow> string res" where
  "toString W this h = bindr (m_addr this h) (\<lambda>a.
     Inr (inet_ntoa W (s_addr a) @ '':'' @ decimal (unat (htons W (sin_port a)))))"

section \<open>Host names\<close>

text \<open>\<open>memcpy\<close> of \<open>n\<close> bytes from a block into an object of 4 bytes.\<close>

definition memcpy4 :: "byte list \<Rightarrow> byte list option \<Rightarrow> nat \<Rightarrow> byte list res" where
  "memcpy4 dst src n = (case src of None \<Rightarrow> if n = 0 then Inr dst else Inl Null_deref
     | Some bs \<Rightarrow> if n \<le> length bs \<and> n \<le> 4 then Inr (take n bs @ drop n dst) else Inl Out_of_bounds)"

text \<open>The code returned and the four bytes of \<open>inaddr\<close>.\<close>

definition tcp_gethost :: "bool \<Rightarrow> winsock \<Rightarrow> string \<Rightarrow> byte list \<Rightarrow> (int \<times> byte list) res" where
  "tcp_gethost be W addr inaddr =
     (let iadd = inet_addr W addr in
      if INADDR_NONE \<noteq> iadd then bindr (memcpy4 inaddr (Some (mem32 be iadd)) 4) (\<lambda>b. Inr (0, b))
      else case gethostbyname W addr of
          Some host \<Rightarrow> bindr (memcpy4 inaddr (h_addr host) (h_length host)) (\<lambda>b. Inr (0, b))
        | None \<Rightarrow> Inr (-1, inaddr))"

text \<open>The variable \<open>inaddr\<close> of \<open>toHost\<close> is not initialised: \<open>junk\<close> is what it holds.\<close>

definition toHost :: "bool \<Rightarrow> byte list \<Rightarrow> winsock \<Rightarrow> string \<Rightarrow> string res" where
  "toHost be junk W addr =
     (let iadd = inet_addr W addr in
      if iadd \<noteq> - 1 then Inr addr
      else case gethostbyname W addr of
          Some host \<Rightarrow> bindr (memcpy4 junk (h_addr host) (h_length host)) (\<lambda>b. Inr (inet_ntoa W (load32 be b)))
        | None \<Rightarrow> Inr addr)"

section \<open>Objects and values\<close>

text \<open>What a program does with address objects; an object is known by a number.\<close>

datatype addr_call =
    New nat sockaddr_in
  | Copy nat nat
  | Assign nat nat
  | Assign_addr nat sockaddr_in
  | Write nat sockaddr_in
  | Destroy nat

type_synonym objects = "nat \<Rightarrow> shared option"

fun run_call :: "addr_call \<Rightarrow> objects \<times> caddrs \<Rightarrow> (objects \<times> caddrs) res" where
  "run_call (New x a) (s, h) = bindr (CAddress_addr a h) (\<lambda>(p, h). Inr (s(x \<mapsto> p), h))"
| "run_call (Copy x y) (s, h) = bindr (CAddress_copy (the (s y)) h) (\<lambda>(p, h). Inr (s(x \<mapsto> p), h))"
| "run_call (Assign x y) (s, h) = bindr (assign (the (s x)) (the (s y)) h) (\<lambda>(p, h). Inr (s(x \<mapsto> p), h))"
| "run_call (Assign_addr x a) (s, h) = bindr (assign_addr (the (s x)) a h) (\<lambda>(p, h). Inr (s(x \<mapsto> p), h))"
| "run_call (Write x a) (s, h) = bindr (write_through (the (s x)) a h) (\<lambda>h. Inr (s, h))"
| "run_call (Destroy x) (s, h) = bindr (CAddress_destroy (the (s x)) h) (\<lambda>h. Inr (s(x := None), h))"

text \<open>The calls that C++ allows: an object is made where there is none and used while it lives.\<close>

fun call_ok :: "addr_call \<Rightarrow> (nat \<rightharpoonup> 'a) \<Rightarrow> bool" where
  "call_ok (New x a) s \<longleftrightarrow> s x = None"
| "call_ok (Copy x y) s \<longleftrightarrow> s x = None \<and> s y \<noteq> None"
| "call_ok (Assign x y) s \<longleftrightarrow> s x \<noteq> None \<and> s y \<noteq> None"
| "call_ok (Assign_addr x a) s \<longleftrightarrow> s x \<noteq> None"
| "call_ok (Write x a) s \<longleftrightarrow> s x \<noteq> None"
| "call_ok (Destroy x) s \<longleftrightarrow> s x \<noteq> None"

text \<open>The same with objects that hold their value.\<close>

fun val_call :: "addr_call \<Rightarrow> (nat \<rightharpoonup> sockaddr_in) \<Rightarrow> (nat \<rightharpoonup> sockaddr_in)" where
  "val_call (New x a) v = v(x \<mapsto> a)"
| "val_call (Copy x y) v = v(x := v y)"
| "val_call (Assign x y) v = v(x := v y)"
| "val_call (Assign_addr x a) v = v(x \<mapsto> a)"
| "val_call (Write x a) v = v(x \<mapsto> a)"
| "val_call (Destroy x) v = v(x := None)"

text \<open>Every object owns a cell of its own, every cell has an owner and no cell lies above the next free one.\<close>

definition addr_inv :: "objects \<times> caddrs \<Rightarrow> bool" where
  "addr_inv st \<longleftrightarrow> (case st of (s, h) \<Rightarrow>
     (\<forall>x p. s x = Some p \<longrightarrow> (\<exists>c a. p = Some c \<and> cells h c = Some (1, a)))
     \<and> (\<forall>x y p. s x = Some p \<longrightarrow> s y = Some p \<longrightarrow> x = y)
     \<and> (\<forall>c. cells h c \<noteq> None \<longrightarrow> c < cnext h \<and> (\<exists>x. s x = Some (Some c))))"

definition addr_abs :: "objects \<times> caddrs \<Rightarrow> (nat \<rightharpoonup> sockaddr_in)" where
  "addr_abs st x = (case fst st x of None \<Rightarrow> None
     | Some p \<Rightarrow> (case m_addr p (snd st) of Inl _ \<Rightarrow> None | Inr a \<Rightarrow> Some a))"

lemma addr_invI:
  assumes "\<And>x p. s x = Some p \<Longrightarrow> \<exists>c a. p = Some c \<and> cells h c = Some (1, a)"
    and "\<And>x y p. s x = Some p \<Longrightarrow> s y = Some p \<Longrightarrow> x = y"
    and "\<And>c n. cells h c = Some n \<Longrightarrow> c < cnext h \<and> (\<exists>x. s x = Some (Some c))"
  shows "addr_inv (s, h)"
  using assms unfolding addr_inv_def by blast

lemma addr_invD:
  assumes "addr_inv (s, h)"
  shows "s x = Some p \<Longrightarrow> \<exists>c a. p = Some c \<and> c < cnext h \<and> cells h c = Some (1, a)"
    and "s x = Some p \<Longrightarrow> s y = Some p \<Longrightarrow> x = y"
    and "cells h c = Some n \<Longrightarrow> c < cnext h \<and> (\<exists>x. s x = Some (Some c))"
proof -
  have i: "\<And>x p. s x = Some p \<Longrightarrow> \<exists>c a. p = Some c \<and> cells h c = Some (1, a)"
    "\<And>c n. cells h c = Some n \<Longrightarrow> c < cnext h \<and> (\<exists>x. s x = Some (Some c))"
    using assms unfolding addr_inv_def by blast+
  show "s x = Some p \<Longrightarrow> \<exists>c a. p = Some c \<and> c < cnext h \<and> cells h c = Some (1, a)" using i by blast
  show "s x = Some p \<Longrightarrow> s y = Some p \<Longrightarrow> x = y" using assms unfolding addr_inv_def by blast
  show "cells h c = Some n \<Longrightarrow> c < cnext h \<and> (\<exists>x. s x = Some (Some c))" using i by blast
qed

text \<open>The object \<open>x\<close> gets a new cell and gives up the one that it had, if it had one.\<close>

lemma renewed:
  fixes a :: sockaddr_in
  assumes "addr_inv (s, h)" "s x = None \<and> d = {} \<or> s x = Some (Some c) \<and> d = {c}"
  defines "h' \<equiv> h\<lparr>cells := (\<lambda>b. if b \<in> d then None else if b = cnext h then Some (1, a) else cells h b), cnext := Suc (cnext h)\<rparr>"
  shows "addr_inv (s(x \<mapsto> Some (cnext h)), h')" "addr_abs (s(x \<mapsto> Some (cnext h)), h') = (addr_abs (s, h))(x \<mapsto> a)"
proof -
  note D = addr_invD [OF assms(1)]
  have d: "b \<in> d \<Longrightarrow> b < cnext h \<and> s x = Some (Some b)" for b using assms(2) D(1) [of x] by auto
  have old: "\<exists>b v. q = Some b \<and> b < cnext h \<and> b \<notin> d \<and> cells h b = Some (1, v)" if "s y = Some q" "y \<noteq> x" for y q
    using D(1) [OF that(1)] D(2) [OF that(1), of x] d that(2) by auto
  have n: "cnext h \<notin> d" using d by blast
  show "addr_inv (s(x \<mapsto> Some (cnext h)), h')"
  proof (rule addr_invI)
    fix y q assume "(s(x \<mapsto> Some (cnext h))) y = Some q"
    then show "\<exists>c a. q = Some c \<and> cells h' c = Some (1, a)"
      using old [of y q] n by (cases "y = x") (auto simp: h'_def)
  next
    fix y z q assume q: "(s(x \<mapsto> Some (cnext h))) y = Some q" "(s(x \<mapsto> Some (cnext h))) z = Some q"
    then show "y = z"
      using old [of y q] old [of z q] D(2) [of y q z] by (cases "y = x"; cases "z = x") auto
  next
    fix b v assume "cells h' b = Some v"
    then have b: "b \<notin> d" "b = cnext h \<or> cells h b = Some v" by (auto simp: h'_def split: if_splits)
    show "b < cnext h' \<and> (\<exists>y. (s(x \<mapsto> Some (cnext h))) y = Some (Some b))"
    proof (cases "b = cnext h")
      case False
      then obtain y where y: "b < cnext h" "s y = Some (Some b)" using b(2) D(3) by blast
      have "y \<noteq> x" using y b(1) assms(2) by auto
      then show ?thesis using y by (auto simp: h'_def)
    qed (auto simp: h'_def)
  qed
  show "addr_abs (s(x \<mapsto> Some (cnext h)), h') = (addr_abs (s, h))(x \<mapsto> a)"
  proof
    fix y show "addr_abs (s(x \<mapsto> Some (cnext h)), h') y = ((addr_abs (s, h))(x \<mapsto> a)) y"
    proof (cases "y = x")
      case False
      then show ?thesis using old [of y] by (cases "s y") (auto simp: addr_abs_def m_addr_def h'_def)
    qed (use n in \<open>simp add: addr_abs_def m_addr_def h'_def\<close>)
  qed
qed

lemma reset_refines:
  assumes "addr_inv (s, h)" "p = (case s x of None \<Rightarrow> None | Some p \<Rightarrow> p)"
  shows "\<exists>q h'. reset p a h = Inr (q, h') \<and> addr_inv (s(x \<mapsto> q), h') \<and> addr_abs (s(x \<mapsto> q), h') = (addr_abs (s, h))(x \<mapsto> a)"
proof (cases "s x")
  case None
  then show ?thesis using assms(2) renewed [OF assms(1), of x "{}" _ a]
    by (auto simp: reset_def CAddr_new_def release_def fun_upd_def if_distrib cong: if_cong)
next
  case (Some p')
  then obtain c v where c: "p = Some c" "s x = Some (Some c)" "c < cnext h" "cells h c = Some (1, v)"
    using addr_invD(1) [OF assms(1) Some] assms(2) by auto
  then have "reset p a h = Inr (Some (cnext h), h\<lparr>cells := (\<lambda>b. if b \<in> {c} then None else if b = cnext h then Some (1, a) else cells h b), cnext := Suc (cnext h)\<rparr>)"
    by (auto simp: reset_def CAddr_new_def release_def fun_eq_iff)
  then show ?thesis using renewed [OF assms(1), of x "{c}" c a] c(2) by blast
qed

lemma read_value:
  assumes "addr_inv (s, h)" "s x = Some p"
  shows "\<exists>a. m_addr p h = Inr a \<and> addr_abs (s, h) x = Some a"
  using addr_invD(1) [OF assms] assms(2) by (auto simp: m_addr_def addr_abs_def)

lemma call_refines:
  assumes "addr_inv (s, h)" "call_ok c s"
  shows "\<exists>st. run_call c (s, h) = Inr st \<and> addr_inv st \<and> addr_abs st = val_call c (addr_abs (s, h))"
proof (cases c)
  case (New x a)
  then show ?thesis using reset_refines [OF assms(1), of None x a] assms(2) by (auto simp: CAddress_addr_def)
next
  case (Copy x y)
  then obtain p a where "s y = Some p" "m_addr p h = Inr a" "addr_abs (s, h) y = Some a"
    using assms read_value [OF assms(1), of y] by auto
  then show ?thesis using reset_refines [OF assms(1), of None x a] assms(2) Copy
    by (auto simp: CAddress_copy_def assign_def)
next
  case (Assign x y)
  then obtain p q a where "s x = Some q" "s y = Some p" "m_addr p h = Inr a" "addr_abs (s, h) y = Some a"
    using assms read_value [OF assms(1), of y] by auto
  then show ?thesis using reset_refines [OF assms(1), of q x a] Assign by (auto simp: assign_def)
next
  case (Assign_addr x a)
  then obtain q where "s x = Some q" using assms(2) by auto
  then show ?thesis using reset_refines [OF assms(1), of q x a] Assign_addr by (auto simp: assign_addr_def)
next
  case (Write x a)
  then obtain p where "s x = Some p" using assms(2) by auto
  then obtain d v where d: "s x = Some (Some d)" "cells h d = Some (1, v)" using addr_invD(1) [OF assms(1)] by blast
  let ?h = "h\<lparr>cells := (cells h)(d \<mapsto> (1, a))\<rparr>"
  note D = addr_invD [OF assms(1)]
  have i: "addr_inv (s, ?h)"
  proof (rule addr_invI)
    show "\<exists>c v. q = Some c \<and> cells ?h c = Some (1, v)" if "s y = Some q" for y q using D(1) [OF that] by auto
    show "y = z" if "s y = Some q" "s z = Some q" for y z q by (rule D(2) [OF that])
    show "b < cnext ?h \<and> (\<exists>y. s y = Some (Some b))" if "cells ?h b = Some w" for b w
      using that D(3) [of b] d by (auto split: if_splits)
  qed
  have "addr_abs (s, ?h) y = ((addr_abs (s, h))(x \<mapsto> a)) y" for y
  proof (cases "y = x")
    case False
    then have "s y \<noteq> Some (Some d)" using D(2) [OF d(1), of y] by blast
    then show ?thesis using False D(1) [of y] by (cases "s y") (auto simp: addr_abs_def m_addr_def split: if_splits)
  qed (use d in \<open>simp add: addr_abs_def m_addr_def\<close>)
  then show ?thesis using i d Write by (auto simp: write_through_def m_addr_def fun_eq_iff)
next
  case (Destroy x)
  then obtain p where "s x = Some p" using assms(2) by auto
  then obtain d v where d: "s x = Some (Some d)" "cells h d = Some (1, v)" using addr_invD(1) [OF assms(1)] by blast
  let ?h = "h\<lparr>cells := (cells h)(d := None)\<rparr>"
  note D = addr_invD [OF assms(1)]
  have o: "y \<noteq> x \<Longrightarrow> s y \<noteq> Some (Some d)" for y using D(2) [OF d(1), of y] by blast
  have i: "addr_inv (s(x := None), ?h)"
  proof (rule addr_invI)
    show "\<exists>c v. q = Some c \<and> cells ?h c = Some (1, v)" if "(s(x := None)) y = Some q" for y q
      using that D(1) [of y q] o [of y] by (auto split: if_splits)
    show "y = z" if "(s(x := None)) y = Some q" "(s(x := None)) z = Some q" for y z q
      using that D(2) [of y q z] by (auto split: if_splits)
    show "b < cnext ?h \<and> (\<exists>y. (s(x := None)) y = Some (Some b))" if "cells ?h b = Some w" for b w
    proof -
      have b: "b \<noteq> d" "cells h b = Some w" using that by (auto split: if_splits)
      then obtain y where "b < cnext h" "s y = Some (Some b)" using D(3) by blast
      moreover from this have "y \<noteq> x" using b(1) d(1) by auto
      ultimately show ?thesis by auto
    qed
  qed
  have "addr_abs (s(x := None), ?h) y = ((addr_abs (s, h))(x := None)) y" for y
    using D(1) [of y] o [of y] by (cases "y = x"; cases "s y") (auto simp: addr_abs_def m_addr_def split: if_splits)
  then show ?thesis using i d Destroy by (auto simp: CAddress_destroy_def release_def fun_eq_iff)
qed

lemma addr_abs_dom: "addr_inv (s, h) \<Longrightarrow> addr_abs (s, h) x = None \<longleftrightarrow> s x = None"
  using read_value by (cases "s x") (fastforce simp: addr_abs_def)+

lemma call_ok_dom: "(\<And>x. s x = None \<longleftrightarrow> v x = None) \<Longrightarrow> call_ok c s = call_ok c v"
  by (cases c) auto

fun calls_ok :: "addr_call list \<Rightarrow> (nat \<rightharpoonup> sockaddr_in) \<Rightarrow> bool" where
  "calls_ok [] v \<longleftrightarrow> True"
| "calls_ok (c # cs) v \<longleftrightarrow> call_ok c v \<and> calls_ok cs (val_call c v)"

lemma calls_refine:
  "addr_inv (s, h) \<Longrightarrow> calls_ok cs (addr_abs (s, h)) \<Longrightarrow>
    \<exists>st. foldr_res run_call cs (s, h) = Inr st \<and> addr_inv st \<and> addr_abs st = fold val_call cs (addr_abs (s, h))"
proof (induction cs arbitrary: s h)
  case (Cons c cs)
  have "call_ok c s" using Cons.prems call_ok_dom [of s "addr_abs (s, h)" c] addr_abs_dom [OF Cons.prems(1)] by simp
  then obtain s' h' where c: "run_call c (s, h) = Inr (s', h')" "addr_inv (s', h')" "addr_abs (s', h') = val_call c (addr_abs (s, h))"
    using call_refines [OF Cons.prems(1), of c] by auto
  then show ?case using Cons.IH [OF c(2)] Cons.prems(2) by simp
qed auto

section \<open>Properties\<close>

definition no_cells :: caddrs where
  "no_cells = \<lparr>cells = (\<lambda>_. None), cnext = 0\<rparr>"

text \<open>C21:
  Address objects behave as values: after any sequence of constructions, copies, assignments, writes through a
  reference or pointer and destructions the objects hold what they would hold if each kept its own address. No
  call faults, no two objects share a \<open>CAddr\<close>, and when no object is left no \<open>CAddr\<close> is.\<close>

theorem addresses_are_values:
  assumes "calls_ok cs (\<lambda>_. None)"
  shows "\<exists>s h. foldr_res run_call cs (\<lambda>_. None, no_cells) = Inr (s, h)
    \<and> addr_abs (s, h) = fold val_call cs (\<lambda>_. None)
    \<and> (\<forall>x y p. s x = Some p \<and> s y = Some p \<longrightarrow> x = y)
    \<and> (fold val_call cs (\<lambda>_. None) = (\<lambda>_. None) \<longrightarrow> cells h = (\<lambda>_. None))"
proof -
  have i: "addr_inv (\<lambda>_. None, no_cells)" by (simp add: addr_inv_def no_cells_def)
  have a: "addr_abs (\<lambda>_. None, no_cells) = (\<lambda>_. None)" by (simp add: addr_abs_def fun_eq_iff)
  obtain s h where r: "foldr_res run_call cs (\<lambda>_. None, no_cells) = Inr (s, h)" "addr_inv (s, h)"
      "addr_abs (s, h) = fold val_call cs (\<lambda>_. None)"
    using calls_refine [OF i, of cs] assms unfolding a by auto
  have "cells h c = None" if "fold val_call cs (\<lambda>_. None) = (\<lambda>_. None)" for c
  proof (rule ccontr)
    assume "cells h c \<noteq> None"
    then obtain x where "s x \<noteq> None" using addr_invD(3) [OF r(2)] by blast
    then show False using addr_abs_dom [OF r(2), of x] r(3) that by simp
  qed
  then show ?thesis using r addr_invD(2) [OF r(2)] by blast
qed

theorem addresses_are_values_witness:
  "\<exists>s h. foldr_res run_call [New 0 no_addr, Copy 1 0, Write 1 (no_addr\<lparr>sin_port := 80\<rparr>), Assign 0 0]
      (\<lambda>_. None, no_cells) = Inr (s, h) \<and> addr_abs (s, h) 0 = Some no_addr"
proof -
  let ?cs = "[New 0 no_addr, Copy 1 0, Write 1 (no_addr\<lparr>sin_port := 80\<rparr>), Assign 0 0]"
  have "calls_ok ?cs (\<lambda>_. None)" by simp
  from addresses_are_values [OF this] obtain s h where "foldr_res run_call ?cs (\<lambda>_. None, no_cells) = Inr (s, h)"
      "addr_abs (s, h) = fold val_call ?cs (\<lambda>_. None)" by blast
  moreover from this(2) have "addr_abs (s, h) 0 = Some no_addr" by simp
  ultimately show ?thesis by blast
qed

text \<open>C40:
  \<open>tcp_gethost\<close> and \<open>toHost\<close> agree on every name: an address that is written out or resolved is what \<open>tcp_gethost\<close>
  stores, and the text of \<open>toHost\<close> denotes it; a name that is not resolved leaves the address alone and is returned
  as it is. Both write outside of the four bytes for a host whose address is longer. The address 255.255.255.255 is
  looked up as a name. The hypothesis is that the text of an address denotes it.\<close>

theorem host_lookup_agrees:
  assumes "\<And>a. inet_addr W (inet_ntoa W a) = a" "length buf = 4" "length junk = 4"
  shows "if inet_addr W addr \<noteq> 0xFFFFFFFF
    then tcp_gethost be W addr buf = Inr (0, mem32 be (inet_addr W addr)) \<and> toHost be junk W addr = Inr addr
    else case gethostbyname W addr of
        None \<Rightarrow> tcp_gethost be W addr buf = Inr (-1, buf) \<and> toHost be junk W addr = Inr addr
      | Some host \<Rightarrow> (\<forall>bs. h_addr host = Some bs \<longrightarrow>
          (h_length host = 4 \<and> length bs = 4 \<longrightarrow> tcp_gethost be W addr buf = Inr (0, bs)
            \<and> (\<exists>t. toHost be junk W addr = Inr t \<and> inet_addr W t = load32 be bs))
        \<and> (4 < h_length host \<longrightarrow> tcp_gethost be W addr buf = Inl Out_of_bounds \<and> toHost be junk W addr = Inl Out_of_bounds))"
  using assms
  by (auto simp: tcp_gethost_def toHost_def memcpy4_def INADDR_NONE_def mem32_def be32_def Let_def split: option.splits)

definition demo_winsock :: winsock where
  "demo_winsock = \<lparr>inet_addr = (\<lambda>s. if length s = 32 \<and> set s \<subseteq> {CHR ''0'', CHR ''1''}
       then horner_sum of_bool 2 (map (\<lambda>c. c = CHR ''1'') s) else 0xFFFFFFFF),
     inet_ntoa = (\<lambda>a. map (\<lambda>i. if bit a i then CHR ''1'' else CHR ''0'') [0..<32]),
     htons = (\<lambda>w. w), ntohs = (\<lambda>w. w), htonl = (\<lambda>w. w),
     gethostbyname = (\<lambda>n. if n = ''host'' then Some \<lparr>h_addr = Some [127, 0, 0, 1], h_length = 4\<rparr> else None)\<rparr>"

theorem host_lookup_agrees_witness:
  "tcp_gethost True demo_winsock ''host'' [0, 0, 0, 0] = Inr (0, [127, 0, 0, 1])"
proof -
  have "inet_addr demo_winsock (inet_ntoa demo_winsock a) = a" for a
  proof -
    have "(\<lambda>c. c = CHR ''1'') \<circ> (\<lambda>i. if bit a i then CHR ''1'' else CHR ''0'') = bit a"
      by (simp add: fun_eq_iff)
    moreover have "horner_sum of_bool 2 (map (bit a) [0..<32]) = a"
      using horner_sum_bit_eq_take_bit [of a 32] take_bit_word_eq_self [of 32 a] by simp
    ultimately show ?thesis by (auto simp: demo_winsock_def)
  qed
  from host_lookup_agrees [OF this, of "[0, 0, 0, 0]" "[0, 0, 0, 0]" "''host''" True] show ?thesis
    by (simp add: demo_winsock_def)
qed

end
