(* ===== verification/Sockets.thy ===== *)
theory Sockets
  imports Address
begin

text \<open>
  The wrappers around sockets: \<open>CTcpServer\<close> and \<open>CUdpServer\<close> (\<open>UdpServer/\<close>), which use the
  addresses of the theory Address, and \<open>net_address\<close> and \<open>net_tcp_accepter\<close> (\<open>pthread/main.cpp\<close>). The calls of
  Winsock are the parameter \<open>S\<close>; what they do to the system is its state \<open>'w\<close>.
\<close>

section \<open>Calls\<close>

text \<open>What \<open>recv\<close> has put into the buffer is returned with its result, and for \<open>recvfrom\<close> the address of the sender.\<close>

record 'w socket_api =
  sk_socket :: "int \<Rightarrow> int \<Rightarrow> int \<Rightarrow> 'w \<Rightarrow> uint32 \<times> 'w"
  sk_bind :: "uint32 \<Rightarrow> sockaddr_in \<Rightarrow> 'w \<Rightarrow> int \<times> 'w"
  sk_listen :: "uint32 \<Rightarrow> int \<Rightarrow> 'w \<Rightarrow> int \<times> 'w"
  sk_accept :: "uint32 \<Rightarrow> 'w \<Rightarrow> uint32 \<times> 'w"
  sk_recv :: "uint32 \<Rightarrow> int \<Rightarrow> 'w \<Rightarrow> (int \<times> byte list) \<times> 'w"
  sk_send :: "uint32 \<Rightarrow> byte list \<Rightarrow> 'w \<Rightarrow> int \<times> 'w"
  sk_recvfrom :: "uint32 \<Rightarrow> int \<Rightarrow> 'w \<Rightarrow> (int \<times> byte list \<times> sockaddr_in) \<times> 'w"
  sk_sendto :: "uint32 \<Rightarrow> byte list \<Rightarrow> sockaddr_in \<Rightarrow> 'w \<Rightarrow> int \<times> 'w"

definition SOCKET_ERROR :: int where "SOCKET_ERROR = -1"
definition INVALID_SOCKET :: uint32 where "INVALID_SOCKET = 0xFFFFFFFF"
definition SOCK_STREAM :: int where "SOCK_STREAM = 1"
definition SOCK_DGRAM :: int where "SOCK_DGRAM = 2"
definition IPPROTO_TCP :: int where "IPPROTO_TCP = 6"
definition IPPROTO_UDP :: int where "IPPROTO_UDP = 17"

section \<open>CTcpServer and CUdpServer\<close>

text \<open>The address is a \<open>CAddress\<close> that the server owns, by the number of the object. The state are the objects, their cells and the system.\<close>

record server =
  m_pAddress :: "nat option"
  m_socket :: uint32

type_synonym 'w net = "(objects \<times> caddrs) \<times> 'w"

definition Tcp_initSocket :: "'w socket_api \<Rightarrow> server \<Rightarrow> 'w \<Rightarrow> server \<times> 'w" where
  "Tcp_initSocket S sv w = (case sk_socket S 2 SOCK_STREAM IPPROTO_TCP w of (s, w) \<Rightarrow> (sv\<lparr>m_socket := s\<rparr>, w))"

definition Udp_initSocket :: "'w socket_api \<Rightarrow> server \<Rightarrow> 'w \<Rightarrow> server \<times> 'w" where
  "Udp_initSocket S sv w = (case sk_socket S 2 SOCK_DGRAM IPPROTO_UDP w of (s, w) \<Rightarrow> (sv\<lparr>m_socket := s\<rparr>, w))"

definition CTcpServer :: "'w socket_api \<Rightarrow> nat option \<Rightarrow> 'w \<Rightarrow> server \<times> 'w" where
  "CTcpServer S pAddress w = Tcp_initSocket S \<lparr>m_pAddress = pAddress, m_socket = INVALID_SOCKET\<rparr> w"

definition CUdpServer :: "'w socket_api \<Rightarrow> nat option \<Rightarrow> 'w \<Rightarrow> server \<times> 'w" where
  "CUdpServer S pAddress w = Udp_initSocket S \<lparr>m_pAddress = pAddress, m_socket = INVALID_SOCKET\<rparr> w"

definition object_at :: "nat option \<Rightarrow> 'w net \<Rightarrow> shared res" where
  "object_at p n = (case p of None \<Rightarrow> Inl Null_deref
     | Some x \<Rightarrow> (case fst (fst n) x of None \<Rightarrow> Inl Use_after_free | Some q \<Rightarrow> Inr q))"

text \<open>The destructor of both servers.\<close>

definition delete_server :: "server \<Rightarrow> 'w net \<Rightarrow> (server \<times> 'w net) res" where
  "delete_server sv n = (case m_pAddress sv of None \<Rightarrow> Inr (sv, n)
     | Some x \<Rightarrow> if fst (fst n) x = None then Inl Double_free
         else bindr (run_call (Destroy x) (fst n)) (\<lambda>st. Inr (sv\<lparr>m_pAddress := None\<rparr>, (st, snd n))))"

definition SetAddress :: "nat option \<Rightarrow> server \<Rightarrow> server" where
  "SetAddress pAddress sv = sv\<lparr>m_pAddress := pAddress\<rparr>"

definition Bind :: "'w socket_api \<Rightarrow> server \<Rightarrow> 'w net \<Rightarrow> (int \<times> 'w net) res" where
  "Bind S sv n = bindr (object_at (m_pAddress sv) n) (\<lambda>q. bindr (GetSocketAddrIn q (snd (fst n))) (\<lambda>a.
     case sk_bind S (m_socket sv) a (snd n) of (r, w) \<Rightarrow> Inr (r, (fst n, w))))"

definition Recv :: "'w socket_api \<Rightarrow> uint32 \<Rightarrow> int \<Rightarrow> 'w \<Rightarrow> (int \<times> byte list) \<times> 'w" where
  "Recv S sock len w = (case sk_recv S sock len w of ((nRet, buff), w) \<Rightarrow>
     if SOCKET_ERROR = nRet then ((SOCKET_ERROR, buff), w) else ((nRet, buff), w))"

definition Send :: "'w socket_api \<Rightarrow> uint32 \<Rightarrow> byte list \<Rightarrow> 'w \<Rightarrow> int \<times> 'w" where
  "Send S sock buff w = (case sk_send S sock buff w of (nRet, w) \<Rightarrow>
     if SOCKET_ERROR = nRet then (SOCKET_ERROR, w) else (nRet, w))"

definition Tcp_Accept :: "'w socket_api \<Rightarrow> server \<Rightarrow> 'w \<Rightarrow> uint32 \<times> 'w" where
  "Tcp_Accept S sv w = sk_accept S (m_socket sv) w"

definition Listen :: "'w socket_api \<Rightarrow> server \<Rightarrow> int \<Rightarrow> 'w \<Rightarrow> int \<times> 'w" where
  "Listen S sv backlog w = (case sk_listen S (m_socket sv) backlog w of (nRet, w) \<Rightarrow>
     if SOCKET_ERROR = nRet then (SOCKET_ERROR, w) else (nRet, w))"

text \<open>The sender's address is written through the pointer into the object \<open>x\<close>; a failed call writes none.\<close>

definition RecvFrom :: "'w socket_api \<Rightarrow> server \<Rightarrow> nat \<Rightarrow> int \<Rightarrow> 'w net \<Rightarrow> ((int \<times> byte list) \<times> 'w net) res" where
  "RecvFrom S sv x len n = bindr (object_at (Some x) n) (\<lambda>_.
     case sk_recvfrom S (m_socket sv) len (snd n) of ((nRet, buff, from), w) \<Rightarrow>
       if SOCKET_ERROR = nRet then Inr ((SOCKET_ERROR, buff), (fst n, w))
       else bindr (run_call (Write x from) (fst n)) (\<lambda>st. Inr ((nRet, buff), (st, w))))"

definition SendTo :: "'w socket_api \<Rightarrow> server \<Rightarrow> nat \<Rightarrow> byte list \<Rightarrow> 'w net \<Rightarrow> (int \<times> 'w net) res" where
  "SendTo S sv x buff n = bindr (object_at (Some x) n) (\<lambda>q. bindr (GetSocketAddrIn q (snd (fst n))) (\<lambda>a.
     case sk_sendto S (m_socket sv) buff a (snd n) of (nRet, w) \<Rightarrow>
       if SOCKET_ERROR = nRet then Inr (SOCKET_ERROR, (fst n, w)) else Inr (nRet, (fst n, w))))"

section \<open>net\_address\<close>

text \<open>A field that a constructor leaves alone is \<open>None\<close>.\<close>

record net_address =
  na_ip :: string
  na_port :: "uint16 option"
  na_family :: uint16
  na_sin_port :: "uint16 option"
  na_s_addr :: uint32

definition net_address_any :: "winsock \<Rightarrow> net_address" where
  "net_address_any W = \<lparr>na_ip = inet_ntoa W (htonl W INADDR_ANY), na_port = None, na_family = AF_INET, na_sin_port = None,
     na_s_addr = htonl W INADDR_ANY\<rparr>"

text \<open>The string \<open>_ip\<close> is made of the pointer before the pointer is tested.\<close>

definition net_address_ip :: "winsock \<Rightarrow> string option \<Rightarrow> uint16 \<Rightarrow> net_address res" where
  "net_address_ip W ip port = (case ip of None \<Rightarrow> Inl Null_deref
     | Some s \<Rightarrow> Inr \<lparr>na_ip = s, na_port = Some port, na_family = AF_INET, na_sin_port = Some (htons W port),
         na_s_addr = inet_addr W s\<rparr>)"

definition net_address_port :: "winsock \<Rightarrow> uint16 \<Rightarrow> net_address" where
  "net_address_port W port = \<lparr>na_ip = inet_ntoa W (htonl W INADDR_ANY), na_port = Some port, na_family = AF_INET,
     na_sin_port = Some (htons W port), na_s_addr = htonl W INADDR_ANY\<rparr>"

definition set_ip :: "winsock \<Rightarrow> string option \<Rightarrow> net_address \<Rightarrow> net_address" where
  "set_ip W ip n = (case ip of None \<Rightarrow> n | Some s \<Rightarrow> n\<lparr>na_ip := s, na_s_addr := inet_addr W s\<rparr>)"

definition set_port :: "winsock \<Rightarrow> uint16 \<Rightarrow> net_address \<Rightarrow> net_address" where
  "set_port W port n = n\<lparr>na_port := Some port, na_sin_port := Some (htons W port)\<rparr>"

definition get_port :: "net_address \<Rightarrow> uint16 res" where
  "get_port n = (case na_port n of None \<Rightarrow> Inl Uninitialised | Some p \<Rightarrow> Inr p)"

definition net_sockaddr :: "net_address \<Rightarrow> sockaddr_in res" where
  "net_sockaddr n = (case na_sin_port n of None \<Rightarrow> Inl Uninitialised
     | Some p \<Rightarrow> Inr \<lparr>sin_family = na_family n, sin_port = p, s_addr = na_s_addr n\<rparr>)"

section \<open>net\_tcp\_accepter\<close>

record accepter =
  ac_fd :: uint32
  ac_addr :: net_address

definition is_create :: "uint32 \<Rightarrow> bool" where
  "is_create fd \<longleftrightarrow> fd \<noteq> INVALID_SOCKET"

definition net_tcp_accepter :: "'w socket_api \<Rightarrow> net_address \<Rightarrow> 'w \<Rightarrow> accepter \<times> 'w" where
  "net_tcp_accepter S addr w = (case sk_socket S 2 SOCK_STREAM IPPROTO_TCP w of (fd, w) \<Rightarrow> (\<lparr>ac_fd = fd, ac_addr = addr\<rparr>, w))"

definition bind_addr :: "'w socket_api \<Rightarrow> accepter \<Rightarrow> 'w \<Rightarrow> (bool \<times> 'w) res" where
  "bind_addr S c w = bindr (net_sockaddr (ac_addr c)) (\<lambda>a.
     case sk_bind S (ac_fd c) a w of (r, w) \<Rightarrow> Inr (r \<noteq> SOCKET_ERROR, w))"

definition bind_to :: "'w socket_api \<Rightarrow> net_address \<Rightarrow> accepter \<Rightarrow> 'w \<Rightarrow> (bool \<times> accepter \<times> 'w) res" where
  "bind_to S addr c w = (let c = c\<lparr>ac_addr := addr\<rparr> in bindr (bind_addr S c w) (\<lambda>(b, w). Inr (b, c, w)))"

definition bind_ip :: "winsock \<Rightarrow> 'w socket_api \<Rightarrow> string option \<Rightarrow> uint16 \<Rightarrow> accepter \<Rightarrow> 'w \<Rightarrow> (bool \<times> accepter \<times> 'w) res" where
  "bind_ip W S ip port c w = bindr (net_address_ip W ip port) (\<lambda>a. bind_to S a c w)"

definition listen :: "'w socket_api \<Rightarrow> int \<Rightarrow> accepter \<Rightarrow> 'w \<Rightarrow> bool \<times> 'w" where
  "listen S backlog c w = (case sk_listen S (ac_fd c) backlog w of (r, w) \<Rightarrow> (r \<noteq> SOCKET_ERROR, w))"

section \<open>Properties\<close>

text \<open>The text and the number of the address say the same, and so do both ports.\<close>

definition net_address_ok :: "winsock \<Rightarrow> net_address \<Rightarrow> bool" where
  "net_address_ok W n \<longleftrightarrow> na_family n = AF_INET \<and> inet_addr W (na_ip n) = na_s_addr n \<and> na_sin_port n = map_option (htons W) (na_port n)"

text \<open>
  Every constructor of \<open>net_address\<close> makes, and every setter keeps, an address whose text, numeric address and ports agree,
  so the members return what the last constructor or setter was given. The constructor with a null pointer for the text
  faults, though it has a branch for that case, and the one without arguments leaves the port unset: it cannot be read
  or bound before \<open>port\<close> is called.\<close>

lemma net_address_consistent:
  assumes "\<And>a. inet_addr W (inet_ntoa W a) = a"
  shows "net_address_ok W (net_address_any W) \<and> net_address_ok W (net_address_port W p)
    \<and> (net_address_ip W ip p = (if ip = None then Inl Null_deref else Inr (set_port W p (set_ip W ip (net_address_any W)))))
    \<and> (net_address_ok W n \<longrightarrow> net_address_ok W (set_ip W ip n) \<and> net_address_ok W (set_port W p n))
    \<and> get_port (net_address_any W) = Inl Uninitialised \<and> net_sockaddr (net_address_any W) = Inl Uninitialised
    \<and> get_port (set_port W p n) = Inr p \<and> (ip \<noteq> None \<longrightarrow> Some (na_ip (set_ip W ip n)) = ip)
    \<and> bind_addr S \<lparr>ac_fd = fd, ac_addr = net_address_any W\<rparr> w = Inl Uninitialised"
  using assms
  by (auto simp: net_address_ok_def net_address_any_def net_address_port_def net_address_ip_def set_ip_def set_port_def
      get_port_def net_sockaddr_def bind_addr_def split: option.splits)

text \<open>
  A server that was made with an address of its own can be bound, binds to that address, and releases it exactly once;
  without an address \<open>Bind\<close> uses a null pointer, and two servers that share an address release it twice.\<close>

lemma server_owns_address:
  assumes "addr_inv (s, h)" "addr_abs (s, h) x = Some a" "CTcpServer S (Some x) w = (sv, w')"
  shows "Bind S sv ((s, h), w') = (case sk_bind S (m_socket sv) a w' of (r, w'') \<Rightarrow> Inr (r, ((s, h), w'')))
    \<and> (\<exists>st sv'. delete_server sv ((s, h), w') = Inr (sv', (st, w')) \<and> addr_inv st
      \<and> addr_abs st = (addr_abs (s, h))(x := None) \<and> delete_server sv' (st, w') = Inr (sv', (st, w'))
      \<and> delete_server sv (st, w') = Inl Double_free)
    \<and> Bind S (SetAddress None sv) ((s, h), w') = Inl Null_deref"
proof -
  have sv: "m_pAddress sv = Some x"
    using assms(3) by (auto simp: CTcpServer_def Tcp_initSocket_def split: prod.splits)
  have x: "s x \<noteq> None" using assms(2) addr_abs_dom [OF assms(1), of x] by auto
  then obtain p where p: "s x = Some p" "m_addr p h = Inr a" using read_value [OF assms(1), of x] assms(2) by auto
  obtain s' h' where d: "run_call (Destroy x) (s, h) = Inr (s', h')" "addr_inv (s', h')" "addr_abs (s', h') = (addr_abs (s, h))(x := None)"
    using call_refines [OF assms(1), of "Destroy x"] x by auto
  then have "s' x = None" using addr_abs_dom [OF d(2), of x] by simp
  then show ?thesis
    using sv p d by (auto simp: Bind_def object_at_def GetSocketAddrIn_def delete_server_def SetAddress_def split: prod.splits)
qed

definition demo_sockets :: "unit socket_api" where
  "demo_sockets = \<lparr>sk_socket = (\<lambda>_ _ _ w. (7, w)), sk_bind = (\<lambda>_ _ w. (0, w)), sk_listen = (\<lambda>_ _ w. (0, w)), sk_accept = (\<lambda>_ w. (8, w)),
     sk_recv = (\<lambda>_ _ w. ((0, []), w)), sk_send = (\<lambda>_ b w. (int (length b), w)),
     sk_recvfrom = (\<lambda>_ _ w. ((1, [42], no_addr\<lparr>sin_port := 99\<rparr>), w)), sk_sendto = (\<lambda>_ b _ w. (int (length b), w))\<rparr>"

text \<open>
  \<open>RecvFrom\<close> stores the sender's address in the address object it is given and in no other, copies of the object
  included; when the call fails no object changes. The objects stay well formed either way.\<close>

theorem receive_sets_one_address:
  assumes "addr_inv (s, h)" "s x \<noteq> None" "sk_recvfrom S (m_socket sv) len w = ((r, buff, from), w')"
  shows "\<exists>st. RecvFrom S sv x len ((s, h), w) = Inr ((r, buff), (st, w')) \<and> addr_inv st
    \<and> addr_abs st = (if r = -1 then addr_abs (s, h) else (addr_abs (s, h))(x \<mapsto> from))"
  using assms call_refines [OF assms(1), of "Write x from"]
  by (auto simp: RecvFrom_def object_at_def SOCKET_ERROR_def)

theorem receive_sets_one_address_witness:
  "\<exists>st. RecvFrom demo_sockets \<lparr>m_pAddress = None, m_socket = 7\<rparr> 0 16 (([0 \<mapsto> Some 0, 1 \<mapsto> Some 1],
      \<lparr>cells = [0 \<mapsto> (1, no_addr), 1 \<mapsto> (1, no_addr)], cnext = 2\<rparr>), ()) = Inr ((1, [42]), (st, ()))
    \<and> addr_abs st 0 = Some (no_addr\<lparr>sin_port := 99\<rparr>) \<and> addr_abs st 1 = Some no_addr"
proof -
  let ?s = "[0 \<mapsto> Some 0, 1 \<mapsto> Some 1] :: objects"
  let ?h = "\<lparr>cells = [0 \<mapsto> (1, no_addr), 1 \<mapsto> (1, no_addr)], cnext = 2\<rparr>"
  have i: "addr_inv (?s, ?h)" by (rule addr_invI) (auto split: if_splits)
  have r: "sk_recvfrom demo_sockets (m_socket \<lparr>m_pAddress = None, m_socket = 7\<rparr>) 16 () = ((1, [42], no_addr\<lparr>sin_port := 99\<rparr>), ())"
    by (simp add: demo_sockets_def)
  have "addr_abs (?s, ?h) 1 = Some no_addr" by (simp add: addr_abs_def m_addr_def)
  then show ?thesis using receive_sets_one_address [OF i _ r, of 0] by fastforce
qed

end
