(* ===== verification/Spec2Isabelle.thy ===== *)
theory Spec2Isabelle
  imports Streams IniFile South IocpModel TinyStr SouthXml DomBuild DomAssign XmlStream XmlCut IoMutex Sockets
begin

text \<open>
  Verification library of the boring repository, a collection of Windows C++ components.

  \<^bold>\<open>The program.\<close> The repository has four groups of code. The first is the base library \<open>base/\<close>: byte
  order conversion, binary streams, string utilities and a reader of INI files. The second is
  \<open>libsouth_interface/\<close>: a C interface through which a driver describes a device, the monitors of the device
  and the targets each monitor measures; \<open>southxml.cpp\<close> turns a monitor into an XML document, converts its texts
  from the ANSI code page to UTF-8 and passes the document to a function of an upload library; the XML is
  made and parsed by the copy of TinyXML in the same directory, which has a string class of its own. The third
  is the servers on I/O completion ports: \<open>IOCPServer/Iocp.cpp\<close>, \<open>IOCPServer/IocpModel.cpp\<close> and
  \<open>io/net_wiocp_module.cpp\<close>, each a pool of worker threads on a completion port. The rest are addresses,
  sockets, locks and main programs. The groups meet in few places: the streams use the byte order functions, the
  INI reader the string utilities, southxml the devices, TinyXML and the code page conversion.

  \<^bold>\<open>What stands for what.\<close> An operation of the code is a definition of the same name, where Isabelle
  allows it, and returns the result type \<open>res\<close> of the theory Prelude when it can end in a fault: an access outside
  of an array, a use after free, a double free, a null pointer, a failed assertion, an overflow of a signed
  integer. A loop or recursion that need not end is a \<open>partial_function (option)\<close> with the result \<open>None\<close> for
  not returning; every other definition is total. Machine integers are words of their width; \<open>size_t\<close> has 32 bits, as in
  the Win32 build. Heaps are maps from addresses to records, one per kind of block, and an address is not
  used twice, so that a use after free is seen. A C string is the list of its characters before the terminator,
  where nothing depends on the block that it lies in.

  \<^bold>\<open>The theories.\<close>
  \<^item> Prelude: faults, results, machine types, lemmas on lists shared by the components.
  \<^item> ByteOrder: \<open>CUtil\<close> (\<open>base/util.cpp\<close>) and the macros of \<open>base/boring.h\<close>. The byte order of the host is a
    parameter. Each conversion is its own inverse and puts the most significant byte first in memory.
  \<^item> Streams: \<open>COutStream\<close>, \<open>CInStream\<close>. The locale of a stream codec is proved once and interpreted for
    every type; what was written is read back, in order; reads stay inside of the block; the cursor functions
    that do not check their argument, and those that reject the last field, are shown with an input.
  \<^item> StdString: the members of \<open>std::string\<close>, \<open>std::vector\<close> and \<open>std::map\<close> that the code calls, with the
    contract of a map as the locale \<open>dict\<close>.
  \<^item> StringUtil: \<open>base/stringutil.cpp\<close>. Splitting in its two versions agrees; maps and hexadecimal text are read back.
  \<^item> IniFile: \<open>Config\<close> and \<open>CIniFile\<close> on a record of files. The operations keep the form of the maps,
    reading gives what was set, saving and loading again gives the same maps; an empty value breaks the load.
  \<^item> Linked, South: the contract of a singly linked list on a heap, and the devices, monitors and targets of
    \<open>south.cpp\<close> as two instances of it. The lists refine append and delete; destroying a device releases every
    block once; the wrong uses that the interface allows are shown with what becomes of them.
  \<^item> WorkerPool, Iocp, IocpModel: the pools as one transition system over the queue of the port, for a
    dispatch function that is a parameter with a contract; every pool of at most 64 workers stops once asked, whatever the order of
    its steps. \<open>CIocp\<close> and \<open>net_wiocp_module\<close> with the handles they own. \<open>CIocpModel\<close>
    with its contexts and handlers: at most ten connections are accepted, contexts are released once; from 32 processors on \<open>Stop\<close> can
    release a context under its handler.
  \<^item> TinyStr: \<open>TiXmlString\<close> on a heap of its blocks, as a refinement of lists of characters.
  \<^item> XmlText, XmlParse, XmlPrint, XmlElem: TinyXML on texts and trees: characters, entities and encodings; the parser,
    with the inputs on which it ends and the truncated ones on which it does not or reads too far; the two
    printers, files and line ends, and the theorem that a printed document is parsed back; attributes as a map, with integers,
    Booleans and numbers of type double in them. The laws of a number format are the locale \<open>number_text\<close>,
    interpreted for the integers.
  \<^item> XmlStream: the STL build of TinyXML: \<open>StreamIn\<close> of every node and the shift operators, on a stream
    that ends or goes on. What is collected is what was taken from the stream; a terminator in the
    text of an element is an input on which the loop does not return.
  \<^item> XmlCut: documents that are cut off in a declaration or in a UTF-8 sequence, and the faults they lead to.
  \<^item> XmlWf: the form of parsed trees: names of elements and attributes, attributes all different, no blank text.
  \<^item> XmlDom, DomTree, DomCopy: the nodes of TinyXML as they are linked on the heap. DomTree describes which
    nodes form a tree and shows that linking, removing, deleting and searching are what they are for lists of
    children; DomCopy that copies are equal node by node and land in the right place.
  \<^item> DomBuild: the nodes that the parser makes, linked on the heap as it does: the tree on the heap shows
    what XmlParse returns, and can be copied and deleted like every other.
  \<^item> DomAssign: the assignment operators of the node classes, with assignment of a node to itself.
  \<^item> SouthXml: \<open>transformEncode.cpp\<close> and \<open>southxml.cpp\<close>, on the heap of South, the attributes of XmlElem, the printer and
    the parser: the report of a monitor is parsed to what the monitor holds, and every monitor is sent.
  \<^item> IoMutex: \<open>io_mutex\<close>, \<open>io_lock\<close> and \<open>io_trylock\<close>. The contract of a lock is the locale
    \<open>lock_laws\<close>, interpreted for critical sections and for POSIX mutexes.
  \<^item> Address, Sockets: \<open>CAddress\<close> as a value over cells that its copies share, and its conversions from
    text; \<open>CTcpServer\<close>, \<open>CUdpServer\<close>, \<open>net_address\<close> and \<open>net_tcp_accepter\<close> with the sockets they own.

  \<^bold>\<open>Bounds.\<close> Only the mutual recursion of the parser takes fuel: \<open>Document_Parse\<close> gives it three more than the length
  of the text, since every turn uses up a character, and \<open>document_parse_outcome\<close> shows that the fuel
  never runs out. The other recursions end by their termination proofs; loops over siblings
  and over streams are partial functions, and the theorems about them say that they return. The worker pools have steps in any order, with no bound
  on the number of packets.

  \<^bold>\<open>Parameters.\<close> What the sources only call is an argument of the definitions that use it: the byte order of the
  host, the code page conversions of Windows, the system calls of the servers with their failures, the functions of the C runtime
  that format and read numbers, the table of extension functions that \<open>WSAIoctl\<close> fills, for how many handles
  \<open>WaitForMultipleObjects\<close> fails. The function of the upload library is taken to return; its calls are recorded with
  their arguments, since its answer is only printed.

  \<^bold>\<open>Not modelled.\<close> The headers of MySQL in \<open>Inc/\<close> are third-party declarations that no source file includes.
  \<open>include/\<close> repeats headers of \<open>libsouth_interface/\<close>. The main programs are demonstrations: they print and
  wait. The overloads of TinyXML for \<open>std::string\<close> forward to the ones for C strings. Headers that only
  declare what the source files define, and protocol headers and stubs without code, have no definitions.
\<close>

end
